(* ===== verification/Mysh_Prelude.thy ===== *)
theory Mysh_Prelude
  imports Main "HOL-Library.Sublist"
begin

text \<open>
  The prelude of the mysh development: the control outcomes of Go code (a value, a panic, a
  process exit, a goroutine that blocks for ever), and generic lemmas on lists, finite maps
  and association lists that the component theories share.  Nothing here models a line of the
  repository; the Go standard library is in the next theory, \<^verbatim>\<open>Go_Std\<close>.
\<close>

named_theorems outcome_simps "unfolding rules for the control outcomes of Go code"
named_theorems go_defs "definitions of the Go standard library that proofs unfold together"

section \<open>Outcomes of Go code\<close>

text \<open>
  A Go function normally returns.  The other ways in which a call ends are
  \<^item> \<open>Panic\<close>: \<^verbatim>\<open>panic(...)\<close>, a nil dereference, an index out of range, a failed type assertion
    or an integer division by zero;
  \<^item> \<open>Fatal\<close>: \<^verbatim>\<open>log.Fatal\<close>, which ends the process;
  \<^item> \<open>Blocked\<close>: the goroutine waits for ever (a send on a nil or full channel with no receiver).
\<close>

datatype 'a outcome = Ok 'a | Panic string | Fatal string | Blocked

primrec obind :: "'a outcome \<Rightarrow> ('a \<Rightarrow> 'b outcome) \<Rightarrow> 'b outcome" where
  "obind (Ok x) f = f x"
| "obind (Panic e) f = Panic e"
| "obind (Fatal e) f = Fatal e"
| "obind Blocked f = Blocked"

lemma obind_Ok_iff [outcome_simps]: "obind m f = Ok y \<longleftrightarrow> (\<exists>x. m = Ok x \<and> f x = Ok y)"
  by (cases m) auto

lemma obind_assoc: "obind (obind m f) g = obind m (\<lambda>x. obind (f x) g)"
  by (cases m) auto

lemma obind_Ok_right [simp]: "obind m Ok = m"
  by (cases m) auto

section \<open>Loops that may not return\<close>

text \<open>
  Code with a loop that may run for ever has a result of type \<open>'a outcome option\<close>: \<^const>\<open>None\<close> when
  it does not return.
\<close>

definition lbind :: "'a outcome option \<Rightarrow> ('a \<Rightarrow> 'b outcome option) \<Rightarrow> 'b outcome option" where
  "lbind m f =
     (case m of
        None \<Rightarrow> None
      | Some r \<Rightarrow> (case r of
            Ok x \<Rightarrow> f x
          | Panic e \<Rightarrow> Some (Panic e)
          | Fatal e \<Rightarrow> Some (Fatal e)
          | Blocked \<Rightarrow> Some Blocked))"

lemma lbind_simps [simp]:
  "lbind None f = None"
  "lbind (Some (Ok x)) f = f x"
  "lbind (Some (Panic e)) f = Some (Panic e)"
  "lbind (Some (Fatal e)) f = Some (Fatal e)"
  "lbind (Some Blocked) f = Some Blocked"
  by (simp_all add: lbind_def)

lemma lbind_Ok_iff [outcome_simps]:
  "lbind m f = Some (Ok y) \<longleftrightarrow> (\<exists>x. m = Some (Ok x) \<and> f x = Some (Ok y))"
  by (auto simp: lbind_def split: option.splits outcome.splits)

text \<open>Recursive definitions of such loops may call \<^const>\<open>lbind\<close>.\<close>

lemma lbind_eq_bind:
  "lbind m g = Option.bind m (\<lambda>r. case r of Ok x \<Rightarrow> g x | Panic e \<Rightarrow> Some (Panic e)
     | Fatal e \<Rightarrow> Some (Fatal e) | Blocked \<Rightarrow> Some Blocked)"
  by (cases m) (auto simp: lbind_def)

lemma lbind_mono [partial_function_mono]:
  assumes "mono_option B" and "\<And>y. mono_option (\<lambda>f. C y f)"
  shows "mono_option (\<lambda>f. lbind (B f) (\<lambda>y. C y f))"
  unfolding lbind_eq_bind
proof (rule bind_mono [OF assms(1)])
  fix r
  show "mono_option (\<lambda>f. case r of Ok x \<Rightarrow> C x f | Panic e \<Rightarrow> Some (Panic e)
     | Fatal e \<Rightarrow> Some (Fatal e) | Blocked \<Rightarrow> Some Blocked)"
    by (cases r) (simp_all add: assms(2) option.const_mono)
qed

lemma lbind_cong [fundef_cong]:
  assumes "m = m'" and "\<And>x. m' = Some (Ok x) \<Longrightarrow> f x = g x"
  shows "lbind m f = lbind m' g"
  using assms by (cases m') (auto simp: lbind_def split: outcome.split)

section \<open>Lists: the most recent distinct elements\<close>

text \<open>
  \<open>keep_first xs\<close> keeps the first occurrence of every element (the library's \<^const>\<open>remdups\<close>
  keeps the last one).  For a list that is read from the most recent entry to the oldest it is
  the list of distinct entries by recency.
\<close>

primrec keep_first :: "'a list \<Rightarrow> 'a list" where
  "keep_first [] = []"
| "keep_first (x # xs) = x # filter (\<lambda>y. y \<noteq> x) (keep_first xs)"

lemma set_keep_first [simp]: "set (keep_first xs) = set xs"
  by (induction xs) auto

lemma distinct_keep_first [simp]: "distinct (keep_first xs)"
  by (induction xs) auto

lemma keep_first_distinct: "distinct xs \<Longrightarrow> keep_first xs = xs"
  by (induction xs) (auto intro: filter_True)

lemma filter_neq_absent: "x \<notin> set xs \<Longrightarrow> filter (\<lambda>y. y \<noteq> x) xs = xs"
  by (auto intro: filter_True)

text \<open>
  Two facts on the first \<open>n\<close> entries of a recency list when one entry is removed: if it was among
  the first \<open>n + 1\<close>, removing it is the same as keeping the first \<open>n\<close> of what is left; if it
  was not among the first \<open>n\<close>, they do not change.
\<close>

lemma filter_neq_take:
  "distinct xs \<Longrightarrow> x \<in> set (take (Suc n) xs) \<Longrightarrow>
     filter (\<lambda>y. y \<noteq> x) (take (Suc n) xs) = take n (filter (\<lambda>y. y \<noteq> x) xs)"
proof (induction xs arbitrary: n)
  case Nil
  then show ?case by simp
next
  case (Cons a xs)
  show ?case
  proof (cases "x = a")
    case True
    with Cons.prems have "a \<notin> set (take n xs)" and "a \<notin> set xs"
      by (auto dest: in_set_takeD)
    with True show ?thesis by (simp add: filter_neq_absent)
  next
    case False
    with Cons.prems obtain n' where "n = Suc n'" by (cases n) auto
    with False Cons show ?thesis by auto
  qed
qed

lemma take_filter_neq: "x \<notin> set (take n xs) \<Longrightarrow> take n (filter (\<lambda>y. y \<noteq> x) xs) = take n xs"
proof (induction xs arbitrary: n)
  case Nil
  then show ?case by simp
next
  case (Cons a xs)
  then show ?case by (cases n) auto
qed

section \<open>Association lists with distinct keys\<close>

lemma filter_fst_neq_map: "map fst (filter (\<lambda>p. fst p \<noteq> k) xs) = filter (\<lambda>y. y \<noteq> k) (map fst xs)"
  by (induction xs) auto

lemma map_of_filter_fst: "map_of (filter (\<lambda>p. fst p \<noteq> k) xs) = (map_of xs)(k := None)"
  by (induction xs) auto

lemma distinct_filter_fst [simp]:
  "distinct (map fst xs) \<Longrightarrow> distinct (map fst (filter P xs))"
  by (induction xs) auto

lemma map_of_butlast:
  "distinct (map fst xs) \<Longrightarrow> xs \<noteq> [] \<Longrightarrow>
     map_of (butlast xs) = (map_of xs)(fst (last xs) := None)"
proof (induction xs rule: rev_induct)
  case Nil
  then show ?case by simp
next
  case (snoc x xs)
  then have "fst x \<notin> fst ` set xs" by auto
  then have none: "map_of xs (fst x) = None" by (simp add: map_of_eq_None_iff)
  show ?case
    by (rule ext) (auto simp: none map_add_def split: option.split)
qed

lemma filter_fst_last:
  "distinct (map fst xs) \<Longrightarrow> xs \<noteq> [] \<Longrightarrow>
     filter (\<lambda>p. fst p \<noteq> fst (last xs)) xs = butlast xs"
proof (induction xs rule: rev_induct)
  case Nil
  then show ?case by simp
next
  case (snoc x xs)
  from snoc.prems have "fst x \<notin> fst ` set xs" by simp
  then have "\<forall>p \<in> set xs. fst p \<noteq> fst x" by (metis imageI)
  then show ?case by (simp add: filter_id_conv)
qed

end
