(* ===== verification/Go_Std.thy ===== *)
theory Go_Std
  imports Mysh_Prelude
begin

text \<open>
  The parts of the Go language and of its standard library that the sources of mysh use:
  error values, decimal printing (\<^verbatim>\<open>strconv.Itoa\<close>), \<^verbatim>\<open>fmt.Sprint\<close> and \<^verbatim>\<open>fmt.Sprintf\<close> with the
  verb \<^verbatim>\<open>%v\<close>, \<^verbatim>\<open>strings.Contains\<close>, the doubly linked list of \<^verbatim>\<open>container/list\<close>, the lookup of
  \<^verbatim>\<open>index/suffixarray\<close>, and \<^verbatim>\<open>filepath.Join\<close>/\<^verbatim>\<open>filepath.Clean\<close> on Unix paths.  A Go string is
  a sequence of bytes, which is what HOL's \<^typ>\<open>string\<close> is.
\<close>

section \<open>Errors\<close>

text \<open>
  An \<^verbatim>\<open>error\<close> is \<^const>\<open>None\<close> for \<^verbatim>\<open>nil\<close>.  The two sentinel errors of the program are compared by
  identity in the code, so they are constructors of their own; every other error is known by
  its message only.
\<close>

datatype error =
    ErrEmptyValue            \<comment> \<open>\<^verbatim>\<open>etcd.ETCD_ERROR_EMPTY_VALUE\<close>\<close>
  | ErrNotLeader             \<comment> \<open>\<^verbatim>\<open>cons.ErrDashLeaderUnavailable\<close>\<close>
  | Err string

primrec error_msg :: "error \<Rightarrow> string" where
  "error_msg ErrEmptyValue = ''Empty value''"
| "error_msg ErrNotLeader = ''not leader''"
| "error_msg (Err s) = s"

section \<open>Decimal numbers\<close>

definition digit :: "nat \<Rightarrow> char" where
  "digit d = char_of (48 + d)"

fun utoa :: "nat \<Rightarrow> string" where
  "utoa n = (if n < 10 then [digit n] else utoa (n div 10) @ [digit (n mod 10)])"

declare utoa.simps [simp del]

definition itoa :: "int \<Rightarrow> string" where
  "itoa i = (if i < 0 then CHR ''-'' # utoa (nat (- i)) else utoa (nat i))"

definition digit_value :: "char \<Rightarrow> nat" where
  "digit_value c = of_char c - 48"

fun atou :: "string \<Rightarrow> nat" where
  "atou s = foldl (\<lambda>acc c. 10 * acc + digit_value c) 0 s"

section \<open>Dynamic values and formatting\<close>

text \<open>
  The dynamic values that the program passes as \<^verbatim>\<open>interface{}\<close> to printing functions and as
  cache keys are strings and integers.
\<close>

datatype iface = IString string | IInt int

primrec Sprint :: "iface \<Rightarrow> string" where
  "Sprint (IString s) = s"
| "Sprint (IInt i) = itoa i"

primrec iface_type :: "iface \<Rightarrow> string" where
  "iface_type (IString s) = ''string''"
| "iface_type (IInt i) = ''int''"

fun extra_args :: "iface list \<Rightarrow> string" where
  "extra_args [] = ''''"
| "extra_args [a] = iface_type a @ ''='' @ Sprint a"
| "extra_args (a # as) = iface_type a @ ''='' @ Sprint a @ '', '' @ extra_args as"

text \<open>
  \<^verbatim>\<open>fmt.Sprintf\<close> for formats whose only verb is \<^verbatim>\<open>%v\<close>: a verb without an argument prints
  \<^verbatim>\<open>%!v(MISSING)\<close>, arguments without a verb are listed at the end.
\<close>

fun Sprintf :: "string \<Rightarrow> iface list \<Rightarrow> string" where
  "Sprintf [] as = (if as = [] then '''' else ''%!(EXTRA '' @ extra_args as @ '')'')"
| "Sprintf [c] as = c # Sprintf [] as"
| "Sprintf (c # d # cs) as =
     (if c = CHR ''%'' \<and> d = CHR ''v'' then
        (case as of
           [] \<Rightarrow> ''%!v(MISSING)'' @ Sprintf cs []
         | a # as' \<Rightarrow> Sprint a @ Sprintf cs as')
      else c # Sprintf (d # cs) as)"

section \<open>Substrings\<close>

text \<open>\<^verbatim>\<open>strings.Contains(s, sub)\<close>.\<close>

fun strings_Contains :: "string \<Rightarrow> string \<Rightarrow> bool" where
  "strings_Contains [] sub = (sub = [])"
| "strings_Contains (c # s) sub = (take (length sub) (c # s) = sub \<or> strings_Contains s sub)"

text \<open>
  \<^verbatim>\<open>(*suffixarray.Index).Lookup(s, n)\<close>: the positions of \<open>s\<close> in the indexed data, at most \<open>n\<close> of
  them when \<open>n \<ge> 0\<close>; the documentation gives a nil result for an empty \<open>s\<close>.  The index of a
  byte string is represented by that byte string.
\<close>

datatype index = Index string

primrec index_data :: "index \<Rightarrow> string" where
  "index_data (Index d) = d"

definition suffixarray_Lookup :: "index \<Rightarrow> string \<Rightarrow> int \<Rightarrow> nat list" where
  "suffixarray_Lookup ix s n =
     (if s = [] \<or> n = 0 then []
      else (let hits = filter (\<lambda>i. take (length s) (drop i (index_data ix)) = s)
                              [0..<length (index_data ix)]
            in if n < 0 then hits else take (nat n) hits))"

section \<open>container/list\<close>

text \<open>
  A \<^verbatim>\<open>*list.List\<close> is the list of its elements from front to back.  An element is a pair of its
  identity (the pointer \<^verbatim>\<open>*list.Element\<close>) and its \<^verbatim>\<open>Value\<close>.  An operation on an element that
  is not in the list does nothing, as in the library (\<^verbatim>\<open>e.list != l\<close>).
\<close>

type_synonym 'a dlist = "(nat \<times> 'a) list"

definition list_Len :: "'a dlist \<Rightarrow> nat" where
  "list_Len l = length l"

definition list_Front :: "'a dlist \<Rightarrow> (nat \<times> 'a) option" where
  "list_Front l = (case l of [] \<Rightarrow> None | e # _ \<Rightarrow> Some e)"

definition list_Back :: "'a dlist \<Rightarrow> (nat \<times> 'a) option" where
  "list_Back l = (if l = [] then None else Some (last l))"

definition list_PushFront :: "nat \<Rightarrow> 'a \<Rightarrow> 'a dlist \<Rightarrow> 'a dlist" where
  "list_PushFront e v l = (e, v) # l"

definition list_Remove :: "nat \<Rightarrow> 'a dlist \<Rightarrow> 'a dlist" where
  "list_Remove e l = filter (\<lambda>p. fst p \<noteq> e) l"

definition list_MoveToFront :: "nat \<Rightarrow> 'a dlist \<Rightarrow> 'a dlist" where
  "list_MoveToFront e l =
     (case map_of l e of None \<Rightarrow> l | Some v \<Rightarrow> (e, v) # list_Remove e l)"

fun insert_before :: "nat \<times> 'a \<Rightarrow> nat \<Rightarrow> 'a dlist \<Rightarrow> 'a dlist" where
  "insert_before p mark [] = []"
| "insert_before p mark (q # qs) = (if fst q = mark then p # q # qs else q # insert_before p mark qs)"

definition list_MoveBefore :: "nat \<Rightarrow> nat \<Rightarrow> 'a dlist \<Rightarrow> 'a dlist" where
  "list_MoveBefore e mark l =
     (case map_of l e of
        None \<Rightarrow> l
      | Some v \<Rightarrow> (if e = mark \<or> mark \<notin> fst ` set l then l
                   else insert_before (e, v) mark (list_Remove e l)))"

text \<open>The assignment \<^verbatim>\<open>e.Value = v\<close>.\<close>

definition list_SetValue :: "nat \<Rightarrow> 'a \<Rightarrow> 'a dlist \<Rightarrow> 'a dlist" where
  "list_SetValue e v l = map (\<lambda>p. if fst p = e then (e, v) else p) l"

section \<open>Unix paths\<close>

text \<open>\<^verbatim>\<open>strings.Split(s, sep)\<close> for a separator of one byte.\<close>

fun split_on :: "char \<Rightarrow> string \<Rightarrow> string list" where
  "split_on sep [] = [[]]"
| "split_on sep (c # cs) =
     (if c = sep then [] # split_on sep cs
      else (case split_on sep cs of [] \<Rightarrow> [[c]] | w # ws \<Rightarrow> (c # w) # ws))"

fun join_with :: "char \<Rightarrow> string list \<Rightarrow> string" where
  "join_with sep [] = []"
| "join_with sep [w] = w"
| "join_with sep (w # ws) = w @ sep # join_with sep ws"

text \<open>
  The component stack of \<^verbatim>\<open>filepath.Clean\<close>: an empty component and \<^verbatim>\<open>.\<close> are dropped, \<^verbatim>\<open>..\<close>
  removes the component before it, and is dropped at the root.  The stack holds the last
  component first.
\<close>

fun clean_components :: "bool \<Rightarrow> string list \<Rightarrow> string list \<Rightarrow> string list" where
  "clean_components rooted st [] = rev st"
| "clean_components rooted st (w # ws) =
     (if w = [] \<or> w = ''.'' then clean_components rooted st ws
      else if w = ''..'' then
        (case st of
           [] \<Rightarrow> clean_components rooted (if rooted then [] else [w]) ws
         | t # ts \<Rightarrow> clean_components rooted (if t = ''..'' then w # st else ts) ws)
      else clean_components rooted (w # st) ws)"

definition filepath_Clean :: "string \<Rightarrow> string" where
  "filepath_Clean p =
     (if p = [] then ''.''
      else (let rooted = (hd p = CHR ''/'');
                body = join_with (CHR ''/'') (clean_components rooted [] (split_on (CHR ''/'') p))
            in if rooted then CHR ''/'' # body else if body = [] then ''.'' else body))"

definition filepath_Join :: "string list \<Rightarrow> string" where
  "filepath_Join ws =
     (let ws' = dropWhile (\<lambda>w. w = []) ws
      in if ws' = [] then '''' else filepath_Clean (join_with (CHR ''/'') ws'))"

text \<open>
  \<^verbatim>\<open>filepath.Rel(base, targ)\<close>: both paths are cleaned and compared by components; what is left of the
  base goes up, what is left of the target follows.
\<close>

definition rel_components :: "string \<Rightarrow> string list" where
  "rel_components p =
     (if p = ''.'' \<or> p = [] then [] else if p = ''/'' then [[]] else split_on (CHR ''/'') p)"

fun strip_common :: "string list \<Rightarrow> string list \<Rightarrow> string list \<times> string list" where
  "strip_common (b # bs) (t # ts) = (if b = t then strip_common bs ts else (b # bs, t # ts))"
| "strip_common bs ts = (bs, ts)"

definition filepath_Rel :: "string \<Rightarrow> string \<Rightarrow> error + string" where
  "filepath_Rel basepath targpath =
     (let base = filepath_Clean basepath; targ = filepath_Clean targpath;
          impossible = Inl (Err (''Rel: can't make '' @ targpath @ '' relative to '' @ basepath))
      in if targ = base then Inr ''.''
         else if (take 1 base = ''/'') \<noteq> (take 1 targ = ''/'') then impossible
         else (case strip_common (rel_components base)
                     (if targ = ''.'' then [''.''] else rel_components targ) of
                 ([], ts) \<Rightarrow> Inr (join_with (CHR ''/'') ts)
               | (b # bs, ts) \<Rightarrow>
                   (if b = ''..'' \<and> ts \<noteq> [] then impossible
                    else Inr (join_with (CHR ''/'') (replicate (Suc (length bs)) ''..'' @ ts)))))"

section \<open>Facts on the library functions\<close>

lemmas list_defs [go_defs] = list_Len_def list_Front_def list_Back_def list_PushFront_def

subsection \<open>Decimal printing is injective and prints digits only\<close>

lemma digit_value_digit: "d < 10 \<Longrightarrow> digit_value (digit d) = d"
  by (simp add: digit_value_def digit_def)

lemma utoa_digits: "c \<in> set (utoa n) \<Longrightarrow> \<exists>d < 10. c = digit d"
proof (induction n rule: utoa.induct)
  case (1 n)
  show ?case
  proof (cases "n < 10")
    case True
    with "1.prems" show ?thesis by (auto simp: utoa.simps [of n])
  next
    case False
    with "1.prems" have "c \<in> set (utoa (n div 10)) \<or> c = digit (n mod 10)"
      by (auto simp: utoa.simps [of n])
    with False "1.IH" show ?thesis by (auto intro: exI [of _ "n mod 10"])
  qed
qed

lemma atou_utoa: "atou (utoa n) = n"
proof (induction n rule: utoa.induct)
  case (1 n)
  then show ?case
    by (cases "n < 10") (simp_all add: utoa.simps [of n] digit_value_digit)
qed

lemma utoa_inject [simp]: "utoa m = utoa n \<longleftrightarrow> m = n"
  by (metis atou_utoa)

lemma utoa_not_Nil [simp]: "utoa n \<noteq> []"
  by (simp add: utoa.simps [of n])

lemma digit_neq_minus: "d < 10 \<Longrightarrow> digit d \<noteq> CHR ''-''"
  by (simp add: digit_def char_of_eq_iff take_bit_eq_mod)

lemma utoa_no_minus: "CHR ''-'' \<notin> set (utoa n)"
  by (metis utoa_digits digit_neq_minus)

lemma itoa_of_nat [simp]: "itoa (int n) = utoa n"
  by (simp add: itoa_def)

lemma itoa_inject [simp]: "itoa i = itoa j \<longleftrightarrow> i = j"
proof
  assume eq: "itoa i = itoa j"
  have "CHR ''-'' \<in> set (itoa k) \<longleftrightarrow> k < 0" for k
    by (simp add: itoa_def utoa_no_minus)
  with eq have "i < 0 \<longleftrightarrow> j < 0" by metis
  with eq show "i = j" by (auto simp: itoa_def split: if_splits)
qed simp

subsection \<open>Substring search\<close>

lemma take_length_prefix: "take (length xs) ys = xs \<longleftrightarrow> prefix xs ys"
  by (metis append_eq_conv_conj append_take_drop_id prefix_def)

lemma strings_Contains_iff: "strings_Contains s sub \<longleftrightarrow> sublist sub s"
  by (induction s) (auto simp: take_length_prefix sublist_Cons_right)

lemma sublist_iff_offset:
  "xs \<noteq> [] \<Longrightarrow> sublist xs ys \<longleftrightarrow> (\<exists>i < length ys. take (length xs) (drop i ys) = xs)"
proof
  assume ne: "xs \<noteq> []" and "sublist xs ys"
  then obtain ps ss where ys: "ys = ps @ xs @ ss" by (auto simp: sublist_def)
  with ne have "length ps < length ys" and "take (length xs) (drop (length ps) ys) = xs" by auto
  then show "\<exists>i < length ys. take (length xs) (drop i ys) = xs" by blast
next
  assume "\<exists>i < length ys. take (length xs) (drop i ys) = xs"
  then obtain i where "take (length xs) (drop i ys) = xs" by blast
  then have "ys = take i ys @ xs @ drop (length xs) (drop i ys)"
    by (metis append_take_drop_id)
  then show "sublist xs ys" by (metis sublist_def)
qed

lemma suffixarray_Lookup_pos:
  "0 < length (suffixarray_Lookup ix s 1) \<longleftrightarrow> s \<noteq> [] \<and> sublist s (index_data ix)"
  by (auto simp: suffixarray_Lookup_def sublist_iff_offset filter_empty_conv take_eq_Nil)

subsection \<open>Elements of a doubly linked list\<close>

lemma fst_set_Remove [simp]: "fst ` set (list_Remove e l) = fst ` set l - {e}"
  by (auto simp: list_Remove_def)

lemma distinct_Remove [simp]: "distinct (map fst l) \<Longrightarrow> distinct (map fst (list_Remove e l))"
  by (simp add: list_Remove_def)

lemma map_fst_SetValue [simp]: "map fst (list_SetValue e v l) = map fst l"
  by (induction l) (auto simp: list_SetValue_def)

lemma map_of_SetValue:
  "map_of (list_SetValue e v l) e = (if e \<in> fst ` set l then Some v else None)"
  by (induction l) (auto simp: list_SetValue_def)

lemma Remove_SetValue [simp]: "list_Remove e (list_SetValue e v l) = list_Remove e l"
  by (induction l) (auto simp: list_SetValue_def list_Remove_def)

lemma Remove_last:
  "distinct (map fst l) \<Longrightarrow> l \<noteq> [] \<Longrightarrow> list_Remove (fst (last l)) l = butlast l"
  by (simp add: list_Remove_def filter_fst_last)

lemma MoveToFront_SetValue:
  "e \<in> fst ` set l \<Longrightarrow>
     list_MoveToFront e (list_SetValue e v l) = (e, v) # list_Remove e l"
  by (simp add: list_MoveToFront_def map_of_SetValue)

text \<open>Moving an element before the front element is moving it to the front.\<close>

lemma MoveBefore_Front:
  assumes "distinct (map fst l)" and "e \<in> fst ` set l" and "list_Front l = Some mark"
  shows "list_MoveBefore e (fst mark) l = list_MoveToFront e l"
proof (cases l)
  case Nil
  with assms show ?thesis by simp
next
  case (Cons q qs)
  with assms have mark: "mark = q" by (simp add: list_Front_def)
  show ?thesis
  proof (cases "e = fst q")
    case True
    from Cons assms(1) True have "e \<notin> fst ` set qs" by simp
    then have "\<forall>p \<in> set qs. fst p \<noteq> e" by (metis imageI)
    then have "filter (\<lambda>p. fst p \<noteq> e) qs = qs" by (simp add: filter_id_conv)
    with Cons mark True show ?thesis
      by (simp add: list_MoveBefore_def list_MoveToFront_def list_Remove_def)
  next
    case False
    with Cons mark show ?thesis
      by (simp add: list_MoveBefore_def list_MoveToFront_def list_Remove_def split: option.split)
  qed
qed

subsection \<open>Paths of plain names\<close>

text \<open>
  A plain name is a non-empty path component that \<^verbatim>\<open>filepath.Clean\<close> leaves alone: it has no
  slash and is neither \<^verbatim>\<open>.\<close> nor \<^verbatim>\<open>..\<close>.
\<close>

definition plain_name :: "string \<Rightarrow> bool" where
  "plain_name w \<longleftrightarrow> w \<noteq> [] \<and> CHR ''/'' \<notin> set w \<and> w \<noteq> ''.'' \<and> w \<noteq> ''..''"

lemma split_on_absent: "sep \<notin> set w \<Longrightarrow> split_on sep w = [w]"
  by (induction w) auto

lemma split_on_append_sep:
  "split_on sep (xs @ sep # ys) = split_on sep xs @ split_on sep ys"
proof (induction xs)
  case Nil
  then show ?case by simp
next
  case (Cons x xs)
  have "split_on sep xs \<noteq> []" by (cases xs) (auto split: list.split)
  with Cons show ?case by (auto split: list.split)
qed

lemma join_plain_name:
  assumes "plain_name w"
  shows "filepath_Join [''/mysh/data/'', w] = ''/mysh/data/'' @ w"
proof -
  have "split_on (CHR ''/'') (''/mysh/data//'' @ w) = [[], ''mysh'', ''data'', [], w]"
    using assms split_on_append_sep [of "CHR ''/''" "''/mysh/data/''" w]
    by (simp add: plain_name_def split_on_absent)
  with assms show ?thesis
    by (simp add: filepath_Join_def filepath_Clean_def plain_name_def)
qed

text \<open>Names under a directory \<open>/mysh/d/\<close>: joining and taking the relative path are inverse.\<close>

lemma split_under:
  assumes "plain_name d" and "CHR ''/'' \<notin> set w"
  shows "split_on (CHR ''/'') (''/mysh/'' @ d @ CHR ''/'' # w) = [[], ''mysh'', d, w]"
  using assms split_on_append_sep [of "CHR ''/''" "''/mysh/'' @ d" w]
    split_on_append_sep [of "CHR ''/''" "''/mysh''" d]
  by (simp add: plain_name_def split_on_absent)

lemma Clean_under:
  assumes "plain_name d" and "w = [] \<or> plain_name w"
  shows "filepath_Clean (''/mysh/'' @ d @ CHR ''/'' # w) =
     ''/mysh/'' @ d @ (if w = [] then [] else CHR ''/'' # w)"
proof -
  have "CHR ''/'' \<notin> set w" using assms(2) by (auto simp: plain_name_def)
  from split_under [OF assms(1) this] assms show ?thesis
    by (auto simp: filepath_Clean_def plain_name_def)
qed

lemma Rel_under:
  assumes "plain_name d" and "plain_name w"
  shows "filepath_Rel (''/mysh/'' @ d @ ''/'') (''/mysh/'' @ d @ CHR ''/'' # w) = Inr w"
proof -
  have "split_on (CHR ''/'') (''/mysh/'' @ d) = [[], ''mysh'', d]"
    using assms(1) split_on_append_sep [of "CHR ''/''" "''/mysh''" d]
    by (simp add: plain_name_def split_on_absent)
  moreover have "split_on (CHR ''/'') (''/mysh/'' @ d @ CHR ''/'' # w) = [[], ''mysh'', d, w]"
    using split_under [OF assms(1)] assms(2) by (simp add: plain_name_def)
  ultimately show ?thesis
    using Clean_under [OF assms(1), of "[]"] Clean_under [OF assms(1), of w] assms(2)
    by (simp add: filepath_Rel_def rel_components_def plain_name_def)
qed

lemma Join_under:
  assumes "plain_name d" and "plain_name w"
  shows "filepath_Join [''/mysh/'' @ d @ ''/'', w] = ''/mysh/'' @ d @ CHR ''/'' # w"
proof -
  have "split_on (CHR ''/'') (''/mysh/'' @ d @ CHR ''/'' # CHR ''/'' # w) = [[], ''mysh'', d, [], w]"
    using split_under [OF assms(1), of "[]"] split_on_append_sep [of "CHR ''/''" "''/mysh/'' @ d @ ''/''" w] assms(2)
    by (simp add: plain_name_def split_on_absent)
  with assms show ?thesis
    by (auto simp: filepath_Join_def filepath_Clean_def plain_name_def)
qed

end
