(* ===== verification/Proto.thy ===== *)
theory Proto
  imports Go_Std
begin

text \<open>
  The messages of the gRPC services, \<^verbatim>\<open>proto/proto.pb.go\<close>: one record per generated struct, without
  the bookkeeping fields of the protobuf runtime (\<^verbatim>\<open>XXX_...\<close>), which no code of mysh reads.  A
  nil slice is the empty list.
\<close>

datatype ServingStatus = UNKNOWN | SERVING | NOT_SERVING

record HealthCheckRequest =
  hcq_Service :: string

record HealthCheckResponse =
  hcr_Status :: ServingStatus

record UploadRequest =
  upq_Uid :: string
  upq_Record :: string
  upq_Token :: string
  upq_CliAddr :: string

record UploadResponse =
  upr_ErrorMsg :: string
  upr_ResponseCode :: int

record SearchRequest =
  srq_Uid :: string
  srq_SearchString :: string
  srq_Token :: string
  srq_CliAddr :: string

record SearchResponse =
  srr_Response :: "string list"
  srr_ResponseCode :: int

record LoginRequest =
  liq_Uid :: string
  liq_Password :: string
  liq_CliAddr :: string

record LoginResponse =
  lir_ResponseCode :: int
  lir_Token :: string

record LogoutRequest =
  loq_Uid :: string
  loq_CliAddr :: string

record LogoutResponse =
  lor_ResponseCode :: int

record CleanRequest =
  clq_Uid :: string

record CleanResponse =
  clr_ResponseCode :: int

record UidLogoutRequest =
  ulq_Uid :: string

record UidLogoutResponse =
  ulr_ResponseCode :: int

record CommonQueryRequest =
  cqq_Req :: string

record CommonQueryResponse =
  cqr_Resp :: string

record CommonQueryListResponse =
  cql_Resp :: "string list"

end
