(* ===== verification/Etcd.thy ===== *)
theory Etcd
  imports Go_Std
begin

text \<open>
  The wrapper \<^verbatim>\<open>lib/etcd/etcd.go\<close> over the etcd client: single key operations, listing and
  deleting by prefix, service registration, the lease based lock and the multi key update under
  that lock.

  The etcd service itself is not part of the repository.  It is a parameter of the model: the
  record \<open>clientv3\<close> of the client calls that the wrapper makes, each a function on the state
  \<open>'w\<close> of the service (which may change between calls, fail and time out in any way).  What the
  wrapper's users rely on is stated by predicates on that record, and used as hypotheses.
\<close>

section \<open>The client calls\<close>

type_synonym lease = int

datatype cmp = CreateRevisionIs string int

datatype txn_op = OpPut string string "lease option" | OpDelete string

record 'w clientv3 =
  cli_Put :: "string \<Rightarrow> string \<Rightarrow> lease option \<Rightarrow> 'w \<Rightarrow> error option \<times> 'w"
  cli_Get :: "string \<Rightarrow> bool \<Rightarrow> 'w \<Rightarrow> ((string \<times> string) list \<times> error option) \<times> 'w"
  cli_Delete :: "string \<Rightarrow> bool \<Rightarrow> 'w \<Rightarrow> error option \<times> 'w"
  cli_Txn :: "cmp list \<Rightarrow> txn_op list \<Rightarrow> 'w \<Rightarrow> (bool \<times> error option) \<times> 'w"
  cli_Grant :: "int \<Rightarrow> 'w \<Rightarrow> (lease \<times> error option) \<times> 'w"
  cli_Revoke :: "lease \<Rightarrow> 'w \<Rightarrow> error option \<times> 'w"
  cli_KeepAlive :: "lease \<Rightarrow> 'w \<Rightarrow> error option \<times> 'w"

section \<open>Key/value operations\<close>

definition PutKV :: "'w clientv3 \<Rightarrow> string \<Rightarrow> string \<Rightarrow> 'w \<Rightarrow> error option \<times> 'w" where
  "PutKV cli k v w = cli_Put cli k v None w"

text \<open>The first value of the response; an empty response is the sentinel error.\<close>

definition GetKV :: "'w clientv3 \<Rightarrow> string \<Rightarrow> 'w \<Rightarrow> (error + string) \<times> 'w" where
  "GetKV cli k w =
     (case cli_Get cli k False w of ((kvs, err), w') \<Rightarrow>
        (case err of
           Some e \<Rightarrow> (Inl e, w')
         | None \<Rightarrow> (case kvs of [] \<Rightarrow> (Inl ErrEmptyValue, w') | kv # _ \<Rightarrow> (Inr (snd kv), w'))))"

definition ListKeyByPrefix :: "'w clientv3 \<Rightarrow> string \<Rightarrow> 'w \<Rightarrow> (error + string list) \<times> 'w" where
  "ListKeyByPrefix cli pre w =
     (case cli_Get cli pre True w of ((kvs, err), w') \<Rightarrow>
        (case err of Some e \<Rightarrow> (Inl e, w') | None \<Rightarrow> (Inr (map fst kvs), w')))"

definition DElKeysByPrefix :: "'w clientv3 \<Rightarrow> string \<Rightarrow> 'w \<Rightarrow> error option \<times> 'w" where
  "DElKeysByPrefix cli pre w = cli_Delete cli pre True w"

text \<open>
  \<^verbatim>\<open>Register\<close>: a lease is granted, the key is put with it (the result of the put is not looked
  at), and the lease is kept alive.  The goroutine that drains the keep-alive channel has no
  effect.
\<close>

definition LeaseTTL :: int where
  "LeaseTTL = 1"

definition Register :: "'w clientv3 \<Rightarrow> string \<Rightarrow> string \<Rightarrow> 'w \<Rightarrow> error option \<times> 'w" where
  "Register cli dir k w =
     (case cli_Grant cli LeaseTTL w of ((lease, err), w1) \<Rightarrow>
        (case err of
           Some e \<Rightarrow> (Some e, w1)
         | None \<Rightarrow>
             (case cli_Put cli (filepath_Join [dir, k]) (itoa lease) (Some lease) w1 of
                (_, w2) \<Rightarrow> cli_KeepAlive cli lease w2)))"

section \<open>The lease lock\<close>

text \<open>\<open>es_locks\<close> is the package variable \<^verbatim>\<open>lockRecord\<close>.\<close>

record 'w etcd_state =
  es_world :: 'w
  es_locks :: "string \<rightharpoonup> lease"

definition tryLock :: "'w clientv3 \<Rightarrow> lease \<Rightarrow> string \<Rightarrow> 'w \<Rightarrow> (bool \<times> error option) \<times> 'w" where
  "tryLock cli leaseId k w =
     (case cli_Txn cli [CreateRevisionIs k 0] [OpPut k (itoa leaseId) (Some leaseId)] w of
        ((succeeded, err), w') \<Rightarrow>
          (case err of
             Some e \<Rightarrow> ((False, Some e), w')
           | None \<Rightarrow> if \<not> succeeded then ((False, None), w') else ((True, None), w')))"

text \<open>The retry loop of \<^verbatim>\<open>Lock\<close>; it ends only when the lock is taken or a call fails.\<close>

partial_function (option) lock_loop ::
  "'w clientv3 \<Rightarrow> lease \<Rightarrow> string \<Rightarrow> 'w \<Rightarrow> (error option \<times> 'w) option"
where
  "lock_loop cli leaseId k w =
     (case tryLock cli leaseId k w of ((success, err), w') \<Rightarrow>
        (case err of
           Some e \<Rightarrow> Some (Some e, w')
         | None \<Rightarrow> if success then Some (None, w') else lock_loop cli leaseId k w'))"

definition Lock :: "'w clientv3 \<Rightarrow> string \<Rightarrow> 'w etcd_state \<Rightarrow> (error option \<times> 'w etcd_state) option" where
  "Lock cli k st =
     (case cli_Grant cli 10 (es_world st) of ((leaseId, err), w1) \<Rightarrow>
        (case err of
           Some e \<Rightarrow> Some (Some e, st\<lparr>es_world := w1\<rparr>)
         | None \<Rightarrow>
             (case lock_loop cli leaseId k w1 of
                None \<Rightarrow> None
              | Some (Some e, w2) \<Rightarrow> Some (Some e, st\<lparr>es_world := w2\<rparr>)
              | Some (None, w2) \<Rightarrow>
                  Some (None, st\<lparr>es_world := w2, es_locks := (es_locks st)(k \<mapsto> leaseId)\<rparr>))))"

text \<open>
  \<^verbatim>\<open>UnLock\<close>: the record is dropped when the lease could be revoked; the function then falls
  through to the error return.
\<close>

definition UnLock :: "'w clientv3 \<Rightarrow> string \<Rightarrow> 'w etcd_state \<Rightarrow> error option \<times> 'w etcd_state" where
  "UnLock cli k st =
     (let done = Some (Err (Sprintf ''%v is already unlocked'' [IString k])) in
      case es_locks st k of
        None \<Rightarrow> (done, st)
      | Some lockId \<Rightarrow>
          (case cli_Revoke cli lockId (es_world st) of
             (Some e, w') \<Rightarrow> (Some e, st\<lparr>es_world := w'\<rparr>)
           | (None, w') \<Rightarrow> (done, st\<lparr>es_world := w', es_locks := (es_locks st)(k := None)\<rparr>)))"

section \<open>The multi key update\<close>

definition OP_PUT :: int where
  "OP_PUT = 0"

definition OP_DEL :: int where
  "OP_DEL = 1"

record KV =
  kv_Op :: int
  kv_Key :: string
  kv_Value :: string

fun kv_ops :: "KV list \<Rightarrow> txn_op list" where
  "kv_ops [] = []"
| "kv_ops (kv # kvs) =
     (if kv_Op kv = OP_PUT then OpPut (kv_Key kv) (kv_Value kv) None # kv_ops kvs
      else if kv_Op kv = OP_DEL then OpDelete (kv_Key kv) # kv_ops kvs
      else kv_ops kvs)"

text \<open>
  \<^verbatim>\<open>AtomicMultiKVOp\<close>: the results of \<^verbatim>\<open>Lock\<close> and of the deferred \<^verbatim>\<open>UnLock\<close> are not looked at.
\<close>

definition AtomicMultiKVOp ::
  "'w clientv3 \<Rightarrow> string \<Rightarrow> KV list \<Rightarrow> 'w etcd_state \<Rightarrow> (error option \<times> 'w etcd_state) option"
where
  "AtomicMultiKVOp cli lockId kvs st =
     (case Lock cli lockId st of
        None \<Rightarrow> None
      | Some (_, st1) \<Rightarrow>
          (case cli_Txn cli [] (kv_ops kvs) (es_world st1) of ((_, err), w2) \<Rightarrow>
             (case UnLock cli lockId (st1\<lparr>es_world := w2\<rparr>) of (_, st3) \<Rightarrow> Some (err, st3))))"

section \<open>What callers rely on\<close>

text \<open>
  The documented behaviour of an etcd that answers: \<open>view\<close> reads the keys and values of the
  service state.  A put changes its key only; a get returns the value of its key, or nothing.
\<close>

definition kv_reliable :: "'w clientv3 \<Rightarrow> ('w \<Rightarrow> string \<rightharpoonup> string) \<Rightarrow> bool" where
  "kv_reliable cli view \<longleftrightarrow>
     (\<forall>k v w. fst (cli_Put cli k v None w) = None \<and>
        view (snd (cli_Put cli k v None w)) = (view w)(k \<mapsto> v)) \<and>
     (\<forall>k w. fst (cli_Get cli k False w) = (case view w k of None \<Rightarrow> [] | Some v \<Rightarrow> [(k, v)], None) \<and>
        view (snd (cli_Get cli k False w)) = view w)"

lemma PutKV_reliable:
  "kv_reliable cli view \<Longrightarrow>
     fst (PutKV cli k v w) = None \<and> view (snd (PutKV cli k v w)) = (view w)(k \<mapsto> v)"
  by (simp add: kv_reliable_def PutKV_def)

lemma GetKV_reliable:
  assumes "kv_reliable cli view"
  shows "\<exists>w'. GetKV cli k w =
           (case view w k of None \<Rightarrow> (Inl ErrEmptyValue, w') | Some v \<Rightarrow> (Inr v, w')) \<and>
         view w' = view w"
proof -
  obtain r w' where g: "cli_Get cli k False w = (r, w')" by (rule prod.exhaust)
  with assms have "r = (case view w k of None \<Rightarrow> [] | Some v \<Rightarrow> [(k, v)], None)" "view w' = view w"
    unfolding kv_reliable_def by (metis fst_conv, metis snd_conv)
  with g show ?thesis by (auto simp: GetKV_def split: option.split)
qed

section \<open>An etcd in memory\<close>

text \<open>
  A concrete service for the concrete runs of the development: an association list of keys with
  their values and leases.  It satisfies the hypotheses that the theorems make on etcd.
\<close>

record mem_world =
  mw_kvs :: "(string \<times> string \<times> lease option) list"
  mw_next :: lease

definition mem_view :: "mem_world \<Rightarrow> string \<rightharpoonup> string" where
  "mem_view w k = map_option fst (map_of (mw_kvs w) k)"

definition mem_put :: "string \<Rightarrow> string \<Rightarrow> lease option \<Rightarrow> mem_world \<Rightarrow> mem_world" where
  "mem_put k v l w = w\<lparr>mw_kvs := (k, v, l) # filter (\<lambda>p. fst p \<noteq> k) (mw_kvs w)\<rparr>"

definition mem_get :: "string \<Rightarrow> bool \<Rightarrow> mem_world \<Rightarrow> (string \<times> string) list" where
  "mem_get k pre w =
     (if pre then map (\<lambda>(k', v, _). (k', v)) (filter (\<lambda>p. prefix k (fst p)) (mw_kvs w))
      else (case mem_view w k of None \<Rightarrow> [] | Some v \<Rightarrow> [(k, v)]))"

definition mem_delete :: "string \<Rightarrow> bool \<Rightarrow> mem_world \<Rightarrow> mem_world" where
  "mem_delete k pre w =
     w\<lparr>mw_kvs := filter (\<lambda>p. \<not> (if pre then prefix k (fst p) else fst p = k)) (mw_kvs w)\<rparr>"

fun mem_op :: "txn_op \<Rightarrow> mem_world \<Rightarrow> mem_world" where
  "mem_op (OpPut k v l) w = mem_put k v l w"
| "mem_op (OpDelete k) w = mem_delete k False w"

fun mem_cmp :: "mem_world \<Rightarrow> cmp \<Rightarrow> bool" where
  "mem_cmp w (CreateRevisionIs k n) = ((mem_view w k = None) = (n = 0))"

text \<open>Revoking a lease deletes the keys that are attached to it.\<close>

definition mem_revoke :: "lease \<Rightarrow> mem_world \<Rightarrow> mem_world" where
  "mem_revoke l w =
     w\<lparr>mw_kvs := filter (\<lambda>p. map_option snd (map_of (mw_kvs w) (fst p)) \<noteq> Some (Some l)) (mw_kvs w)\<rparr>"

definition mem_cli :: "mem_world clientv3" where
  "mem_cli =
     \<lparr>cli_Put = (\<lambda>k v l w. (None, mem_put k v l w)),
      cli_Get = (\<lambda>k pre w. ((mem_get k pre w, None), w)),
      cli_Delete = (\<lambda>k pre w. (None, mem_delete k pre w)),
      cli_Txn = (\<lambda>cs ops w. if list_all (mem_cmp w) cs then ((True, None), fold mem_op ops w)
                            else ((False, None), w)),
      cli_Grant = (\<lambda>_ w. ((mw_next w, None), w\<lparr>mw_next := mw_next w + 1\<rparr>)),
      cli_Revoke = (\<lambda>l w. (None, mem_revoke l w)),
      cli_KeepAlive = (\<lambda>_ w. (None, w))\<rparr>"

lemma mem_view_put: "mem_view (mem_put k v l w) = (mem_view w)(k \<mapsto> v)"
  by (rule ext) (auto simp: mem_view_def mem_put_def map_of_filter_fst)

lemma mem_reliable: "kv_reliable mem_cli mem_view"
  by (simp add: kv_reliable_def mem_cli_def mem_view_put mem_get_def)

definition mem_empty :: mem_world where
  "mem_empty = \<lparr>mw_kvs = [], mw_next = 1\<rparr>"

end
