(* ===== verification/Etcd_Lock.thy ===== *)
theory Etcd_Lock
  imports Etcd
begin

text \<open>
  What the lease lock and the multi key update of \<^verbatim>\<open>lib/etcd/etcd.go\<close> guarantee.  The hypotheses on
  etcd are the documented behaviour of its transactions and leases (\<open>etcd_reliable\<close>); the processes
  that share an etcd interleave at its calls, which is a step relation on their common state.
\<close>

section \<open>An etcd that answers\<close>

text \<open>
  \<open>lview\<close> reads the keys with their values and leases; \<open>used\<close> are the lease ids given out so far.
\<close>

type_synonym leased = "string \<rightharpoonup> string \<times> lease option"

fun apply_op :: "txn_op \<Rightarrow> leased \<Rightarrow> leased" where
  "apply_op (OpPut k v l) m = m(k \<mapsto> (v, l))"
| "apply_op (OpDelete k) m = m(k := None)"

definition drop_lease :: "lease \<Rightarrow> leased \<Rightarrow> leased" where
  "drop_lease l m = (\<lambda>k. case m k of None \<Rightarrow> None | Some (v, l') \<Rightarrow> if l' = Some l then None else Some (v, l'))"

definition etcd_reliable :: "'w clientv3 \<Rightarrow> ('w \<Rightarrow> leased) \<Rightarrow> ('w \<Rightarrow> lease set) \<Rightarrow> bool" where
  "etcd_reliable cli lview used \<longleftrightarrow>
     (\<forall>ttl w. \<exists>l w'. cli_Grant cli ttl w = ((l, None), w') \<and> l \<notin> used w \<and> used w' = insert l (used w) \<and>
        lview w' = lview w) \<and>
     (\<forall>l w. \<exists>w'. cli_Revoke cli l w = (None, w') \<and> lview w' = drop_lease l (lview w) \<and> used w' = used w) \<and>
     (\<forall>k ops w. \<exists>w'. cli_Txn cli [CreateRevisionIs k 0] ops w = ((lview w k = None, None), w') \<and>
        lview w' = (if lview w k = None then fold apply_op ops (lview w) else lview w) \<and> used w' = used w) \<and>
     (\<forall>ops w. \<exists>w'. cli_Txn cli [] ops w = ((True, None), w') \<and>
        lview w' = fold apply_op ops (lview w) \<and> used w' = used w) \<and>
     (\<forall>l w. lview (snd (cli_KeepAlive cli l w)) = lview w \<and> used (snd (cli_KeepAlive cli l w)) = used w)"

lemma etcd_reliableD:
  assumes "etcd_reliable cli lview used"
  shows "\<And>ttl w. \<exists>l w'. cli_Grant cli ttl w = ((l, None), w') \<and> l \<notin> used w \<and> used w' = insert l (used w) \<and>
        lview w' = lview w"
    "\<And>l w. \<exists>w'. cli_Revoke cli l w = (None, w') \<and> lview w' = drop_lease l (lview w) \<and> used w' = used w"
    "\<And>k ops w. \<exists>w'. cli_Txn cli [CreateRevisionIs k 0] ops w = ((lview w k = None, None), w') \<and>
        lview w' = (if lview w k = None then fold apply_op ops (lview w) else lview w) \<and> used w' = used w"
    "\<And>ops w. \<exists>w'. cli_Txn cli [] ops w = ((True, None), w') \<and>
        lview w' = fold apply_op ops (lview w) \<and> used w' = used w"
    "\<And>l w. lview (snd (cli_KeepAlive cli l w)) = lview w"
    "\<And>l w. used (snd (cli_KeepAlive cli l w)) = used w"
  using assms unfolding etcd_reliable_def by blast+

text \<open>The in-memory service of the development is one.\<close>

definition mem_lview :: "mem_world \<Rightarrow> leased" where
  "mem_lview w = map_of (mw_kvs w)"

definition mem_used :: "mem_world \<Rightarrow> lease set" where
  "mem_used w = {l. l < mw_next w}"

lemma mem_lview_put: "mem_lview (mem_put k v l w) = (mem_lview w)(k \<mapsto> (v, l))"
  by (rule ext) (auto simp: mem_lview_def mem_put_def map_of_filter_fst)

lemma mem_lview_delete: "mem_lview (mem_delete k False w) = (mem_lview w)(k := None)"
  by (simp add: mem_lview_def mem_delete_def map_of_filter_fst)

lemma mem_lview_op: "mem_lview (mem_op x w) = apply_op x (mem_lview w)"
  by (cases x) (simp_all add: mem_lview_put mem_lview_delete)

lemma mem_lview_ops: "mem_lview (fold mem_op ops w) = fold apply_op ops (mem_lview w)"
  by (induction ops arbitrary: w) (simp_all add: mem_lview_op)

lemma mem_used_ops: "mem_used (fold mem_op ops w) = mem_used w"
proof (induction ops arbitrary: w)
  case (Cons x ops)
  then show ?case by (cases x) (simp_all add: mem_used_def mem_put_def mem_delete_def)
qed simp

lemma map_of_filter_key: "map_of (filter (\<lambda>p. P (fst p)) xs) k = (if P k then map_of xs k else None)"
  by (induction xs) auto

lemma mem_lview_revoke: "mem_lview (mem_revoke l w) = drop_lease l (mem_lview w)"
proof
  fix k
  let ?P = "\<lambda>k. map_option snd (map_of (mw_kvs w) k) \<noteq> Some (Some l)"
  have "mem_lview (mem_revoke l w) k = (if ?P k then map_of (mw_kvs w) k else None)"
    using map_of_filter_key [of ?P "mw_kvs w" k] by (simp add: mem_lview_def mem_revoke_def)
  then show "mem_lview (mem_revoke l w) k = drop_lease l (mem_lview w) k"
    by (auto simp: mem_lview_def drop_lease_def split: option.split)
qed

lemma mem_etcd_reliable: "etcd_reliable mem_cli mem_lview mem_used"
proof -
  have "mem_view w k = None \<longleftrightarrow> mem_lview w k = None" for w k
    by (simp add: mem_view_def mem_lview_def)
  moreover have "mem_used (w\<lparr>mw_next := mw_next w + 1\<rparr>) = insert (mw_next w) (mem_used w)" for w
    by (auto simp: mem_used_def)
  moreover have "mem_used (mem_revoke l w) = mem_used w" for l w
    by (simp add: mem_used_def mem_revoke_def)
  ultimately show ?thesis
    unfolding etcd_reliable_def
    by (auto simp: mem_cli_def mem_lview_ops mem_used_ops mem_lview_revoke)
      (simp_all add: mem_used_def mem_lview_def)
qed

section \<open>One process\<close>

lemma tryLock_reliable:
  assumes "etcd_reliable cli lview used"
  shows "\<exists>w'. tryLock cli l k w = ((lview w k = None, None), w') \<and> used w' = used w \<and>
     lview w' = (if lview w k = None then (lview w)(k \<mapsto> (itoa l, Some l)) else lview w)"
proof -
  from etcd_reliableD(3) [OF assms, of k "[OpPut k (itoa l) (Some l)]" w] obtain w' where
    "cli_Txn cli [CreateRevisionIs k 0] [OpPut k (itoa l) (Some l)] w = ((lview w k = None, None), w')"
    "lview w' = (if lview w k = None then (lview w)(k \<mapsto> (itoa l, Some l)) else lview w)" "used w' = used w"
    by auto
  then show ?thesis by (cases "lview w k") (simp_all add: tryLock_def)
qed

text \<open>The retry loop returns only if the key becomes free; nobody else acts here, so a taken key stays taken.\<close>

lemma lock_loop_taken:
  "lock_loop cli l k w = Some r \<Longrightarrow> etcd_reliable cli lview used \<Longrightarrow> lview w k = None"
proof (induction rule: lock_loop.raw_induct [rotated, consumes 1, case_names step])
  case (step loop cli l k w r)
  from tryLock_reliable [OF step(3)] obtain w' where
    w': "tryLock cli l k w = ((lview w k = None, None), w')"
      "lview w' = (if lview w k = None then (lview w)(k \<mapsto> (itoa l, Some l)) else lview w)" by blast
  show ?case
  proof (rule ccontr)
    assume taken: "lview w k \<noteq> None"
    with step(2) w'(1) have "loop cli l k w' = Some r" by simp
    from step(1) [OF this step(3)] w'(2) taken show False by simp
  qed
qed

lemma lock_loop_free:
  assumes "etcd_reliable cli lview used" and "lview w k = None"
  shows "\<exists>w'. lock_loop cli l k w = Some (None, w') \<and> lview w' = (lview w)(k \<mapsto> (itoa l, Some l)) \<and> used w' = used w"
proof -
  from tryLock_reliable [OF assms(1), of l k w] assms(2) obtain w' where
    "tryLock cli l k w = ((True, None), w')" "lview w' = (lview w)(k \<mapsto> (itoa l, Some l))" "used w' = used w" by auto
  then show ?thesis by (subst lock_loop.simps) simp
qed

section \<open>Many processes\<close>

text \<open>
  Processes that call \<^verbatim>\<open>Lock\<close> and \<^verbatim>\<open>UnLock\<close> on one etcd.  A process waits in the retry loop with
  the lease it was granted, or is past \<^verbatim>\<open>Lock\<close>; each step is one pass of the loop, the grant
  before it or the whole of \<^verbatim>\<open>UnLock\<close>.
\<close>

datatype phase = Idle | Trying string lease | Held string

record 'w lock_sys =
  ls_world :: 'w
  ls_phase :: "nat \<Rightarrow> phase"
  ls_locks :: "nat \<Rightarrow> string \<rightharpoonup> lease"

inductive lock_step :: "'w clientv3 \<Rightarrow> 'w lock_sys \<Rightarrow> 'w lock_sys \<Rightarrow> bool" for cli where
  grant: "ls_phase s p = Idle \<Longrightarrow> cli_Grant cli 10 (ls_world s) = ((l, None), w) \<Longrightarrow>
    lock_step cli s (s\<lparr>ls_world := w, ls_phase := (ls_phase s)(p := Trying k l)\<rparr>)"
| retry: "ls_phase s p = Trying k l \<Longrightarrow> tryLock cli l k (ls_world s) = ((False, None), w) \<Longrightarrow>
    lock_step cli s (s\<lparr>ls_world := w\<rparr>)"
| taken: "ls_phase s p = Trying k l \<Longrightarrow> tryLock cli l k (ls_world s) = ((True, None), w) \<Longrightarrow>
    lock_step cli s (s\<lparr>ls_world := w, ls_phase := (ls_phase s)(p := Held k),
      ls_locks := (ls_locks s)(p := (ls_locks s p)(k \<mapsto> l))\<rparr>)"
| failed: "ls_phase s p = Trying k l \<Longrightarrow> tryLock cli l k (ls_world s) = ((b, Some e), w) \<Longrightarrow>
    lock_step cli s (s\<lparr>ls_world := w, ls_phase := (ls_phase s)(p := Idle)\<rparr>)"
| unlock: "ls_phase s p = Held k \<Longrightarrow>
    UnLock cli k \<lparr>es_world = ls_world s, es_locks = ls_locks s p\<rparr> = (e, st) \<Longrightarrow>
    lock_step cli s (s\<lparr>ls_world := es_world st, ls_phase := (ls_phase s)(p := Idle),
      ls_locks := (ls_locks s)(p := es_locks st)\<rparr>)"

definition lock_start :: "'w \<Rightarrow> 'w lock_sys" where
  "lock_start w = \<lparr>ls_world = w, ls_phase = (\<lambda>_. Idle), ls_locks = (\<lambda>_. Map.empty)\<rparr>"

text \<open>The lease that a process works with.\<close>

definition lease_of :: "'w lock_sys \<Rightarrow> nat \<Rightarrow> lease option" where
  "lease_of s p = (case ls_phase s p of Idle \<Rightarrow> None | Trying k l \<Rightarrow> Some l | Held k \<Rightarrow> ls_locks s p k)"

definition lock_inv :: "('w \<Rightarrow> leased) \<Rightarrow> ('w \<Rightarrow> lease set) \<Rightarrow> 'w lock_sys \<Rightarrow> bool" where
  "lock_inv lview used s \<longleftrightarrow>
     (\<forall>p l. lease_of s p = Some l \<longrightarrow> l \<in> used (ls_world s)) \<and>
     (\<forall>p q l. lease_of s p = Some l \<and> lease_of s q = Some l \<longrightarrow> p = q) \<and>
     (\<forall>p k. ls_phase s p = Held k \<longrightarrow>
        (\<exists>l. ls_locks s p k = Some l \<and> lview (ls_world s) k = Some (itoa l, Some l))) \<and>
     (\<forall>p l k v. lease_of s p = Some l \<and> lview (ls_world s) k = Some (v, Some l) \<longrightarrow> ls_phase s p = Held k) \<and>
     (\<forall>k v l. lview (ls_world s) k = Some (v, Some l) \<longrightarrow> l \<in> used (ls_world s))"

lemma lock_invD:
  assumes "lock_inv lview used s"
  shows "\<And>p l. lease_of s p = Some l \<Longrightarrow> l \<in> used (ls_world s)"
    "\<And>p q l. lease_of s p = Some l \<Longrightarrow> lease_of s q = Some l \<Longrightarrow> p = q"
    "\<And>p k. ls_phase s p = Held k \<Longrightarrow> \<exists>l. ls_locks s p k = Some l \<and> lview (ls_world s) k = Some (itoa l, Some l)"
    "\<And>p l k v. lease_of s p = Some l \<Longrightarrow> lview (ls_world s) k = Some (v, Some l) \<Longrightarrow> ls_phase s p = Held k"
    "\<And>k v l. lview (ls_world s) k = Some (v, Some l) \<Longrightarrow> l \<in> used (ls_world s)"
  using assms unfolding lock_inv_def by blast+

lemma lock_invI:
  assumes "\<And>p l. lease_of s p = Some l \<Longrightarrow> l \<in> used (ls_world s)"
    "\<And>p q l. lease_of s p = Some l \<Longrightarrow> lease_of s q = Some l \<Longrightarrow> p = q"
    "\<And>p k. ls_phase s p = Held k \<Longrightarrow> \<exists>l. ls_locks s p k = Some l \<and> lview (ls_world s) k = Some (itoa l, Some l)"
    "\<And>p l k v. lease_of s p = Some l \<Longrightarrow> lview (ls_world s) k = Some (v, Some l) \<Longrightarrow> ls_phase s p = Held k"
    "\<And>k v l. lview (ls_world s) k = Some (v, Some l) \<Longrightarrow> l \<in> used (ls_world s)"
  shows "lock_inv lview used s"
  using assms unfolding lock_inv_def by blast

text \<open>How a change of one process shows in its lease.\<close>

lemma lease_of_update:
  "lease_of (s\<lparr>ls_world := w, ls_phase := (ls_phase s)(p := ph)\<rparr>) q =
     (if q = p then (case ph of Idle \<Rightarrow> None | Trying k l \<Rightarrow> Some l | Held k \<Rightarrow> ls_locks s p k) else lease_of s q)"
  "lease_of (s\<lparr>ls_world := w, ls_phase := (ls_phase s)(p := ph), ls_locks := (ls_locks s)(p := lk)\<rparr>) q =
     (if q = p then (case ph of Idle \<Rightarrow> None | Trying k l \<Rightarrow> Some l | Held k \<Rightarrow> lk k) else lease_of s q)"
  "lease_of (s\<lparr>ls_world := w\<rparr>) q = lease_of s q"
  by (simp_all add: lease_of_def split: phase.split)

lemma inv_grant:
  assumes rel: "etcd_reliable cli lview used" and inv: "lock_inv lview used s" and p: "ls_phase s p = Idle"
    and g: "cli_Grant cli 10 (ls_world s) = ((l, None), w)"
  shows "lock_inv lview used (s\<lparr>ls_world := w, ls_phase := (ls_phase s)(p := Trying k l)\<rparr>)" (is "lock_inv _ _ ?s")
proof -
  have w: "l \<notin> used (ls_world s)" "used w = insert l (used (ls_world s))" "lview w = lview (ls_world s)"
    using etcd_reliableD(1) [OF rel, of 10 "ls_world s"] g by auto
  note D = lock_invD [OF inv]
  have old: "lease_of s q \<noteq> Some l" for q using D(1) w(1) by blast
  have free: "lview w k' \<noteq> Some (v, Some l)" for k' v using D(5) w(1,3) by metis
  show ?thesis
  proof (rule lock_invI, goal_cases)
    case (1 q m)
    then show ?case using D(1) w(2) by (auto simp: lease_of_update split: if_splits)
  next
    case (2 q r m)
    then show ?case using D(2) old by (auto simp: lease_of_update split: if_splits)
  next
    case (3 q j)
    then show ?case using D(3) [of q j] w(3) by (simp split: if_splits)
  next
    case (4 q m j v)
    then show ?case using D(4) w(3) free by (auto simp: lease_of_update split: if_splits)
  next
    case (5 j v m)
    then show ?case using D(5) w by auto
  qed
qed

lemma inv_idle:
  assumes inv: "lock_inv lview used s" and "lview w = lview (ls_world s)" "used w = used (ls_world s)"
  shows "lock_inv lview used (s\<lparr>ls_world := w\<rparr>)"
    and "lock_inv lview used (s\<lparr>ls_world := w, ls_phase := (ls_phase s)(p := Idle)\<rparr>)"
  using assms by (auto simp: lock_inv_def lease_of_update split: if_splits)

lemma inv_taken:
  assumes rel: "etcd_reliable cli lview used" and inv: "lock_inv lview used s"
    and p: "ls_phase s p = Trying k l" and t: "tryLock cli l k (ls_world s) = ((True, None), w)"
  shows "lock_inv lview used (s\<lparr>ls_world := w, ls_phase := (ls_phase s)(p := Held k),
      ls_locks := (ls_locks s)(p := (ls_locks s p)(k \<mapsto> l))\<rparr>)" (is "lock_inv _ _ ?s")
proof -
  have w: "lview (ls_world s) k = None" "used w = used (ls_world s)"
    "lview w = (lview (ls_world s))(k \<mapsto> (itoa l, Some l))"
    using tryLock_reliable [OF rel, of l k "ls_world s"] t by auto
  note D = lock_invD [OF inv]
  have lp: "lease_of s p = Some l" using p by (simp add: lease_of_def)
  have lease: "lease_of ?s = lease_of s" by (rule ext) (simp add: lease_of_update lp)
  show ?thesis
  proof (rule lock_invI, goal_cases)
    case (1 q m)
    then show ?case using D(1) w(2) by (simp add: lease)
  next
    case (2 q r m)
    then show ?case using D(2) by (simp add: lease)
  next
    case (3 q j)
    show ?case
    proof (cases "q = p")
      case True
      with 3 w show ?thesis by simp
    next
      case False
      with 3 D(3) [of q j] have "\<exists>m. ls_locks s q j = Some m \<and> lview (ls_world s) j = Some (itoa m, Some m)" by simp
      with w(1,3) False show ?thesis by (cases "j = k") auto
    qed
  next
    case (4 q m j v)
    then show ?case using D(4) [of q m j v] D(2) [of q m p] lp w(3) p
      by (auto simp: lease split: if_splits)
  next
    case (5 j v m)
    then show ?case using D(5) [of j v m] D(1) [OF lp] w by (auto split: if_splits)
  qed
qed

lemma inv_unlock:
  assumes rel: "etcd_reliable cli lview used" and inv: "lock_inv lview used s" and p: "ls_phase s p = Held k"
    and u: "UnLock cli k \<lparr>es_world = ls_world s, es_locks = ls_locks s p\<rparr> = (e, st)"
  shows "lock_inv lview used (s\<lparr>ls_world := es_world st, ls_phase := (ls_phase s)(p := Idle),
      ls_locks := (ls_locks s)(p := es_locks st)\<rparr>)" (is "lock_inv _ _ ?s")
proof -
  note D = lock_invD [OF inv]
  obtain l where l: "ls_locks s p k = Some l" "lview (ls_world s) k = Some (itoa l, Some l)" using D(3) [OF p] by blast
  then have lp: "lease_of s p = Some l" using p by (simp add: lease_of_def)
  obtain w where w: "cli_Revoke cli l (ls_world s) = (None, w)" "lview w = drop_lease l (lview (ls_world s))"
    "used w = used (ls_world s)" using etcd_reliableD(2) [OF rel] by blast
  have st: "es_world st = w" using u l(1) w(1) by (auto simp: UnLock_def Let_def)
  have keep: "lview w j = Some (v, x) \<Longrightarrow> lview (ls_world s) j = Some (v, x)" for j v x
    using w(2) by (auto simp: drop_lease_def split: option.splits if_splits)
  show ?thesis
  proof (rule lock_invI, goal_cases)
    case (1 q m)
    then show ?case using D(1) w(3) st by (simp add: lease_of_update split: if_splits)
  next
    case (2 q r m)
    then show ?case using D(2) by (simp add: lease_of_update split: if_splits)
  next
    case (3 q j)
    then have q: "q \<noteq> p" "ls_phase s q = Held j" by (auto split: if_splits)
    from D(3) [OF q(2)] obtain m where m: "ls_locks s q j = Some m" "lview (ls_world s) j = Some (itoa m, Some m)" by blast
    then have "lease_of s q = Some m" using q(2) by (simp add: lease_of_def)
    with lp D(2) q(1) have "m \<noteq> l" by metis
    with m q st w(2) show ?case by (simp add: drop_lease_def)
  next
    case (4 q m j v)
    then show ?case using D(4) [of q m j v] keep st by (simp add: lease_of_update split: if_splits)
  next
    case (5 j v m)
    then show ?case using D(5) keep w(3) st by simp blast
  qed
qed

lemma lock_step_inv:
  assumes "lock_step cli s t" and rel: "etcd_reliable cli lview used" and inv: "lock_inv lview used s"
  shows "lock_inv lview used t"
  using assms(1)
proof cases
  case (grant p l w k)
  then show ?thesis using inv_grant [OF rel inv] by simp
next
  case (retry p k l w)
  then show ?thesis using inv_idle(1) [OF inv] tryLock_reliable [OF rel, of l k "ls_world s"] by auto
next
  case (taken p k l w)
  then show ?thesis using inv_taken [OF rel inv] by simp
next
  case (failed p k l b e w)
  then show ?thesis using tryLock_reliable [OF rel, of l k "ls_world s"] by auto
next
  case (unlock p k e st)
  then show ?thesis using inv_unlock [OF rel inv] by simp
qed

lemma lock_reachable_inv:
  assumes "(lock_step cli)\<^sup>*\<^sup>* (lock_start w) s" and rel: "etcd_reliable cli lview used"
    and "\<forall>k v l. lview w k = Some (v, Some l) \<longrightarrow> l \<in> used w"
  shows "lock_inv lview used s"
  using assms(1)
proof induction
  case base
  then show ?case using assms(3) by (auto simp: lock_inv_def lock_start_def lease_of_def)
next
  case (step s t)
  then show ?case using lock_step_inv [OF step(2) rel] by simp
qed

section \<open>Properties of locks\<close>



text \<open>\<^verbatim>\<open>Lock\<close> by a process alone returns exactly when the key is free. If no other process
  releases the key, \<^verbatim>\<open>Lock\<close> on a key that is stored runs for ever (a second \<^verbatim>\<open>Lock\<close> of the same process on
  the same key does), and otherwise it succeeds and stores the key with its new lease.\<close>

theorem Lock_returns_iff_free:
  assumes "etcd_reliable cli lview used"
  shows "(Lock cli k st = None \<longleftrightarrow> lview (es_world st) k \<noteq> None) \<and>
         (lview (es_world st) k = None \<longrightarrow>
            (\<exists>l st'. Lock cli k st = Some (None, st') \<and> es_locks st' = (es_locks st)(k \<mapsto> l) \<and>
               lview (es_world st') = (lview (es_world st))(k \<mapsto> (itoa l, Some l))))"
proof -
  obtain l w1 where g: "cli_Grant cli 10 (es_world st) = ((l, None), w1)" "lview w1 = lview (es_world st)"
    using etcd_reliableD(1) [OF assms] by blast
  show ?thesis
  proof (cases "lview (es_world st) k")
    case None
    then have "lview w1 k = None" using g(2) by simp
    from lock_loop_free [OF assms this, of l] g None show ?thesis by (auto simp: Lock_def)
  next
    case (Some x)
    then have "lock_loop cli l k w1 = None"
      using lock_loop_taken [OF _ assms, of l k w1] g(2) by (cases "lock_loop cli l k w1") auto
    with Some g(1) show ?thesis by (simp add: Lock_def)
  qed
qed

theorem Lock_returns_iff_free_witness:
  "Lock mem_cli ''k'' \<lparr>es_world = mem_put ''k'' ''1'' (Some 1) mem_empty, es_locks = [''k'' \<mapsto> 1]\<rparr> = None"
proof -
  have "mem_lview (mem_put ''k'' ''1'' (Some 1) mem_empty) ''k'' \<noteq> None" by (simp add: mem_lview_put)
  then show ?thesis
    using Lock_returns_iff_free [OF mem_etcd_reliable, of "''k''"
        "\<lparr>es_world = mem_put ''k'' ''1'' (Some 1) mem_empty, es_locks = [''k'' \<mapsto> 1]\<rparr>"]
    by simp
qed

text \<open>\<^verbatim>\<open>UnLock\<close> always reports an error. Also when it has revoked the lease and forgotten the
  lock, it returns that the key \<^verbatim>\<open>is already unlocked\<close>, because the error return follows the successful
  branch.\<close>

theorem UnLock_always_reports_error: "fst (UnLock cli k st) \<noteq> None"
  by (auto simp: UnLock_def Let_def split: option.split prod.split)

text \<open>The multi key update does not look at its lock. If \<^verbatim>\<open>Lock\<close> fails (the lease cannot be
  granted), \<^verbatim>\<open>AtomicMultiKVOp\<close> still sends its transaction, and returns the result of that
  transaction only.\<close>

theorem AtomicMultiKVOp_ignores_Lock_error:
  assumes "cli_Grant cli 10 (es_world st) = ((l, Some e), w1)"
    and "cli_Txn cli [] (kv_ops kvs) w1 = ((ok, err), w2)"
  shows "\<exists>st'. AtomicMultiKVOp cli lockId kvs st = Some (err, st')"
proof -
  have "Lock cli lockId st = Some (Some e, st\<lparr>es_world := w1\<rparr>)" using assms(1) by (simp add: Lock_def)
  with assms(2) show ?thesis by (simp add: AtomicMultiKVOp_def split: prod.split)
qed

text \<open>An etcd that grants no lease.\<close>

definition no_lease_cli :: "mem_world clientv3" where
  "no_lease_cli = mem_cli\<lparr>cli_Grant := (\<lambda>_ w. ((0, Some (Err ''etcdserver: too many requests'')), w))\<rparr>"

theorem AtomicMultiKVOp_ignores_Lock_error_witness:
  "\<exists>st'. AtomicMultiKVOp no_lease_cli ''lock'' [\<lparr>kv_Op = OP_PUT, kv_Key = ''a'', kv_Value = ''b''\<rparr>]
     \<lparr>es_world = mem_empty, es_locks = Map.empty\<rparr> = Some (None, st')"
  by (rule AtomicMultiKVOp_ignores_Lock_error
      [where l = 0 and e = "Err ''etcdserver: too many requests''" and ?w1.0 = mem_empty and ok = True
        and ?w2.0 = "mem_put ''a'' ''b'' None mem_empty"])
    (simp_all add: no_lease_cli_def mem_cli_def OP_PUT_def)

end
