(* ===== verification/Json_Strings.thy ===== *)
theory Json_Strings
  imports Go_Std
begin

text \<open>
  The JSON form in which a recorder stores its history: \<^verbatim>\<open>json.Marshal\<close> and \<^verbatim>\<open>json.Unmarshal\<close> of
  Go's \<^verbatim>\<open>encoding/json\<close> at the type \<^verbatim>\<open>[]string\<close>, on bytes.  The encoder escapes quotes, control
  bytes, the HTML characters \<^verbatim>\<open><\<close>, \<^verbatim>\<open>>\<close>, \<^verbatim>\<open>&\<close> and the line separators U+2028/U+2029, and writes
  \<^verbatim>\<open>\ufffd\<close> for every byte that is not part of a valid UTF-8 sequence.  The decoder accepts every
  JSON text whose value fits \<^verbatim>\<open>[]string\<close> (an array of strings and nulls, or null) and fails on
  every other text.  The result of the theory is the round trip: decoding what was encoded gives
  back the strings, with invalid bytes replaced.
\<close>

section \<open>UTF-8\<close>

abbreviation code :: "char \<Rightarrow> nat" where
  "code c \<equiv> of_char c"

abbreviation byte :: "nat \<Rightarrow> char" where
  "byte n \<equiv> char_of n"

definition cont :: "char \<Rightarrow> bool" where
  "cont c \<longleftrightarrow> 128 \<le> code c \<and> code c < 192"

definition RuneError :: nat where
  "RuneError = 65533"

text \<open>
  \<^verbatim>\<open>utf8.DecodeRune\<close>: the rune at the head of the bytes and its width; an invalid sequence is
  the rune U+FFFD of width 1.
\<close>

fun decode_rune :: "string \<Rightarrow> nat \<times> nat" where
  "decode_rune [] = (RuneError, 0)"
| "decode_rune (a # s) =
     (let x = code a in
      if x < 128 then (x, 1)
      else if 194 \<le> x \<and> x < 224 then
        (case s of
           b # _ \<Rightarrow> (if cont b then ((x - 192) * 64 + (code b - 128), 2) else (RuneError, 1))
         | _ \<Rightarrow> (RuneError, 1))
      else if 224 \<le> x \<and> x < 240 then
        (case s of
           b # c # _ \<Rightarrow>
             (if cont b \<and> cont c \<and> (x = 224 \<longrightarrow> 160 \<le> code b) \<and> (x = 237 \<longrightarrow> code b < 160)
              then ((x - 224) * 4096 + (code b - 128) * 64 + (code c - 128), 3)
              else (RuneError, 1))
         | _ \<Rightarrow> (RuneError, 1))
      else if 240 \<le> x \<and> x < 245 then
        (case s of
           b # c # d # _ \<Rightarrow>
             (if cont b \<and> cont c \<and> cont d \<and> (x = 240 \<longrightarrow> 144 \<le> code b) \<and> (x = 244 \<longrightarrow> code b < 144)
              then ((x - 240) * 262144 + (code b - 128) * 4096 + (code c - 128) * 64
                      + (code d - 128), 4)
              else (RuneError, 1))
         | _ \<Rightarrow> (RuneError, 1))
      else (RuneError, 1))"

text \<open>\<^verbatim>\<open>utf8.EncodeRune\<close>.\<close>

definition encode_rune :: "nat \<Rightarrow> string" where
  "encode_rune r =
     (if r < 128 then [byte r]
      else if r < 2048 then [byte (192 + r div 64), byte (128 + r mod 64)]
      else if 1114111 < r \<or> (55296 \<le> r \<and> r < 57344) then [byte 239, byte 191, byte 189]
      else if r < 65536 then
        [byte (224 + r div 4096), byte (128 + (r div 64) mod 64), byte (128 + r mod 64)]
      else
        [byte (240 + r div 262144), byte (128 + (r div 4096) mod 64),
         byte (128 + (r div 64) mod 64), byte (128 + r mod 64)])"

text \<open>The byte at the head is not the start of a valid sequence.\<close>

definition bad_head :: "string \<Rightarrow> bool" where
  "bad_head s \<longleftrightarrow> decode_rune s = (RuneError, 1)"

lemma decode_rune_width: "1 \<le> snd (decode_rune (a # s))"
  by (auto simp: Let_def split: list.splits)

text \<open>Every invalid byte replaced by U+FFFD; valid strings are the fixed points.\<close>

function sanitize :: "string \<Rightarrow> string" where
  "sanitize s =
     (if s = [] then []
      else if bad_head s then encode_rune RuneError @ sanitize (tl s)
      else take (snd (decode_rune s)) s @ sanitize (drop (snd (decode_rune s)) s))"
  by pat_completeness auto
termination
proof (relation "measure length", goal_cases)
  case 1
  then show ?case by simp
next
  case (2 s)
  then show ?case by simp
next
  case (3 s)
  then obtain a t where s: "s = a # t" by (cases s) auto
  show ?case using decode_rune_width [of a t] by (simp add: s del: decode_rune.simps)
qed

declare sanitize.simps [simp del]

function valid_utf8 :: "string \<Rightarrow> bool" where
  "valid_utf8 s =
     (if s = [] then True
      else if bad_head s then False
      else valid_utf8 (drop (snd (decode_rune s)) s))"
  by pat_completeness auto
termination
proof (relation "measure length", goal_cases)
  case 1
  then show ?case by simp
next
  case (2 s)
  then obtain a t where s: "s = a # t" by (cases s) auto
  show ?case using decode_rune_width [of a t] by (simp add: s del: decode_rune.simps)
qed

declare valid_utf8.simps [simp del]

section \<open>The encoder\<close>

definition hex :: "nat \<Rightarrow> char" where
  "hex d = (if d < 10 then byte (48 + d) else byte (87 + d))"

text \<open>The bytes below 128 that \<^verbatim>\<open>htmlSafeSet\<close> passes through.\<close>

definition html_safe :: "char \<Rightarrow> bool" where
  "html_safe c \<longleftrightarrow> 32 \<le> code c \<and> code c < 128 \<and>
     c \<notin> {CHR 0x22, CHR 0x5C, CHR ''<'', CHR ''>'', CHR ''&''}"

definition enc_ascii :: "char \<Rightarrow> string" where
  "enc_ascii c =
     (if html_safe c then [c]
      else if c = CHR 0x5C \<or> c = CHR 0x22 then [CHR 0x5C, c]
      else if c = CHR 0x0A then [CHR 0x5C, CHR ''n'']
      else if c = CHR 0x0D then [CHR 0x5C, CHR ''r'']
      else if c = CHR 0x09 then [CHR 0x5C, CHR ''t'']
      else [CHR 0x5C, CHR ''u'', CHR ''0'', CHR ''0'', hex (code c div 16), hex (code c mod 16)])"

function enc_body :: "string \<Rightarrow> string" where
  "enc_body s =
     (if s = [] then []
      else if code (hd s) < 128 then enc_ascii (hd s) @ enc_body (tl s)
      else if bad_head s then CHR 0x5C # ''ufffd'' @ enc_body (tl s)
      else (case decode_rune s of (c, n) \<Rightarrow>
              (if c = 8232 \<or> c = 8233 then CHR 0x5C # ''u202'' @ [hex (c mod 16)]
               else take n s) @ enc_body (drop n s)))"
  by pat_completeness auto
termination
proof (relation "measure length", goal_cases)
  case (4 s c n)
  then obtain a t where s: "s = a # t" by (cases s) auto
  from 4 have "n = snd (decode_rune s)" by (metis snd_conv)
  then show ?case using decode_rune_width [of a t] by (simp add: s del: decode_rune.simps)
qed auto

declare enc_body.simps [simp del]

definition enc_string :: "string \<Rightarrow> string" where
  "enc_string s = CHR 0x22 # enc_body s @ [CHR 0x22]"

fun enc_elems :: "string list \<Rightarrow> string" where
  "enc_elems [] = []"
| "enc_elems [x] = enc_string x"
| "enc_elems (x # xs) = enc_string x @ CHR '','' # enc_elems xs"

definition json_Marshal :: "string list \<Rightarrow> string" where
  "json_Marshal xs = CHR ''['' # enc_elems xs @ [CHR '']'']"

section \<open>The decoder\<close>

definition is_space :: "char \<Rightarrow> bool" where
  "is_space c \<longleftrightarrow> c \<in> {CHR 0x20, CHR 0x09, CHR 0x0A, CHR 0x0D}"

definition skip_ws :: "string \<Rightarrow> string" where
  "skip_ws s = dropWhile is_space s"

definition hex_value :: "char \<Rightarrow> nat option" where
  "hex_value c =
     (let x = code c in
      if 48 \<le> x \<and> x < 58 then Some (x - 48)
      else if 97 \<le> x \<and> x < 103 then Some (x - 87)
      else if 65 \<le> x \<and> x < 71 then Some (x - 55)
      else None)"

text \<open>Four hexadecimal digits.\<close>

fun hex4 :: "string \<Rightarrow> nat option" where
  "hex4 (a # b # c # d # _) =
     (case (hex_value a, hex_value b, hex_value c, hex_value d) of
        (Some w, Some x, Some y, Some z) \<Rightarrow> Some (((w * 16 + x) * 16 + y) * 16 + z)
      | _ \<Rightarrow> None)"
| "hex4 _ = None"

text \<open>\<^verbatim>\<open>getu4\<close>: the value of an escape \<^verbatim>\<open>\uXXXX\<close> at the head of the bytes.\<close>

fun getu4 :: "string \<Rightarrow> nat option" where
  "getu4 (a # b # s) = (if a = CHR 0x5C \<and> b = CHR ''u'' then hex4 s else None)"
| "getu4 _ = None"

definition is_surrogate :: "nat \<Rightarrow> bool" where
  "is_surrogate r \<longleftrightarrow> 55296 \<le> r \<and> r < 57344"

text \<open>\<^verbatim>\<open>utf16.DecodeRune\<close>: the rune of a surrogate pair.\<close>

definition surrogate_pair :: "nat \<Rightarrow> nat \<Rightarrow> nat option" where
  "surrogate_pair r1 r2 =
     (if 55296 \<le> r1 \<and> r1 < 56320 \<and> 56320 \<le> r2 \<and> r2 < 57344
      then Some ((r1 - 55296) * 1024 + (r2 - 56320) + 65536) else None)"

text \<open>The bytes and the width of an escape that starts with a backslash.\<close>

definition unescape :: "string \<Rightarrow> (string \<times> nat) option" where
  "unescape s =
     (case s of
        _ # e # _ \<Rightarrow>
          (if e = CHR 0x22 \<or> e = CHR 0x5C \<or> e = CHR ''/'' then Some ([e], 2)
           else if e = CHR ''b'' then Some ([CHR 0x08], 2)
           else if e = CHR ''f'' then Some ([CHR 0x0C], 2)
           else if e = CHR ''n'' then Some ([CHR 0x0A], 2)
           else if e = CHR ''r'' then Some ([CHR 0x0D], 2)
           else if e = CHR ''t'' then Some ([CHR 0x09], 2)
           else (case getu4 s of
                   None \<Rightarrow> None
                 | Some r \<Rightarrow>
                     (if is_surrogate r then
                        (case getu4 (drop 6 s) of
                           None \<Rightarrow> Some (encode_rune RuneError, 6)
                         | Some r2 \<Rightarrow>
                             (case surrogate_pair r r2 of
                                None \<Rightarrow> Some (encode_rune RuneError, 6)
                              | Some d \<Rightarrow> Some (encode_rune d, 12)))
                      else Some (encode_rune r, 6))))
      | _ \<Rightarrow> None)"

text \<open>
  The rest of a string literal after its opening quote: the string and what follows the closing
  quote.
\<close>

function dec_body :: "string \<Rightarrow> (string \<times> string) option" where
  "dec_body s =
     (if s = [] then None
      else if hd s = CHR 0x22 then Some ([], tl s)
      else if hd s = CHR 0x5C then
        (case unescape s of
           None \<Rightarrow> None
         | Some (w, n) \<Rightarrow> map_option (apfst ((@) w)) (dec_body (drop (Suc (n - 1)) s)))
      else if code (hd s) < 32 then None
      else map_option (apfst ((@) (encode_rune (fst (decode_rune s)))))
             (dec_body (drop (Suc (snd (decode_rune s) - 1)) s)))"
  by pat_completeness auto
termination
  by (relation "measure length") (auto intro: diff_less)

declare dec_body.simps [simp del]

lemma dec_body_length: "dec_body s = Some (w, rest) \<Longrightarrow> length rest < length s"
proof (induction s arbitrary: w rest rule: dec_body.induct)
  case (1 s)
  show ?case
  proof (cases "s = []")
    case True
    with "1.prems" show ?thesis by (simp add: dec_body.simps)
  next
    case False
    then obtain c t where s: "s = c # t" by (cases s) auto
    from "1.prems" s have "dec_body (c # t) = Some (w, rest)" by simp
    then show ?thesis
      using "1.IH" s
      by (subst (asm) dec_body.simps)
        (fastforce split: if_splits option.splits simp del: decode_rune.simps)
  qed
qed

definition dec_value :: "string \<Rightarrow> (string \<times> string) option" where
  "dec_value s =
     (case s of
        [] \<Rightarrow> None
      | c # t \<Rightarrow> (if c = CHR 0x22 then dec_body t
                  else if take 4 s = ''null'' then Some ([], drop 4 s) else None))"

lemma dec_value_length: "dec_value s = Some (w, rest) \<Longrightarrow> length rest < length s"
  by (auto simp: dec_value_def split: list.splits if_splits dest: dec_body_length)

lemma skip_ws_length: "length (skip_ws s) \<le> length s"
  by (simp add: skip_ws_def length_dropWhile_le)

text \<open>The elements of an array, after its opening bracket and at least one element to come.\<close>

function dec_elems :: "string \<Rightarrow> (string list \<times> string) option" where
  "dec_elems s =
     (case dec_value (skip_ws s) of
        None \<Rightarrow> None
      | Some (w, rest) \<Rightarrow>
          (case skip_ws rest of
             [] \<Rightarrow> None
           | c # t \<Rightarrow>
               (if c = CHR '','' then map_option (apfst ((#) w)) (dec_elems t)
                else if c = CHR '']'' then Some ([w], t) else None)))"
  by pat_completeness auto
termination
proof (relation "measure length", goal_cases)
  case (2 s p w rest c t)
  from 2 have "length rest < length (skip_ws s)" by (auto dest: dec_value_length)
  moreover have "length t < length (skip_ws rest)" using 2 by simp
  ultimately show ?case using skip_ws_length [of s] skip_ws_length [of rest] by simp
qed simp

declare dec_elems.simps [simp del]

definition json_Unmarshal :: "string \<Rightarrow> string list option" where
  "json_Unmarshal s =
     (case skip_ws s of
        [] \<Rightarrow> None
      | c # t \<Rightarrow>
          (if c = CHR ''['' then
             (case skip_ws t of
                [] \<Rightarrow> None
              | d # u \<Rightarrow>
                  (if d = CHR '']'' then (if skip_ws u = [] then Some [] else None)
                   else (case dec_elems t of
                           None \<Rightarrow> None
                         | Some (xs, rest) \<Rightarrow> (if skip_ws rest = [] then Some xs else None))))
           else if take 4 (c # t) = ''null'' \<and> skip_ws (drop 4 (c # t)) = [] then Some []
           else None))"

section \<open>UTF-8: encoding a decoded rune\<close>

lemma two_digits:
  fixes x y z :: nat
  assumes "y < 64" "z < 64"
  shows "(x * 4096 + y * 64 + z) div 4096 = x" "((x * 4096 + y * 64 + z) div 64) mod 64 = y"
    "(x * 4096 + y * 64 + z) mod 64 = z"
proof -
  show "(x * 4096 + y * 64 + z) div 4096 = x"
    by (rule div_nat_eqI) (use assms in simp_all)
  have "(x * 4096 + y * 64 + z) div 64 = x * 64 + y"
    by (rule div_nat_eqI) (use assms in simp_all)
  then show "((x * 4096 + y * 64 + z) div 64) mod 64 = y" using assms by simp
  have "x * 4096 + y * 64 + z = z + (x * 64 + y) * 64" by simp
  then show "(x * 4096 + y * 64 + z) mod 64 = z" using assms by (simp only: mod_mult_self1 mod_less)
qed

lemma encode_rune_2:
  assumes "2 \<le> x" "x < 32" "y < 64"
  shows "encode_rune (x * 64 + y) = [byte (192 + x), byte (128 + y)]"
  using assms by (simp add: encode_rune_def)

lemma encode_rune_3:
  assumes "x < 16" "y < 64" "z < 64" "x = 0 \<Longrightarrow> 32 \<le> y" "x = 13 \<Longrightarrow> y < 32"
  shows "encode_rune (x * 4096 + y * 64 + z) = [byte (224 + x), byte (128 + y), byte (128 + z)]"
proof -
  let ?r = "x * 4096 + y * 64 + z"
  have lo: "2048 \<le> ?r" using assms(4) by (cases "x = 0") auto
  have hi: "?r < 65536" using assms(1-3) by simp
  have nosur: "\<not> (55296 \<le> ?r \<and> ?r < 57344)"
  proof
    assume a: "55296 \<le> ?r \<and> ?r < 57344"
    with assms(2,3) have "x = 13" by arith
    with a assms(3,5) show False by simp
  qed
  from lo have "\<not> ?r < 128" "\<not> ?r < 2048" by simp_all
  moreover from hi have "\<not> 1114111 < ?r" by simp
  ultimately show ?thesis
    unfolding encode_rune_def using hi nosur two_digits [OF assms(2,3), of x] by (simp only: if_False if_True de_Morgan_disj simp_thms)
qed

lemma encode_rune_4:
  assumes "x < 5" "y < 64" "z < 64" "w < 64" "x = 0 \<Longrightarrow> 16 \<le> y" "x = 4 \<Longrightarrow> y < 16"
  shows "encode_rune (x * 262144 + y * 4096 + z * 64 + w) =
    [byte (240 + x), byte (128 + y), byte (128 + z), byte (128 + w)]"
proof -
  let ?r = "x * 262144 + y * 4096 + z * 64 + w"
  have lo: "65536 \<le> ?r" using assms(5) by (cases "x = 0") auto
  have hi: "?r \<le> 1114111"
  proof (cases "x = 4")
    case True
    with assms show ?thesis by simp
  next
    case False
    with assms show ?thesis by simp
  qed
  have e: "?r = (x * 64 + y) * 4096 + z * 64 + w" by simp
  have "?r div 4096 = x * 64 + y" "(?r div 64) mod 64 = z" "?r mod 64 = w"
    unfolding e by (rule two_digits [OF assms(3,4)])+
  moreover from this(1) have "(?r div 4096) mod 64 = y" using assms(2) by simp
  moreover have "?r div 262144 = x"
    by (rule div_nat_eqI) (use assms in simp_all)
  ultimately show ?thesis
    unfolding encode_rune_def using lo hi by auto
qed

text \<open>The four shapes of a valid sequence.\<close>

lemma good_head_cases [consumes 2, case_names one two three four]:
  assumes "s \<noteq> []" and "\<not> bad_head s"
    and one: "\<And>a t. s = a # t \<Longrightarrow> code a < 128 \<Longrightarrow> thesis"
    and two: "\<And>a b t. s = a # b # t \<Longrightarrow> 194 \<le> code a \<Longrightarrow> code a < 224 \<Longrightarrow> cont b \<Longrightarrow> thesis"
    and three: "\<And>a b c t. s = a # b # c # t \<Longrightarrow> 224 \<le> code a \<Longrightarrow> code a < 240 \<Longrightarrow> cont b \<Longrightarrow>
      cont c \<Longrightarrow> (code a = 224 \<Longrightarrow> 160 \<le> code b) \<Longrightarrow> (code a = 237 \<Longrightarrow> code b < 160) \<Longrightarrow> thesis"
    and four: "\<And>a b c d t. s = a # b # c # d # t \<Longrightarrow> 240 \<le> code a \<Longrightarrow> code a < 245 \<Longrightarrow>
      cont b \<Longrightarrow> cont c \<Longrightarrow> cont d \<Longrightarrow> (code a = 240 \<Longrightarrow> 144 \<le> code b) \<Longrightarrow>
      (code a = 244 \<Longrightarrow> code b < 144) \<Longrightarrow> thesis"
  shows thesis
proof -
  from assms(1) obtain a t where s: "s = a # t" by (cases s) auto
  consider "code a < 128" | "194 \<le> code a" "code a < 224" | "224 \<le> code a" "code a < 240"
    | "240 \<le> code a" "code a < 245" | "128 \<le> code a" "code a < 194" | "245 \<le> code a"
    by linarith
  then show thesis
  proof cases
    case 1
    with s one show thesis by blast
  next
    case 2
    with assms(2) s two show thesis
      by (auto simp: bad_head_def Let_def split: list.splits if_splits)
  next
    case 3
    with assms(2) s three show thesis
      by (auto simp: bad_head_def Let_def split: list.splits if_splits)
  next
    case 4
    with assms(2) s four show thesis
      by (auto simp: bad_head_def Let_def split: list.splits if_splits)
  next
    case 5
    with assms(2) s show thesis by (simp add: bad_head_def)
  next
    case 6
    with assms(2) s show thesis by (simp add: bad_head_def)
  qed
qed

lemma encode_decode_rune:
  assumes "s \<noteq> []" and "\<not> bad_head s"
  shows "encode_rune (fst (decode_rune s)) = take (snd (decode_rune s)) s"
  using assms
proof (cases s rule: good_head_cases)
  case (one a t)
  then show ?thesis by (simp add: encode_rune_def)
next
  case (two a b t)
  then have "encode_rune ((code a - 192) * 64 + (code b - 128)) = [a, b]"
    by (subst encode_rune_2) (auto simp: cont_def)
  with two show ?thesis by (simp add: cont_def)
next
  case (three a b c t)
  then have "code a - 224 = 13 \<longleftrightarrow> code a = 237" by linarith
  with three have "encode_rune ((code a - 224) * 4096 + (code b - 128) * 64 + (code c - 128)) = [a, b, c]"
    by (subst encode_rune_3) (auto simp: cont_def)
  with three show ?thesis by (simp add: cont_def)
next
  case (four a b c d t)
  then have "code a - 240 = 4 \<longleftrightarrow> code a = 244" by linarith
  with four have "encode_rune ((code a - 240) * 262144 + (code b - 128) * 4096 + (code c - 128) * 64
      + (code d - 128)) = [a, b, c, d]"
    by (subst encode_rune_4) (auto simp: cont_def)
  with four show ?thesis by (simp add: cont_def)
qed

lemma decode_rune_append:
  assumes "s \<noteq> []" and "\<not> bad_head s"
  shows "decode_rune (take (snd (decode_rune s)) s @ t) = decode_rune s \<and>
         0 < snd (decode_rune s) \<and> snd (decode_rune s) \<le> length s"
  using assms by (cases s rule: good_head_cases) (auto simp: cont_def)


section \<open>Decoding inverts encoding\<close>

abbreviation prepend :: "string \<Rightarrow> (string \<times> string) option \<Rightarrow> (string \<times> string) option" where
  "prepend w r \<equiv> map_option (apfst ((@) w)) r"

lemma dec_body_quote [simp]: "dec_body (CHR 0x22 # t) = Some ([], t)"
  by (simp add: dec_body.simps)

lemma dec_body_rune:
  assumes "s \<noteq> []" and "\<not> bad_head s" and "hd s \<noteq> CHR 0x22" and "hd s \<noteq> CHR 0x5C"
    and "32 \<le> code (hd s)"
  shows "dec_body (take (snd (decode_rune s)) s @ t) =
         prepend (take (snd (decode_rune s)) s) (dec_body t)"
proof -
  let ?n = "snd (decode_rune s)" and ?u = "take (snd (decode_rune s)) s @ t"
  note d = decode_rune_append [OF assms(1,2), of t]
  from assms(1) d have u: "?u \<noteq> []" "hd ?u = hd s" by (cases s; force)+
  have "drop (Suc (?n - 1)) ?u = t" using d by simp
  with assms u d encode_decode_rune [OF assms(1,2)] show ?thesis
    by (subst dec_body.simps) simp
qed

lemma dec_body_escape:
  assumes "unescape (CHR 0x5C # e @ t) = Some (w, Suc (length e))"
  shows "dec_body (CHR 0x5C # e @ t) = prepend w (dec_body t)"
  using assms by (subst dec_body.simps) simp

lemma hex_value_hex: "d < 16 \<Longrightarrow> hex_value (hex d) = Some d"
  by (auto simp: hex_def hex_value_def Let_def)

lemma unescape_u4:
  assumes "hex4 (h @ t) = Some r" and "length h = 4" and "\<not> is_surrogate r"
  shows "unescape (CHR 0x5C # (CHR ''u'' # h) @ t) = Some (encode_rune r, Suc (length (CHR ''u'' # h)))"
  using assms by (simp add: unescape_def)

lemma dec_enc_ascii:
  assumes "code c < 128"
  shows "dec_body (enc_ascii c @ t) = prepend [c] (dec_body t)"
proof -
  consider (safe) "html_safe c" | (quoted) "c = CHR 0x5C \<or> c = CHR 0x22" "\<not> html_safe c"
    | (nl) "c = CHR 0x0A" | (cr) "c = CHR 0x0D" | (tab) "c = CHR 0x09"
    | (ctl) "\<not> html_safe c" "c \<notin> {CHR 0x5C, CHR 0x22, CHR 0x0A, CHR 0x0D, CHR 0x09}" by blast
  then show ?thesis
  proof cases
    case safe
    then have "\<not> bad_head [c]" by (simp add: bad_head_def html_safe_def RuneError_def)
    with safe dec_body_rune [of "[c]" t] show ?thesis
      by (simp add: enc_ascii_def html_safe_def)
  next
    case quoted
    then have "dec_body (CHR 0x5C # [c] @ t) = prepend [c] (dec_body t)"
      by (intro dec_body_escape) (auto simp: unescape_def)
    with quoted show ?thesis by (auto simp: enc_ascii_def)
  next
    case nl
    have "dec_body (CHR 0x5C # ''n'' @ t) = prepend [c] (dec_body t)"
      using nl by (intro dec_body_escape) (simp add: unescape_def)
    with nl show ?thesis by (simp add: enc_ascii_def html_safe_def)
  next
    case cr
    have "dec_body (CHR 0x5C # ''r'' @ t) = prepend [c] (dec_body t)"
      using cr by (intro dec_body_escape) (simp add: unescape_def)
    with cr show ?thesis by (simp add: enc_ascii_def html_safe_def)
  next
    case tab
    have "dec_body (CHR 0x5C # ''t'' @ t) = prepend [c] (dec_body t)"
      using tab by (intro dec_body_escape) (simp add: unescape_def)
    with tab show ?thesis by (simp add: enc_ascii_def html_safe_def)
  next
    case ctl
    let ?h = "[CHR ''0'', CHR ''0'', hex (code c div 16), hex (code c mod 16)]"
    have "hex_value CHR ''0'' = Some 0" by (simp add: hex_value_def)
    moreover have "code c div 16 * 16 + code c mod 16 = code c" by simp
    moreover have "code c div 16 < 16" using assms by simp
    ultimately have "hex4 (?h @ t) = Some (code c)"
      by (simp add: hex_value_hex del: div_mult_mod_eq)
    moreover have "\<not> is_surrogate (code c)" using assms by (simp add: is_surrogate_def)
    ultimately have "unescape (CHR 0x5C # (CHR ''u'' # ?h) @ t) = Some ([c], Suc (length (CHR ''u'' # ?h)))"
      using unescape_u4 [of ?h t "code c"] assms by (simp add: encode_rune_def)
    then have "dec_body (CHR 0x5C # (CHR ''u'' # ?h) @ t) = prepend [c] (dec_body t)"
      by (rule dec_body_escape)
    with ctl show ?thesis by (simp add: enc_ascii_def)
  qed
qed

lemma dec_ufffd: "dec_body (CHR 0x5C # ''ufffd'' @ t) = prepend (encode_rune RuneError) (dec_body t)"
proof (rule dec_body_escape)
  have "hex4 (''fffd'' @ t) = Some RuneError" by (simp add: hex_value_def RuneError_def)
  from unescape_u4 [OF this] show
    "unescape (CHR 0x5C # ''ufffd'' @ t) = Some (encode_rune RuneError, Suc (length ''ufffd''))"
    by (simp add: is_surrogate_def RuneError_def)
qed

lemma dec_u202x:
  assumes "r = 8232 \<or> r = 8233"
  shows "dec_body (CHR 0x5C # (''u202'' @ [hex (r mod 16)]) @ t) = prepend (encode_rune r) (dec_body t)"
proof (rule dec_body_escape)
  have "hex4 ((''202'' @ [hex (r mod 16)]) @ t) = Some r"
    using assms by (auto simp: hex_value_def hex_def)
  from unescape_u4 [OF this] show
    "unescape (CHR 0x5C # (''u202'' @ [hex (r mod 16)]) @ t) =
       Some (encode_rune r, Suc (length (''u202'' @ [hex (r mod 16)])))"
    using assms by (auto simp: is_surrogate_def)
qed

lemma sanitize_Nil [simp]: "sanitize [] = []"
  by (simp add: sanitize.simps)

lemma sanitize_ascii: "code c < 128 \<Longrightarrow> sanitize (c # s) = c # sanitize s"
  by (subst sanitize.simps) (simp add: bad_head_def RuneError_def)

lemma dec_enc_body: "dec_body (enc_body s @ CHR 0x22 # t) = Some (sanitize s, t)"
proof (induction s rule: enc_body.induct)
  case (1 s)
  show ?case
  proof (cases "s = []")
    case True
    then show ?thesis by (simp add: enc_body.simps sanitize.simps)
  next
    case ne: False
    show ?thesis
    proof (cases "code (hd s) < 128")
      case True
      with ne "1.IH"(1) have "dec_body (enc_body (tl s) @ CHR 0x22 # t) = Some (sanitize (tl s), t)"
        by blast
      with ne True dec_enc_ascii [OF True] sanitize_ascii [OF True, of "tl s"] show ?thesis
        by (simp add: enc_body.simps [of s])
    next
      case big: False
      show ?thesis
      proof (cases "bad_head s")
        case True
        with ne big "1.IH"(2) have "dec_body (enc_body (tl s) @ CHR 0x22 # t) = Some (sanitize (tl s), t)"
          by blast
        with ne big True dec_ufffd show ?thesis
          by (simp add: enc_body.simps [of s] sanitize.simps [of s])
      next
        case good: False
        obtain c n where cn: "decode_rune s = (c, n)" by force
        from "1.IH"(3) [OF ne big good cn [symmetric]] have
          IH: "dec_body (enc_body (drop n s) @ CHR 0x22 # t) = Some (sanitize (drop n s), t)" .
        have san: "sanitize s = take n s @ sanitize (drop n s)"
          using ne good cn by (simp add: sanitize.simps [of s])
        have enc: "encode_rune c = take n s" using encode_decode_rune [OF ne good] cn by simp
        show ?thesis
        proof (cases "c = 8232 \<or> c = 8233")
          case True
          with ne big good cn san enc IH dec_u202x [OF True] show ?thesis
            by (simp add: enc_body.simps [of s])
        next
          case False
          have "hd s \<noteq> CHR 0x22" "hd s \<noteq> CHR 0x5C" "32 \<le> code (hd s)" using big by auto
          with False ne big good cn san IH dec_body_rune [OF ne good] show ?thesis
            by (simp add: enc_body.simps [of s])
        qed
      qed
    qed
  qed
qed


lemma skip_ws_nonspace: "\<not> is_space c \<Longrightarrow> skip_ws (c # t) = c # t"
  by (simp add: skip_ws_def)

lemma dec_value_string: "dec_value (enc_string x @ t) = Some (sanitize x, t)"
  by (simp add: dec_value_def enc_string_def dec_enc_body)

lemma skip_ws_enc_string: "skip_ws (enc_string x @ t) = enc_string x @ t"
  by (simp add: enc_string_def skip_ws_nonspace is_space_def)

lemma dec_enc_elems:
  "xs \<noteq> [] \<Longrightarrow> dec_elems (enc_elems xs @ CHR '']'' # t) = Some (map sanitize xs, t)"
proof (induction xs rule: enc_elems.induct)
  case 1
  then show ?case by simp
next
  case (2 x)
  show ?case
    by (subst dec_elems.simps)
      (simp add: skip_ws_enc_string dec_value_string skip_ws_nonspace is_space_def)
next
  case (3 x y ys)
  then have "dec_elems (enc_elems (y # ys) @ CHR '']'' # t) = Some (map sanitize (y # ys), t)" by simp
  then show ?case
    by (subst dec_elems.simps)
      (simp add: skip_ws_enc_string dec_value_string skip_ws_nonspace is_space_def)
qed

lemma enc_elems_head:
  "xs \<noteq> [] \<Longrightarrow> \<exists>u. enc_elems xs @ t = CHR 0x22 # u"
  by (cases xs rule: enc_elems.cases) (auto simp: enc_string_def)

lemma Unmarshal_Marshal: "json_Unmarshal (json_Marshal xs) = Some (map sanitize xs)"
proof (cases "xs = []")
  case True
  then show ?thesis
    by (simp add: json_Unmarshal_def json_Marshal_def skip_ws_def is_space_def)
next
  case False
  then obtain v where v: "enc_elems xs @ '']'' = CHR 0x22 # v" using enc_elems_head [OF False] by blast
  with dec_enc_elems [OF False, of "[]"] have "dec_elems (CHR 0x22 # v) = Some (map sanitize xs, [])"
    by simp
  with v show ?thesis
    by (simp add: json_Unmarshal_def json_Marshal_def skip_ws_nonspace is_space_def)
      (simp add: skip_ws_def)
qed

lemma sanitize_valid: "valid_utf8 s \<Longrightarrow> sanitize s = s"
proof (induction s rule: valid_utf8.induct)
  case (1 s)
  then show ?case
    by (cases "s = []") (auto simp: sanitize.simps [of s] valid_utf8.simps [of s] split: if_splits)
qed

lemma valid_utf8_ascii: "\<forall>c \<in> set s. code c < 128 \<Longrightarrow> valid_utf8 s"
  by (induction s) (auto simp: valid_utf8.simps bad_head_def RuneError_def)

lemma map_sanitize_valid: "\<forall>x \<in> set xs. valid_utf8 x \<Longrightarrow> map sanitize xs = xs"
  by (induction xs) (auto simp: sanitize_valid)

end
