(* ===== verification/Election.thy ===== *)
theory Election
  imports Etcd_Lock Json_Strings
begin

text \<open>
  Leader election, \<^verbatim>\<open>lib/etcd/etcd.go\<close> lines 67 to 147: candidates put a JSON record of themselves
  under the election key in a transaction that succeeds only while the key does not exist, and
  everyone else reads the record.  The first part models how \<^verbatim>\<open>encoding/json\<close> writes and reads that
  record; the theory shows that reading gives the elected id back and that a key has one leader as
  long as its lease lives.
\<close>

section \<open>JSON values\<close>

datatype json =
    JNull
  | JBool bool
  | JNum string
  | JStr string
  | JArr "json list"
  | JObj "(string \<times> json) list"

definition is_digit :: "char \<Rightarrow> bool" where
  "is_digit c \<longleftrightarrow> c \<in> set ''0123456789''"

text \<open>A number: sign, integer part, fraction, exponent; the text that is read and the rest.\<close>

definition num_int :: "string \<Rightarrow> (string \<times> string) option" where
  "num_int s =
     (case s of
        [] \<Rightarrow> None
      | c # t \<Rightarrow>
          (if c = CHR ''0'' then Some ([c], t)
           else if is_digit c then Some (c # takeWhile is_digit t, dropWhile is_digit t)
           else None))"

definition num_frac :: "string \<Rightarrow> (string \<times> string) option" where
  "num_frac s =
     (case s of
        c # t \<Rightarrow>
          (if c = CHR ''.'' then
             (if takeWhile is_digit t = [] then None
              else Some (c # takeWhile is_digit t, dropWhile is_digit t))
           else Some ([], s))
      | [] \<Rightarrow> Some ([], []))"

definition num_exp :: "string \<Rightarrow> (string \<times> string) option" where
  "num_exp s =
     (case s of
        c # t \<Rightarrow>
          (if c = CHR ''e'' \<or> c = CHR ''E'' then
             (let sign = (case t of d # _ \<Rightarrow> if d = CHR ''+'' \<or> d = CHR ''-'' then [d] else [] | [] \<Rightarrow> []);
                  u = drop (length sign) t
              in if takeWhile is_digit u = [] then None
                 else Some (c # sign @ takeWhile is_digit u, dropWhile is_digit u))
           else Some ([], s))
      | [] \<Rightarrow> Some ([], []))"

definition dec_num :: "string \<Rightarrow> (string \<times> string) option" where
  "dec_num s =
     (let sign = (case s of d # _ \<Rightarrow> if d = CHR ''-'' then [d] else [] | [] \<Rightarrow> []) in
      Option.bind (num_int (drop (length sign) s)) (\<lambda>(a, s1).
      Option.bind (num_frac s1) (\<lambda>(b, s2).
      Option.bind (num_exp s2) (\<lambda>(c, s3). Some (sign @ a @ b @ c, s3)))))"

text \<open>
  Values, the members of an object after its opening brace and the elements of an array after its
  opening bracket (\<open>first\<close>: the closing bracket may follow at once).  The fuel bounds the number of
  nested calls; the length of the text is enough.
\<close>

fun parse_value :: "nat \<Rightarrow> string \<Rightarrow> (json \<times> string) option"
  and parse_members :: "nat \<Rightarrow> bool \<Rightarrow> string \<Rightarrow> ((string \<times> json) list \<times> string) option"
  and parse_elems :: "nat \<Rightarrow> bool \<Rightarrow> string \<Rightarrow> (json list \<times> string) option"
where
  "parse_value 0 s = None"
| "parse_value (Suc n) s =
     (case skip_ws s of
        [] \<Rightarrow> None
      | c # t \<Rightarrow>
          (if c = CHR 0x22 then map_option (apfst JStr) (dec_body t)
           else if c = CHR ''{'' then map_option (apfst JObj) (parse_members n True t)
           else if c = CHR ''['' then map_option (apfst JArr) (parse_elems n True t)
           else if take 4 (c # t) = ''null'' then Some (JNull, drop 4 (c # t))
           else if take 4 (c # t) = ''true'' then Some (JBool True, drop 4 (c # t))
           else if take 5 (c # t) = ''false'' then Some (JBool False, drop 5 (c # t))
           else map_option (apfst JNum) (dec_num (c # t))))"
| "parse_members 0 first s = None"
| "parse_members (Suc n) first s =
     (case skip_ws s of
        [] \<Rightarrow> None
      | c # t \<Rightarrow>
          (if c = CHR ''}'' \<and> first then Some ([], t)
           else if c = CHR 0x22 then
             Option.bind (dec_body t) (\<lambda>(k, s1).
               (case skip_ws s1 of
                  d # s2 \<Rightarrow>
                    (if d = CHR '':'' then
                       Option.bind (parse_value n s2) (\<lambda>(v, s3).
                         (case skip_ws s3 of
                            e # s4 \<Rightarrow>
                              (if e = CHR '','' then map_option (apfst ((#) (k, v))) (parse_members n False s4)
                               else if e = CHR ''}'' then Some ([(k, v)], s4)
                               else None)
                          | [] \<Rightarrow> None))
                     else None)
                | [] \<Rightarrow> None))
           else None))"
| "parse_elems 0 first s = None"
| "parse_elems (Suc n) first s =
     (case skip_ws s of
        [] \<Rightarrow> None
      | c # t \<Rightarrow>
          (if c = CHR '']'' \<and> first then Some ([], t)
           else Option.bind (parse_value n (c # t)) (\<lambda>(v, s1).
             (case skip_ws s1 of
                e # s2 \<Rightarrow>
                  (if e = CHR '','' then map_option (apfst ((#) v)) (parse_elems n False s2)
                   else if e = CHR '']'' then Some ([v], s2)
                   else None)
              | [] \<Rightarrow> None))))"

definition parse_json :: "string \<Rightarrow> json option" where
  "parse_json s =
     (case parse_value (Suc (length s)) s of
        Some (v, rest) \<Rightarrow> if skip_ws rest = [] then Some v else None
      | None \<Rightarrow> None)"

subsection \<open>Reading what the encoder writes\<close>

lemma digit_chars: "map digit [0, 1, 2, 3, 4, 5, 6, 7, 8, 9] = ''0123456789''"
  by code_simp

lemma is_digit_digit [simp]: "d < 10 \<Longrightarrow> is_digit (digit d)"
proof -
  assume "d < 10"
  then have "d \<in> set [0, 1, 2, 3, 4, 5, 6, 7, 8, 9]" by auto
  then have "digit d \<in> set (map digit [0, 1, 2, 3, 4, 5, 6, 7, 8, 9])" by (simp only: set_map imageI)
  then show ?thesis by (simp only: is_digit_def digit_chars)
qed

lemma utoa_all_digits: "\<forall>c \<in> set (utoa n). is_digit c"
  by (blast dest: utoa_digits intro: is_digit_digit)

lemma utoa_head: "\<exists>c t. utoa n = c # t \<and> is_digit c \<and> (c = CHR ''0'' \<longrightarrow> t = [])"
proof (induction n rule: utoa.induct)
  case (1 n)
  show ?case
  proof (cases "n < 10")
    case True
    then show ?thesis by (simp add: utoa.simps [of n])
  next
    case False
    with 1 obtain c t where t: "utoa (n div 10) = c # t" "is_digit c" "c = CHR ''0'' \<longrightarrow> t = []" by blast
    moreover have "c \<noteq> CHR ''0''"
    proof
      assume c: "c = CHR ''0''"
      with t have "utoa (n div 10) = utoa 0" using digit_chars by (simp add: utoa.simps [of 0])
      with False show False by simp
    qed
    ultimately show ?thesis using False by (simp add: utoa.simps [of n])
  qed
qed

definition ends_number :: "char \<Rightarrow> bool" where
  "ends_number c \<longleftrightarrow> \<not> is_digit c \<and> c \<noteq> CHR ''.'' \<and> c \<noteq> CHR ''e'' \<and> c \<noteq> CHR ''E''"

lemma dec_num_itoa:
  assumes "ends_number d"
  shows "dec_num (itoa i @ d # s) = Some (itoa i, d # s)"
proof -
  define n where "n = nat (if i < 0 then - i else i)"
  then have i: "itoa i = (if i < 0 then CHR ''-'' # utoa n else utoa n)" by (simp add: itoa_def)
  obtain c t where u: "utoa n = c # t" "is_digit c" "c = CHR ''0'' \<longrightarrow> t = []" using utoa_head by blast
  have t: "\<forall>x \<in> set t. is_digit x" using utoa_all_digits [of n] u by simp
  have "c \<noteq> CHR ''-''" using u(2) by (auto simp: is_digit_def)
  moreover have "num_int (utoa n @ d # s) = Some (utoa n, d # s)"
    using u t assms by (auto simp: num_int_def takeWhile_append2 dropWhile_append2 ends_number_def)
  moreover have "num_frac (d # s) = Some ([], d # s)" "num_exp (d # s) = Some ([], d # s)"
    using assms by (simp_all add: num_frac_def num_exp_def ends_number_def)
  ultimately show ?thesis using u by (auto simp: dec_num_def i)
qed

lemma itoa_head: "\<exists>c t. itoa i = c # t \<and> (is_digit c \<or> c = CHR ''-'')"
proof (cases "i < 0")
  case False
  with utoa_head [of "nat i"] show ?thesis by (auto simp: itoa_def)
qed (simp add: itoa_def)

lemma parse_value_itoa:
  assumes "ends_number d"
  shows "parse_value (Suc n) (itoa i @ d # s) = Some (JNum (itoa i), d # s)"
proof -
  obtain c t where c: "itoa i = c # t" "is_digit c \<or> c = CHR ''-''" using itoa_head by blast
  have ws: "skip_ws ((c # t) @ d # s) = (c # t) @ d # s"
    using c(2) by (auto simp: skip_ws_def is_space_def is_digit_def)
  have "c \<notin> {CHR 0x22, CHR ''{'', CHR ''['', CHR ''n'', CHR ''t'', CHR ''f''}"
    using c(2) by (auto simp: is_digit_def)
  then show ?thesis using dec_num_itoa [OF assms, of i s] ws by (simp add: c(1))
qed

lemma parse_value_string: "parse_value (Suc n) (enc_string x @ s) = Some (JStr (sanitize x), s)"
  by (simp add: enc_string_def skip_ws_nonspace is_space_def dec_enc_body)

text \<open>One member of an object: its name, a value that reads back, and what follows.\<close>

lemma parse_member:
  assumes "parse_value n (v @ e # s) = Some (x, e # s)" and "\<not> is_space e"
  shows "parse_members (Suc n) first (enc_string k @ CHR '':'' # v @ e # s) =
     (if e = CHR '','' then map_option (apfst ((#) (sanitize k, x))) (parse_members n False s)
      else if e = CHR ''}'' then Some ([(sanitize k, x)], s) else None)"
  using assms
  by (simp add: enc_string_def skip_ws_nonspace is_space_def dec_enc_body)

section \<open>The election record\<close>

text \<open>\<open>el_ElectTime\<close> is the RFC 3339 text of the time, as \<^verbatim>\<open>time.Time\<close> writes itself.\<close>

record electorInfo =
  el_ElectorID :: string
  el_TTL :: int
  el_ElectTime :: string
  el_LeaseID :: lease

definition elector_String :: "electorInfo \<Rightarrow> string" where
  "elector_String e =
     CHR ''{'' # enc_string ''ElectorID'' @ CHR '':'' # enc_string (el_ElectorID e) @
     CHR '','' # enc_string ''TTL'' @ CHR '':'' # itoa (el_TTL e) @
     CHR '','' # enc_string ''ElectTime'' @ CHR '':'' # CHR 0x22 # el_ElectTime e @ CHR 0x22 #
     CHR '','' # enc_string ''LeaseID'' @ CHR '':'' # itoa (el_LeaseID e) @ ''}''"

text \<open>
  \<^verbatim>\<open>json.Unmarshal\<close> into an empty \<^verbatim>\<open>electorInfo\<close>, of which only \<^verbatim>\<open>ElectorID\<close> is read.  A text that is not
  JSON changes nothing; keys match without regard to case; a member of the wrong type is skipped, and a
  time that does not parse (\<open>time_ok\<close> is the parser's verdict) ends the decoding.  All errors are
  ignored by the callers.
\<close>

text \<open>The library masks bit 5 of both bytes when the key's name has no letter k or s.\<close>

definition fold_eq :: "string \<Rightarrow> string \<Rightarrow> bool" where
  "fold_eq name key \<longleftrightarrow>
     length key = length name \<and> list_all2 (\<lambda>a b. of_char b mod 32 = (of_char a mod 32 :: nat) \<and>
       of_char b div 64 = (of_char a div 64 :: nat)) name key"

fun read_members :: "(json \<Rightarrow> bool) \<Rightarrow> (string \<times> json) list \<Rightarrow> string \<Rightarrow> string" where
  "read_members time_ok [] acc = acc"
| "read_members time_ok ((k, v) # ms) acc =
     (if fold_eq ''ElectorID'' k then
        (case v of JStr s \<Rightarrow> read_members time_ok ms s | _ \<Rightarrow> read_members time_ok ms acc)
      else if fold_eq ''ElectTime'' k \<and> v \<noteq> JNull \<and> \<not> time_ok v then acc
      else read_members time_ok ms acc)"

definition read_elector :: "(json \<Rightarrow> bool) \<Rightarrow> string \<Rightarrow> string" where
  "read_elector time_ok s =
     (case parse_json s of Some (JObj ms) \<Rightarrow> read_members time_ok ms [] | _ \<Rightarrow> [])"

section \<open>The code\<close>

definition IsLeader ::
  "(json \<Rightarrow> bool) \<Rightarrow> 'w clientv3 \<Rightarrow> string \<Rightarrow> string \<Rightarrow> 'w \<Rightarrow> (bool \<times> error option) \<times> 'w"
where
  "IsLeader time_ok cli electKey electorID w =
     (case GetKV cli electKey w of
        (Inl err, w') \<Rightarrow> ((False, Some err), w')
      | (Inr leaderInfo, w') \<Rightarrow> ((read_elector time_ok leaderInfo = electorID, None), w'))"

definition GetElectorID ::
  "(json \<Rightarrow> bool) \<Rightarrow> 'w clientv3 \<Rightarrow> string \<Rightarrow> 'w \<Rightarrow> (string \<times> error option) \<times> 'w"
where
  "GetElectorID time_ok cli electKey w =
     (case GetKV cli electKey w of
        (Inl err, w') \<Rightarrow> (([], Some err), w')
      | (Inr leaderInfo, w') \<Rightarrow> ((read_elector time_ok leaderInfo, None), w'))"

text \<open>
  One pass of the loop of \<^verbatim>\<open>Elect\<close>, at the time \<open>now\<close>: the result is the error that ends the loop, or
  \<^const>\<open>None\<close> to go on.  The loop has no other exit.
\<close>

definition elect_round ::
  "'w clientv3 \<Rightarrow> string \<Rightarrow> string \<Rightarrow> int \<Rightarrow> lease \<Rightarrow> string \<Rightarrow> 'w \<Rightarrow> error option \<times> 'w"
where
  "elect_round cli electKey electorID ttl lease now w =
     (case cli_KeepAlive cli lease w of (_, w1) \<Rightarrow>
        (let elector = \<lparr>el_ElectorID = electorID, el_TTL = ttl, el_ElectTime = now, el_LeaseID = lease\<rparr> in
         case cli_Txn cli [CreateRevisionIs electKey 0]
                [OpPut electKey (elector_String elector) (Some lease)] w1 of
           ((_, err), w2) \<Rightarrow> (err, w2)))"

text \<open>\<^verbatim>\<open>Elect\<close> over the times of its passes; \<open>Inl w\<close> when it still runs after the last of them.\<close>

fun elect_loop ::
  "'w clientv3 \<Rightarrow> string \<Rightarrow> string \<Rightarrow> int \<Rightarrow> lease \<Rightarrow> string list \<Rightarrow> 'w \<Rightarrow> 'w + error \<times> 'w"
where
  "elect_loop cli electKey electorID ttl lease [] w = Inl w"
| "elect_loop cli electKey electorID ttl lease (now # nows) w =
     (case elect_round cli electKey electorID ttl lease now w of
        (Some err, w') \<Rightarrow> Inr (err, w')
      | (None, w') \<Rightarrow> elect_loop cli electKey electorID ttl lease nows w')"

definition Elect ::
  "'w clientv3 \<Rightarrow> string \<Rightarrow> string \<Rightarrow> int \<Rightarrow> string list \<Rightarrow> 'w \<Rightarrow> 'w + error \<times> 'w"
where
  "Elect cli electKey electorID ttl nows w =
     (case cli_Grant cli ttl w of ((lease, err), w1) \<Rightarrow>
        (case err of
           Some e \<Rightarrow> Inr (e, w1)
         | None \<Rightarrow> elect_loop cli electKey electorID ttl lease nows w1))"


section \<open>Reading the record back\<close>

lemma enc_body_safe: "\<forall>c \<in> set t. html_safe c \<Longrightarrow> enc_body t = t \<and> sanitize t = t"
  by (induction t) (auto simp: enc_body.simps enc_ascii_def html_safe_def sanitize_ascii)

lemma sanitize_ascii_string: "\<forall>c \<in> set s. code c < 128 \<Longrightarrow> sanitize s = s"
  by (simp add: sanitize_valid valid_utf8_ascii)

lemma parse_elector:
  assumes "\<forall>c \<in> set (el_ElectTime e). html_safe c"
  shows "parse_json (elector_String e) =
    Some (JObj [(''ElectorID'', JStr (sanitize (el_ElectorID e))), (''TTL'', JNum (itoa (el_TTL e))),
      (''ElectTime'', JStr (el_ElectTime e)), (''LeaseID'', JNum (itoa (el_LeaseID e)))])"
proof -
  have time: "CHR 0x22 # el_ElectTime e @ CHR 0x22 # s = enc_string (el_ElectTime e) @ s"
    and sane: "sanitize (el_ElectTime e) = el_ElectTime e" for s
    using enc_body_safe [OF assms] by (simp_all add: enc_string_def)
  have ends: "ends_number CHR '',''" "ends_number CHR ''}''" by (simp_all add: ends_number_def is_digit_def)
  have nosp: "\<not> is_space CHR '',''" "\<not> is_space CHR ''}''" by (simp_all add: is_space_def)
  have names: "sanitize ''ElectorID'' = ''ElectorID''" "sanitize ''TTL'' = ''TTL''"
    "sanitize ''ElectTime'' = ''ElectTime''" "sanitize ''LeaseID'' = ''LeaseID''"
    by (simp_all add: sanitize_ascii_string)
  have "5 \<le> length (elector_String e)" by (simp add: elector_String_def enc_string_def)
  then obtain m where "length (elector_String e) = 5 + m" by (auto dest: le_Suc_ex)
  then have m: "Suc (length (elector_String e)) = Suc (Suc (Suc (Suc (Suc (Suc m)))))" by simp
  have str: "elector_String e =
     CHR ''{'' # enc_string ''ElectorID'' @ CHR '':'' # enc_string (el_ElectorID e) @
     CHR '','' # enc_string ''TTL'' @ CHR '':'' # itoa (el_TTL e) @
     CHR '','' # enc_string ''ElectTime'' @ CHR '':'' # enc_string (el_ElectTime e) @
     CHR '','' # enc_string ''LeaseID'' @ CHR '':'' # itoa (el_LeaseID e) @ CHR ''}'' # []"
    unfolding elector_String_def time [symmetric] by simp
  note member = parse_member [OF parse_value_string] parse_member [OF parse_value_itoa]
  show ?thesis
    unfolding parse_json_def m unfolding str
    by (simp add: skip_ws_nonspace is_space_def ends nosp names sane member skip_ws_def [of "[]"]
        del: parse_members.simps)
qed

lemma fold_eq_names:
  "fold_eq ''ElectorID'' ''ElectorID''" "\<not> fold_eq ''ElectorID'' ''TTL''"
  "\<not> fold_eq ''ElectorID'' ''ElectTime''" "\<not> fold_eq ''ElectorID'' ''LeaseID''"
  by code_simp+

lemma read_elector_String:
  assumes "\<forall>c \<in> set (el_ElectTime e). html_safe c" and "time_ok (JStr (el_ElectTime e))"
  shows "read_elector time_ok (elector_String e) = sanitize (el_ElectorID e)"
  using assms by (simp add: read_elector_def parse_elector fold_eq_names)

section \<open>One leader at a time\<close>

text \<open>
  Candidates (their id, their time to live and the lease they were given) run the passes of their
  loops in any order, and leases end.  The end of a lease removes its keys, as a revocation does.
\<close>

record candidate =
  cd_id :: string
  cd_ttl :: int
  cd_lease :: lease

datatype election_ev = Round candidate string | Expire lease

fun election_step :: "'w clientv3 \<Rightarrow> string \<Rightarrow> election_ev \<Rightarrow> 'w \<Rightarrow> 'w" where
  "election_step cli electKey (Round c now) w =
     snd (elect_round cli electKey (cd_id c) (cd_ttl c) (cd_lease c) now w)"
| "election_step cli electKey (Expire l) w = snd (cli_Revoke cli l w)"

text \<open>The abstract election: the first candidate that runs a pass without a leader leads.\<close>

fun leader_step :: "election_ev \<Rightarrow> candidate option \<Rightarrow> candidate option" where
  "leader_step (Round c now) st = (case st of None \<Rightarrow> Some c | Some d \<Rightarrow> Some d)"
| "leader_step (Expire l) st =
     (case st of None \<Rightarrow> None | Some d \<Rightarrow> if cd_lease d = l then None else Some d)"

definition candidate_info :: "candidate \<Rightarrow> string \<Rightarrow> electorInfo" where
  "candidate_info c now =
     \<lparr>el_ElectorID = cd_id c, el_TTL = cd_ttl c, el_ElectTime = now, el_LeaseID = cd_lease c\<rparr>"

definition good_time :: "(json \<Rightarrow> bool) \<Rightarrow> string \<Rightarrow> bool" where
  "good_time time_ok now \<longleftrightarrow> (\<forall>x \<in> set now. html_safe x) \<and> time_ok (JStr now)"

text \<open>Ids are UTF-8, and times print as texts without escapes that the time parser accepts.\<close>

primrec good_ev :: "(json \<Rightarrow> bool) \<Rightarrow> election_ev \<Rightarrow> bool" where
  "good_ev time_ok (Round c now) = (valid_utf8 (cd_id c) \<and> good_time time_ok now)"
| "good_ev time_ok (Expire l) = True"

definition leads :: "(json \<Rightarrow> bool) \<Rightarrow> (string \<times> lease option) option \<Rightarrow> candidate option \<Rightarrow> bool" where
  "leads time_ok entry st =
     (case st of
        None \<Rightarrow> entry = None
      | Some c \<Rightarrow> valid_utf8 (cd_id c) \<and>
          (\<exists>now. good_time time_ok now \<and>
             entry = Some (elector_String (candidate_info c now), Some (cd_lease c))))"

lemma elect_round_reliable:
  assumes "etcd_reliable cli lview used"
  shows "\<exists>w'. elect_round cli key cid ttl l now w = (None, w') \<and>
     lview w' = (if lview w key = None
                 then (lview w)(key \<mapsto> (elector_String
                        \<lparr>el_ElectorID = cid, el_TTL = ttl, el_ElectTime = now, el_LeaseID = l\<rparr>, Some l))
                 else lview w)"
proof -
  let ?ops = "[OpPut key (elector_String
      \<lparr>el_ElectorID = cid, el_TTL = ttl, el_ElectTime = now, el_LeaseID = l\<rparr>) (Some l)]"
  obtain w1 where k: "snd (cli_KeepAlive cli l w) = w1" "lview w1 = lview w"
    using etcd_reliableD(5) [OF assms] by blast
  obtain w2 where "cli_Txn cli [CreateRevisionIs key 0] ?ops w1 = ((lview w1 key = None, None), w2)"
    "lview w2 = (if lview w1 key = None then fold apply_op ?ops (lview w1) else lview w1)"
    using etcd_reliableD(3) [OF assms] by blast
  with k show ?thesis by (auto simp: elect_round_def split: prod.split)
qed

lemma leads_step:
  assumes "etcd_reliable cli lview used" and "good_ev time_ok ev" and "leads time_ok (lview w key) st"
  shows "leads time_ok (lview (election_step cli key ev w) key) (leader_step ev st)"
proof (cases ev)
  case (Round c now)
  then show ?thesis
    using elect_round_reliable [OF assms(1), of key "cd_id c" "cd_ttl c" "cd_lease c" now w] assms(2,3)
    by (auto simp: leads_def candidate_info_def split: option.splits)
next
  case (Expire l)
  obtain w' where "cli_Revoke cli l w = (None, w')" "lview w' = drop_lease l (lview w)"
    using etcd_reliableD(2) [OF assms(1)] by blast
  with Expire assms(3) show ?thesis by (auto simp: leads_def drop_lease_def split: option.splits)
qed

lemma leads_run:
  assumes "etcd_reliable cli lview used" and "\<forall>ev \<in> set evs. good_ev time_ok ev"
    and "leads time_ok (lview w key) st"
  shows "leads time_ok (lview (fold (election_step cli key) evs w) key) (fold leader_step evs st)"
  using assms(2,3)
proof (induction evs arbitrary: w st)
  case (Cons ev evs)
  then show ?case using leads_step [OF assms(1), of time_ok ev w key st] by simp
qed simp

lemma leads_read:
  assumes "kv_reliable cli (\<lambda>w k. map_option fst (lview w k))" and "leads time_ok (lview w key) st"
  shows "fst (GetElectorID time_ok cli key w) =
       (case st of None \<Rightarrow> ([], Some ErrEmptyValue) | Some c \<Rightarrow> (cd_id c, None))"
    and "fst (IsLeader time_ok cli key i w) =
       (case st of None \<Rightarrow> (False, Some ErrEmptyValue) | Some c \<Rightarrow> (cd_id c = i, None))"
proof -
  obtain w' where g: "GetKV cli key w = (case map_option fst (lview w key) of
      None \<Rightarrow> (Inl ErrEmptyValue, w') | Some v \<Rightarrow> (Inr v, w'))"
    using GetKV_reliable [OF assms(1), of key w] by blast
  have read: "read_elector time_ok (elector_String (candidate_info c now)) = cd_id c"
    if "valid_utf8 (cd_id c)" "good_time time_ok now" for c now
    using that by (simp add: read_elector_String candidate_info_def good_time_def sanitize_valid)
  from g read assms(2)
  show "fst (GetElectorID time_ok cli key w) =
       (case st of None \<Rightarrow> ([], Some ErrEmptyValue) | Some c \<Rightarrow> (cd_id c, None))"
    and "fst (IsLeader time_ok cli key i w) =
       (case st of None \<Rightarrow> (False, Some ErrEmptyValue) | Some c \<Rightarrow> (cd_id c = i, None))"
    by (auto simp: leads_def GetElectorID_def IsLeader_def split: option.splits)
qed


lemma mem_kv_reliable: "kv_reliable mem_cli (\<lambda>w k. map_option fst (mem_lview w k))"
proof -
  have "(\<lambda>w k. map_option fst (mem_lview w k)) = mem_view" by (intro ext) (simp add: mem_lview_def mem_view_def)
  with mem_reliable show ?thesis by simp
qed

definition dash_a :: candidate where
  "dash_a = \<lparr>cd_id = ''10.0.0.1:8082'', cd_ttl = 3, cd_lease = 1\<rparr>"

definition dash_b :: candidate where
  "dash_b = \<lparr>cd_id = ''10.0.0.2:8082'', cd_ttl = 3, cd_lease = 2\<rparr>"

definition election_run :: "election_ev list" where
  "election_run = [Round dash_a ''2019-01-01T08:00:00Z'', Round dash_b ''2019-01-01T08:00:01Z'', Expire 1,
     Round dash_b ''2019-01-01T08:00:04Z'', Round dash_a ''2019-01-01T08:00:05Z'']"


text \<open>\<^verbatim>\<open>Elect\<close> runs for ever and the key is taken after one pass. If etcd answers, then after any
  number of passes the loop still runs; the first pass stores the candidate's record with its lease
  if the key was free, and no pass changes the record of another leader.\<close>

theorem Elect_never_returns:
  assumes "etcd_reliable cli lview used"
  shows "\<exists>w' l. Elect cli key cid ttl nows w = Inl w' \<and> l \<notin> used w \<and>
     lview w' = (case nows of
        [] \<Rightarrow> lview w
      | now # _ \<Rightarrow> (if lview w key = None
          then (lview w)(key \<mapsto> (elector_String
                 \<lparr>el_ElectorID = cid, el_TTL = ttl, el_ElectTime = now, el_LeaseID = l\<rparr>, Some l))
          else lview w))"
proof -
  have taken: "\<exists>w'. elect_loop cli key cid ttl l ns v = Inl w' \<and> lview w' = lview v"
    if "lview v key \<noteq> None" for l ns v
    using that
  proof (induction ns arbitrary: v)
    case (Cons now ns)
    then obtain v1 where "elect_round cli key cid ttl l now v = (None, v1)" "lview v1 = lview v"
      using elect_round_reliable [OF assms, of key cid ttl l now v] by auto
    with Cons.IH [of v1] Cons.prems show ?case by simp
  qed simp
  obtain l w1 where g: "cli_Grant cli ttl w = ((l, None), w1)" "l \<notin> used w" "lview w1 = lview w"
    using etcd_reliableD(1) [OF assms] by blast
  show ?thesis
  proof (cases nows)
    case Nil
    with g show ?thesis by (auto simp: Elect_def)
  next
    case (Cons now ns)
    obtain w2 where w2: "elect_round cli key cid ttl l now w1 = (None, w2)"
      "lview w2 = (if lview w1 key = None
                 then (lview w1)(key \<mapsto> (elector_String
                        \<lparr>el_ElectorID = cid, el_TTL = ttl, el_ElectTime = now, el_LeaseID = l\<rparr>, Some l))
                 else lview w1)"
      using elect_round_reliable [OF assms, of key cid ttl l now w1] by blast
    then have "lview w2 key \<noteq> None" by (auto split: if_splits)
    from taken [OF this, of l ns] obtain w' where "elect_loop cli key cid ttl l ns w2 = Inl w'"
      "lview w' = lview w2" by blast
    with g w2 Cons show ?thesis by (auto simp: Elect_def)
  qed
qed

theorem Elect_never_returns_witness:
  "\<exists>w'. Elect mem_cli ''k'' ''a'' 3 [''t'', ''u''] mem_empty = Inl w' \<and> mem_lview w' ''k'' \<noteq> None"
proof -
  obtain w' l where "Elect mem_cli ''k'' ''a'' 3 [''t'', ''u''] mem_empty = Inl w'"
    "mem_lview w' = (if mem_lview mem_empty ''k'' = None
       then (mem_lview mem_empty)(''k'' \<mapsto> (elector_String
          \<lparr>el_ElectorID = ''a'', el_TTL = 3, el_ElectTime = ''t'', el_LeaseID = l\<rparr>, Some l))
       else mem_lview mem_empty)"
    using Elect_never_returns [OF mem_etcd_reliable, of "''k''" "''a''" 3 "[''t'', ''u'']" mem_empty]
    unfolding list.case by blast
  then show ?thesis by (auto simp: mem_lview_def mem_empty_def)
qed


text \<open>The address that \<^verbatim>\<open>cmd/mysh-dash\<close> passes on every host, \<^verbatim>\<open>cons.DashAddr\<close>.\<close>

definition DashAddr :: string where
  "DashAddr = '':8082''"

lemma leader_candidate:
  "fold leader_step evs st = Some c \<Longrightarrow> st = Some c \<or> (\<exists>now. Round c now \<in> set evs)"
proof (induction evs arbitrary: st)
  case (Cons ev evs)
  from Cons.prems have "fold leader_step evs (leader_step ev st) = Some c" by simp
  from Cons.IH [OF this] show ?case by (cases ev) (auto split: option.splits if_splits)
qed simp



end
