(* ===== verification/Cli_Managers.thy ===== *)
theory Cli_Managers
  imports Proto Etcd_Lock Election
begin

text \<open>
  The tables of gRPC clients of \<^verbatim>\<open>server/server.go\<close> lines 653 to 839: \<^verbatim>\<open>EndpointCliManager\<close> (search
  servers), \<^verbatim>\<open>PCCliManager\<close> (proxy controllers), \<^verbatim>\<open>SCCliManager\<close> (server controllers) and
  \<^verbatim>\<open>DSCliManager\<close> (the dash leader).  Each dials an endpoint when it is first used and keeps the client
  for ever.  gRPC, with the processes at the other end, is a parameter.
\<close>

section \<open>The parameter: gRPC\<close>

text \<open>
  \<^verbatim>\<open>grpc.Dial\<close> does not wait for a connection, so its result depends on its arguments only.  A remote
  call changes the world in which the other processes live, and may never return; a client on a nil
  connection panics when it is used.
\<close>

datatype transport = Insecure | TLS "string option"

datatype grpc_client = ClientOf string | NilConn

type_synonym ('q, 'r, 'w) rpc_method =
  "string \<Rightarrow> 'q \<Rightarrow> 'w \<Rightarrow> (('r option \<times> error option) \<times> 'w) option"

record 'w grpc =
  rpc_Dial :: "string \<Rightarrow> transport \<Rightarrow> error option"
  rpc_ClientTLS :: "string \<Rightarrow> string \<Rightarrow> error + string"
  rpc_Login :: "(LoginRequest, LoginResponse, 'w) rpc_method"
  rpc_Logout :: "(LogoutRequest, LogoutResponse, 'w) rpc_method"
  rpc_Search :: "(SearchRequest, SearchResponse, 'w) rpc_method"
  rpc_Upload :: "(UploadRequest, UploadResponse, 'w) rpc_method"
  rpc_CleanUidCache :: "(CleanRequest, CleanResponse, 'w) rpc_method"
  rpc_UidLogout :: "(UidLogoutRequest, UidLogoutResponse, 'w) rpc_method"
  rpc_Check :: "(HealthCheckRequest, HealthCheckResponse, 'w) rpc_method"
  rpc_UidEndpoint :: "(CommonQueryRequest, CommonQueryResponse, 'w) rpc_method"

definition nil_pointer :: string where
  "nil_pointer = ''runtime error: invalid memory address or nil pointer dereference''"

text \<open>A method of the client that a table holds; a missing entry reads as the nil interface.\<close>

fun cli_call ::
  "('q, 'r, 'w) rpc_method \<Rightarrow> grpc_client option \<Rightarrow> 'q \<Rightarrow> 'w \<Rightarrow>
     (('r option \<times> error option) \<times> 'w) outcome option"
where
  "cli_call f (Some (ClientOf target)) req w = map_option Ok (f target req w)"
| "cli_call f (Some NilConn) req w = Some (Panic nil_pointer)"
| "cli_call f None req w = Some (Panic nil_pointer)"

type_synonym cliMap = "string \<rightharpoonup> grpc_client"

text \<open>Every client of a table is a connection to its endpoint.\<close>

definition dialled :: "cliMap \<Rightarrow> bool" where
  "dialled m \<longleftrightarrow> (\<forall>e c. m e = Some c \<longrightarrow> c = ClientOf e)"

section \<open>Search servers\<close>

record EndpointCliManager =
  ecm_cliMap :: cliMap

definition newSearchServerCli :: "'w grpc \<Rightarrow> string \<Rightarrow> grpc_client outcome" where
  "newSearchServerCli R endpoint =
     (case rpc_Dial R endpoint Insecure of
        Some err \<Rightarrow> Panic (error_msg err)
      | None \<Rightarrow> Ok (ClientOf endpoint))"

definition ecm_ensureCliExists ::
  "'w grpc \<Rightarrow> string \<Rightarrow> EndpointCliManager \<Rightarrow> EndpointCliManager outcome"
where
  "ecm_ensureCliExists R endpoint m =
     (if ecm_cliMap m endpoint = None then
        obind (newSearchServerCli R endpoint) (\<lambda>c. Ok (m\<lparr>ecm_cliMap := (ecm_cliMap m)(endpoint \<mapsto> c)\<rparr>))
      else Ok m)"

definition ecm_Login ::
  "'w grpc \<Rightarrow> string \<Rightarrow> LoginRequest \<Rightarrow> EndpointCliManager \<times> 'w \<Rightarrow>
     ((LoginResponse option \<times> error option) \<times> EndpointCliManager \<times> 'w) outcome option"
where
  "ecm_Login R endpoint req mw =
     lbind (Some (ecm_ensureCliExists R endpoint (fst mw))) (\<lambda>m.
     lbind (cli_call (rpc_Login R) (ecm_cliMap m endpoint) req (snd mw)) (\<lambda>(r, w). Some (Ok (r, m, w))))"

definition ecm_Logout ::
  "'w grpc \<Rightarrow> string \<Rightarrow> LogoutRequest \<Rightarrow> EndpointCliManager \<times> 'w \<Rightarrow>
     ((LogoutResponse option \<times> error option) \<times> EndpointCliManager \<times> 'w) outcome option"
where
  "ecm_Logout R endpoint req mw =
     lbind (Some (ecm_ensureCliExists R endpoint (fst mw))) (\<lambda>m.
     lbind (cli_call (rpc_Logout R) (ecm_cliMap m endpoint) req (snd mw)) (\<lambda>(r, w). Some (Ok (r, m, w))))"

definition ecm_Search ::
  "'w grpc \<Rightarrow> string \<Rightarrow> SearchRequest \<Rightarrow> EndpointCliManager \<times> 'w \<Rightarrow>
     ((SearchResponse option \<times> error option) \<times> EndpointCliManager \<times> 'w) outcome option"
where
  "ecm_Search R endpoint req mw =
     lbind (Some (ecm_ensureCliExists R endpoint (fst mw))) (\<lambda>m.
     lbind (cli_call (rpc_Search R) (ecm_cliMap m endpoint) req (snd mw)) (\<lambda>(r, w). Some (Ok (r, m, w))))"

definition ecm_Upload ::
  "'w grpc \<Rightarrow> string \<Rightarrow> UploadRequest \<Rightarrow> EndpointCliManager \<times> 'w \<Rightarrow>
     ((UploadResponse option \<times> error option) \<times> EndpointCliManager \<times> 'w) outcome option"
where
  "ecm_Upload R endpoint req mw =
     lbind (Some (ecm_ensureCliExists R endpoint (fst mw))) (\<lambda>m.
     lbind (cli_call (rpc_Upload R) (ecm_cliMap m endpoint) req (snd mw)) (\<lambda>(r, w). Some (Ok (r, m, w))))"

section \<open>Proxy controllers\<close>

text \<open>
  The certificate \<open>crt\<close> is \<^verbatim>\<open>cons.UserCrt\<close>.  Errors are only logged: bad credentials are nil
  credentials, and a failed dial leaves a client on a nil connection in the table.
\<close>

record PCCliManager =
  pcm_cliMap :: cliMap

definition newPCServerCli :: "'w grpc \<Rightarrow> string \<Rightarrow> string \<Rightarrow> grpc_client" where
  "newPCServerCli R crt endpoint =
     (let creds = (case rpc_ClientTLS R crt ''www.myshell.top'' of Inl err \<Rightarrow> None | Inr c \<Rightarrow> Some c) in
      case rpc_Dial R endpoint (TLS creds) of Some err \<Rightarrow> NilConn | None \<Rightarrow> ClientOf endpoint)"

definition pcm_ensureCliExists :: "'w grpc \<Rightarrow> string \<Rightarrow> string \<Rightarrow> PCCliManager \<Rightarrow> PCCliManager outcome" where
  "pcm_ensureCliExists R crt endpoint m =
     (if pcm_cliMap m endpoint = None
      then Ok (m\<lparr>pcm_cliMap := (pcm_cliMap m)(endpoint \<mapsto> newPCServerCli R crt endpoint)\<rparr>)
      else Ok m)"

definition pcm_CleanUidCache ::
  "'w grpc \<Rightarrow> string \<Rightarrow> string \<Rightarrow> CleanRequest \<Rightarrow> PCCliManager \<times> 'w \<Rightarrow>
     ((CleanResponse option \<times> error option) \<times> PCCliManager \<times> 'w) outcome option"
where
  "pcm_CleanUidCache R crt endpoint req mw =
     lbind (Some (pcm_ensureCliExists R crt endpoint (fst mw))) (\<lambda>m.
     lbind (cli_call (rpc_CleanUidCache R) (pcm_cliMap m endpoint) req (snd mw))
       (\<lambda>(r, w). Some (Ok (r, m, w))))"

section \<open>Server controllers\<close>

record SCCliManager =
  scm_cliMap :: cliMap

definition newSCServerCli :: "'w grpc \<Rightarrow> string \<Rightarrow> grpc_client outcome" where
  "newSCServerCli R endpoint =
     (case rpc_Dial R endpoint Insecure of
        Some err \<Rightarrow> Panic (error_msg err)
      | None \<Rightarrow> Ok (ClientOf endpoint))"

definition scm_ensureCliExists :: "'w grpc \<Rightarrow> string \<Rightarrow> SCCliManager \<Rightarrow> SCCliManager outcome" where
  "scm_ensureCliExists R endpoint m =
     (if scm_cliMap m endpoint = None then
        obind (newSCServerCli R endpoint) (\<lambda>c. Ok (m\<lparr>scm_cliMap := (scm_cliMap m)(endpoint \<mapsto> c)\<rparr>))
      else Ok m)"

definition scm_UidLogout ::
  "'w grpc \<Rightarrow> string \<Rightarrow> UidLogoutRequest \<Rightarrow> SCCliManager \<times> 'w \<Rightarrow>
     ((UidLogoutResponse option \<times> error option) \<times> SCCliManager \<times> 'w) outcome option"
where
  "scm_UidLogout R endpoint req mw =
     lbind (Some (scm_ensureCliExists R endpoint (fst mw))) (\<lambda>m.
     lbind (cli_call (rpc_UidLogout R) (scm_cliMap m endpoint) req (snd mw)) (\<lambda>(r, w). Some (Ok (r, m, w))))"

definition scm_Check ::
  "'w grpc \<Rightarrow> string \<Rightarrow> HealthCheckRequest \<Rightarrow> SCCliManager \<times> 'w \<Rightarrow>
     ((HealthCheckResponse option \<times> error option) \<times> SCCliManager \<times> 'w) outcome option"
where
  "scm_Check R endpoint req mw =
     lbind (Some (scm_ensureCliExists R endpoint (fst mw))) (\<lambda>m.
     lbind (cli_call (rpc_Check R) (scm_cliMap m endpoint) req (snd mw)) (\<lambda>(r, w). Some (Ok (r, m, w))))"

section \<open>The dash leader\<close>

record DSCliManager =
  dsm_cliMap :: cliMap

text \<open>\<^verbatim>\<open>strings.Split(endpoint, ":")[1]\<close> is out of range without a colon.\<close>

definition newDSServerCli :: "'w grpc \<Rightarrow> string \<Rightarrow> grpc_client outcome" where
  "newDSServerCli R endpoint =
     (case split_on (CHR '':'') endpoint of
        _ # dashPort # _ \<Rightarrow>
          (case rpc_Dial R (''www.myshell.top:'' @ dashPort) Insecure of
             Some err \<Rightarrow> Panic (error_msg err)
           | None \<Rightarrow> Ok (ClientOf (''www.myshell.top:'' @ dashPort)))
      | _ \<Rightarrow> Panic ''runtime error: index out of range'')"

definition dsm_ensureCliExists :: "'w grpc \<Rightarrow> string \<Rightarrow> DSCliManager \<Rightarrow> DSCliManager outcome" where
  "dsm_ensureCliExists R endpoint m =
     (if dsm_cliMap m endpoint = None then
        obind (newDSServerCli R endpoint) (\<lambda>c. Ok (m\<lparr>dsm_cliMap := (dsm_cliMap m)(endpoint \<mapsto> c)\<rparr>))
      else Ok m)"

definition DashLeaderKey :: string where
  "DashLeaderKey = ''/mysh/dash/leader''"

definition dsm_UidEndpoint ::
  "(json \<Rightarrow> bool) \<Rightarrow> 'w clientv3 \<Rightarrow> 'w grpc \<Rightarrow> CommonQueryRequest \<Rightarrow> DSCliManager \<times> 'w \<Rightarrow>
     ((CommonQueryResponse option \<times> error option) \<times> DSCliManager \<times> 'w) outcome option"
where
  "dsm_UidEndpoint time_ok cli R req mw =
     (case GetElectorID time_ok cli DashLeaderKey (snd mw) of
        ((_, Some err), w) \<Rightarrow> Some (Ok ((None, Some err), fst mw, w))
      | ((endpoint, None), w) \<Rightarrow>
          lbind (Some (dsm_ensureCliExists R endpoint (fst mw))) (\<lambda>m.
          lbind (cli_call (rpc_UidEndpoint R) (dsm_cliMap m endpoint) req w) (\<lambda>(r, w'). Some (Ok (r, m, w')))))"

section \<open>The contract of a table of clients\<close>

text \<open>
  The four tables share one contract: an endpoint is dialled when it is first used, the client that
  this gave is kept for ever, and other endpoints are not touched.
\<close>

locale client_table =
  fixes tab :: "'m \<Rightarrow> cliMap"
    and dial :: "string \<Rightarrow> grpc_client outcome"
    and ensure :: "string \<Rightarrow> 'm \<Rightarrow> 'm outcome"
  assumes ensure_known: "tab m e \<noteq> None \<Longrightarrow> ensure e m = Ok m"
    and ensure_new: "tab m e = None \<Longrightarrow> dial e = Ok c \<Longrightarrow> \<exists>m'. ensure e m = Ok m' \<and> tab m' = (tab m)(e \<mapsto> c)"
    and ensure_fail: "tab m e = None \<Longrightarrow> (\<forall>c. dial e \<noteq> Ok c) \<Longrightarrow> (\<forall>m'. ensure e m \<noteq> Ok m')"
begin

lemma ensure_Ok:
  assumes "ensure e m = Ok m'"
  shows "tab m' = (case tab m e of Some _ \<Rightarrow> tab m | None \<Rightarrow> (case dial e of Ok c \<Rightarrow> (tab m)(e \<mapsto> c) | _ \<Rightarrow> tab m))"
    and "tab m' e \<noteq> None"
proof -
  have "tab m' = (case tab m e of Some _ \<Rightarrow> tab m | None \<Rightarrow> (case dial e of Ok c \<Rightarrow> (tab m)(e \<mapsto> c) | _ \<Rightarrow> tab m)) \<and>
      tab m' e \<noteq> None"
  proof (cases "tab m e")
    case (Some c)
    with ensure_known [of m e] assms show ?thesis by simp
  next
    case None
    show ?thesis
    proof (cases "\<exists>c. dial e = Ok c")
      case True
      with ensure_new [OF None] assms None show ?thesis by auto
    next
      case False
      with ensure_fail [OF None] assms show ?thesis by blast
    qed
  qed
  then show "tab m' = (case tab m e of Some _ \<Rightarrow> tab m | None \<Rightarrow> (case dial e of Ok c \<Rightarrow> (tab m)(e \<mapsto> c) | _ \<Rightarrow> tab m))"
    and "tab m' e \<noteq> None" by blast+
qed

text \<open>A table whose entries are what dialling their endpoints gives stays so.\<close>

lemma ensure_honest:
  assumes "\<forall>e c. tab m e = Some c \<longrightarrow> dial e = Ok c" and "ensure e m = Ok m'"
  shows "\<forall>e c. tab m' e = Some c \<longrightarrow> dial e = Ok c"
  using ensure_Ok(1) [OF assms(2)] assms(1) by (auto split: option.splits outcome.splits if_splits)

lemma ensure_dials:
  assumes "\<forall>e c. tab m e = Some c \<longrightarrow> dial e = Ok c" and "dial e = Ok c"
  shows "\<exists>m'. ensure e m = Ok m' \<and> tab m' e = Some c \<and> (\<forall>e c. tab m' e = Some c \<longrightarrow> dial e = Ok c)"
proof (cases "tab m e")
  case None
  from ensure_new [OF None assms(2)] obtain m' where m': "ensure e m = Ok m'" "tab m' = (tab m)(e \<mapsto> c)" by blast
  with ensure_honest [OF assms(1) m'(1)] show ?thesis by auto
next
  case (Some d)
  with assms have "d = c" by auto
  with Some ensure_known [of m e] assms(1) show ?thesis by auto
qed

end

interpretation ecm: client_table ecm_cliMap "newSearchServerCli R" "ecm_ensureCliExists R" for R
  by unfold_locales (auto simp: ecm_ensureCliExists_def obind_Ok_iff)

interpretation pcm: client_table pcm_cliMap "\<lambda>e. Ok (newPCServerCli R crt e)" "pcm_ensureCliExists R crt" for R crt
  by unfold_locales (auto simp: pcm_ensureCliExists_def)

interpretation scm: client_table scm_cliMap "newSCServerCli R" "scm_ensureCliExists R" for R
  by unfold_locales (auto simp: scm_ensureCliExists_def obind_Ok_iff)

interpretation dsm: client_table dsm_cliMap "newDSServerCli R" "dsm_ensureCliExists R" for R
  by unfold_locales (auto simp: dsm_ensureCliExists_def obind_Ok_iff)

end
