(* ===== verification/Etcd_Store.thy ===== *)
theory Etcd_Store
  imports Etcd_Lock
begin

text \<open>
  What the single and multi key operations of \<^verbatim>\<open>lib/etcd/etcd.go\<close> do to the keys of an etcd that
  answers: the reads return what is stored and leave it alone, and the multi key update applies all
  of its operations under its lock and releases the lock.
\<close>

section \<open>The hypothesis\<close>

definition etcd_answers :: "'w clientv3 \<Rightarrow> ('w \<Rightarrow> leased) \<Rightarrow> ('w \<Rightarrow> lease set) \<Rightarrow> bool" where
  "etcd_answers cli lview used \<longleftrightarrow>
     etcd_reliable cli lview used \<and>
     (\<forall>k w. \<exists>w'. cli_Get cli k False w = ((case lview w k of None \<Rightarrow> [] | Some (v, l) \<Rightarrow> [(k, v)], None), w') \<and>
        lview w' = lview w \<and> used w' = used w) \<and>
     (\<forall>p w. \<exists>kvs w'. cli_Get cli p True w = ((kvs, None), w') \<and>
        set (map fst kvs) = {k. prefix p k \<and> lview w k \<noteq> None} \<and> lview w' = lview w \<and> used w' = used w)"

lemma etcd_answers_reliable: "etcd_answers cli lview used \<Longrightarrow> etcd_reliable cli lview used"
  by (simp add: etcd_answers_def)

lemma mem_etcd_answers: "etcd_answers mem_cli mem_lview mem_used"
proof -
  have "mem_get k False w = (case mem_lview w k of None \<Rightarrow> [] | Some (v, l) \<Rightarrow> [(k, v)])" for k w
    by (auto simp: mem_get_def mem_view_def mem_lview_def split: option.split)
  moreover have "set (map fst (mem_get p True w)) = {k. prefix p k \<and> mem_lview w k \<noteq> None}" for p w
    by (force simp: mem_get_def mem_lview_def map_of_eq_None_iff)
  ultimately show ?thesis
    unfolding etcd_answers_def using mem_etcd_reliable by (simp add: mem_cli_def)
qed

text \<open>
  \<open>tidy\<close>: keys hang only on leases that were given out, as the service guarantees, so that revoking a
  new lease removes only what was stored with it.
\<close>

definition tidy :: "('w \<Rightarrow> leased) \<Rightarrow> ('w \<Rightarrow> lease set) \<Rightarrow> 'w \<Rightarrow> bool" where
  "tidy lview used w \<longleftrightarrow> (\<forall>k v l. lview w k = Some (v, Some l) \<longrightarrow> l \<in> used w)"

lemma tidy_cong: "lview w' = lview w \<Longrightarrow> used w' = used w \<Longrightarrow> tidy lview used w' = tidy lview used w"
  by (simp add: tidy_def)

lemma tidy_empty: "tidy mem_lview mem_used mem_empty"
  by (simp add: tidy_def mem_lview_def mem_empty_def)

section \<open>Reads\<close>

lemma GetKV_answers:
  assumes "etcd_answers cli lview used"
  shows "\<exists>w'. GetKV cli k w = (case lview w k of None \<Rightarrow> (Inl ErrEmptyValue, w') | Some (v, l) \<Rightarrow> (Inr v, w')) \<and>
    lview w' = lview w \<and> used w' = used w"
proof -
  obtain w' where "cli_Get cli k False w = ((case lview w k of None \<Rightarrow> [] | Some (v, l) \<Rightarrow> [(k, v)], None), w')"
    "lview w' = lview w" "used w' = used w"
    using assms unfolding etcd_answers_def by blast
  then show ?thesis by (auto simp: GetKV_def split: option.split)
qed

lemma ListKeyByPrefix_answers:
  assumes "etcd_answers cli lview used"
  shows "\<exists>ks w'. ListKeyByPrefix cli p w = (Inr ks, w') \<and> set ks = {k. prefix p k \<and> lview w k \<noteq> None} \<and>
    lview w' = lview w \<and> used w' = used w"
proof -
  obtain kvs w' where "cli_Get cli p True w = ((kvs, None), w')"
    "set (map fst kvs) = {k. prefix p k \<and> lview w k \<noteq> None}" "lview w' = lview w" "used w' = used w"
    using assms unfolding etcd_answers_def by blast
  then show ?thesis by (auto simp: ListKeyByPrefix_def)
qed

section \<open>The multi key update\<close>

text \<open>What the operations of an update do to the keys.\<close>

definition apply_kv :: "KV \<Rightarrow> leased \<Rightarrow> leased" where
  "apply_kv kv m =
     (if kv_Op kv = OP_PUT then m(kv_Key kv \<mapsto> (kv_Value kv, None))
      else if kv_Op kv = OP_DEL then m(kv_Key kv := None) else m)"

lemma fold_kv_ops: "fold apply_op (kv_ops kvs) m = fold apply_kv kvs m"
  by (induction kvs arbitrary: m) (simp_all add: apply_kv_def)

lemma fold_apply_kv_other: "k \<notin> kv_Key ` set kvs \<Longrightarrow> fold apply_kv kvs m k = m k"
  by (induction kvs arbitrary: m) (auto simp: apply_kv_def)

lemma fold_apply_kv_local: "m k = m' k \<Longrightarrow> fold apply_kv kvs m k = fold apply_kv kvs m' k"
proof (induction kvs arbitrary: m m')
  case (Cons kv kvs)
  have "apply_kv kv m k = apply_kv kv m' k" using Cons.prems by (simp add: apply_kv_def)
  then show ?case using Cons.IH [of "apply_kv kv m" "apply_kv kv m'"] by simp
qed simp

lemma fold_apply_kv_leases:
  "fold apply_kv kvs m k = Some (v, Some l) \<Longrightarrow> m k = Some (v, Some l)"
proof (induction kvs arbitrary: m)
  case (Cons kv kvs)
  then have "apply_kv kv m k = Some (v, Some l)" by simp
  then show ?case by (simp add: apply_kv_def split: if_splits)
qed simp

lemma AtomicMultiKVOp_answers:
  assumes "etcd_reliable cli lview used" and tidy: "tidy lview used (es_world st)"
    and free: "lview (es_world st) lockId = None" and "lockId \<notin> kv_Key ` set kvs"
  shows "\<exists>st'. AtomicMultiKVOp cli lockId kvs st = Some (None, st') \<and>
     lview (es_world st') = fold apply_kv kvs (lview (es_world st)) \<and> tidy lview used (es_world st') \<and>
     es_locks st' = (es_locks st)(lockId := None)"
proof -
  let ?m = "lview (es_world st)"
  obtain l w1 where g: "cli_Grant cli 10 (es_world st) = ((l, None), w1)" "lview w1 = ?m"
    "l \<notin> used (es_world st)" "used w1 = insert l (used (es_world st))"
    using etcd_reliableD(1) [OF assms(1)] by blast
  then obtain w2 where l2: "lock_loop cli l lockId w1 = Some (None, w2)"
    "lview w2 = ?m(lockId \<mapsto> (itoa l, Some l))" "used w2 = used w1"
    using lock_loop_free [OF assms(1), of w1 lockId l] free by auto
  obtain w3 where w3: "cli_Txn cli [] (kv_ops kvs) w2 = ((True, None), w3)"
    "lview w3 = fold apply_kv kvs (lview w2)" "used w3 = used w2"
    using etcd_reliableD(4) [OF assms(1)] by (metis fold_kv_ops)
  obtain w4 where w4: "cli_Revoke cli l w3 = (None, w4)" "lview w4 = drop_lease l (lview w3)" "used w4 = used w3"
    using etcd_reliableD(2) [OF assms(1)] by blast
  let ?st1 = "st\<lparr>es_world := w2, es_locks := (es_locks st)(lockId \<mapsto> l)\<rparr>"
  have "Lock cli lockId st = Some (None, ?st1)" using g l2 by (simp add: Lock_def)
  moreover have "UnLock cli lockId (?st1\<lparr>es_world := w3\<rparr>) =
      (Some (Err (Sprintf ''%v is already unlocked'' [IString lockId])),
       st\<lparr>es_world := w4, es_locks := (es_locks st)(lockId := None)\<rparr>)"
    using w4 by (simp add: UnLock_def Let_def)
  ultimately have run: "AtomicMultiKVOp cli lockId kvs st =
      Some (None, st\<lparr>es_world := w4, es_locks := (es_locks st)(lockId := None)\<rparr>)"
    using w3 by (simp add: AtomicMultiKVOp_def)
  have "lview w4 k = fold apply_kv kvs ?m k" for k
  proof (cases "k = lockId")
    case True
    then have "fold apply_kv kvs (lview w2) k = Some (itoa l, Some l)" "fold apply_kv kvs ?m k = None"
      using fold_apply_kv_other [OF assms(4)] l2(2) free by simp_all
    with w3(2) w4(2) show ?thesis by (simp add: drop_lease_def)
  next
    case False
    then have "fold apply_kv kvs (lview w2) k = fold apply_kv kvs ?m k"
      using fold_apply_kv_local [of "lview w2" k ?m kvs] l2(2) by simp
    moreover have "fold apply_kv kvs ?m k \<noteq> Some (v, Some l)" for v
      using fold_apply_kv_leases [of kvs ?m k v l] tidy g(3) by (auto simp: tidy_def)
    ultimately show ?thesis
      using w3(2) w4(2) by (auto simp: drop_lease_def split: option.split)
  qed
  then have "lview w4 = fold apply_kv kvs ?m" by blast
  moreover from this have "tidy lview used w4"
    using tidy g(4) l2(3) w3(3) w4(3) by (auto simp: tidy_def dest: fold_apply_kv_leases)
  ultimately show ?thesis using run by auto
qed



end
