(* ===== verification/Go_Digest.thy ===== *)
theory Go_Digest
  imports Go_Std "HOL-Library.Word"
begin

text \<open>
  The checksums of the Go standard library that mysh uses, as executable functions on byte strings:
  \<^verbatim>\<open>crypto/md5\<close> (RFC 1321, for login tokens), \<^verbatim>\<open>crypto/sha256\<close> (FIPS 180-4, for stored passwords)
  and \<^verbatim>\<open>hash/crc32\<close> with the IEEE polynomial (for the hash ring), together with the printing of bytes
  by \<^verbatim>\<open>%x\<close>.
\<close>

unbundle bit_operations_syntax

section \<open>Bytes and blocks\<close>

definition byte_of :: "char \<Rightarrow> nat" where
  "byte_of c = of_char c"

fun blocks :: "'a list \<Rightarrow> 'a list list" where
  "blocks [] = []"
| "blocks (x # xs) = take 64 (x # xs) # blocks (drop 63 xs)"

fun be_bytes :: "nat \<Rightarrow> nat \<Rightarrow> nat list" where
  "be_bytes 0 n = []"
| "be_bytes (Suc k) n = be_bytes k (n div 256) @ [n mod 256]"

text \<open>The byte 128, zeros up to 56 modulo 64, and the length in bits as eight bytes.\<close>

definition pad_with :: "(nat list \<Rightarrow> nat list) \<Rightarrow> nat list \<Rightarrow> nat list" where
  "pad_with order bs =
     bs @ 128 # replicate ((119 - length bs mod 64) mod 64) 0 @ order (be_bytes 8 (8 * length bs))"

fun word_be :: "nat list \<Rightarrow> 32 word" where
  "word_be bs = of_nat (foldl (\<lambda>n b. 256 * n + b) 0 bs)"

fun words_of :: "(nat list \<Rightarrow> nat list) \<Rightarrow> nat list \<Rightarrow> 32 word list" where
  "words_of order (a # b # c # d # bs) = word_be (order [a, b, c, d]) # words_of order bs"
| "words_of order _ = []"

definition word_bytes :: "32 word \<Rightarrow> nat list" where
  "word_bytes w = be_bytes 4 (unat w)"

section \<open>MD5\<close>

definition md5_K :: "32 word list" where
  "md5_K =
     [0xd76aa478, 0xe8c7b756, 0x242070db, 0xc1bdceee, 0xf57c0faf, 0x4787c62a,
      0xa8304613, 0xfd469501, 0x698098d8, 0x8b44f7af, 0xffff5bb1, 0x895cd7be,
      0x6b901122, 0xfd987193, 0xa679438e, 0x49b40821, 0xf61e2562, 0xc040b340,
      0x265e5a51, 0xe9b6c7aa, 0xd62f105d, 0x02441453, 0xd8a1e681, 0xe7d3fbc8,
      0x21e1cde6, 0xc33707d6, 0xf4d50d87, 0x455a14ed, 0xa9e3e905, 0xfcefa3f8,
      0x676f02d9, 0x8d2a4c8a, 0xfffa3942, 0x8771f681, 0x6d9d6122, 0xfde5380c,
      0xa4beea44, 0x4bdecfa9, 0xf6bb4b60, 0xbebfbc70, 0x289b7ec6, 0xeaa127fa,
      0xd4ef3085, 0x04881d05, 0xd9d4d039, 0xe6db99e5, 0x1fa27cf8, 0xc4ac5665,
      0xf4292244, 0x432aff97, 0xab9423a7, 0xfc93a039, 0x655b59c3, 0x8f0ccc92,
      0xffeff47d, 0x85845dd1, 0x6fa87e4f, 0xfe2ce6e0, 0xa3014314, 0x4e0811a1,
      0xf7537e82, 0xbd3af235, 0x2ad7d2bb, 0xeb86d391]"

definition md5_s :: "nat list" where
  "md5_s = concat (replicate 4 [7, 12, 17, 22]) @ concat (replicate 4 [5, 9, 14, 20]) @
     concat (replicate 4 [4, 11, 16, 23]) @ concat (replicate 4 [6, 10, 15, 21])"

fun md5_mix :: "nat \<Rightarrow> 32 word \<Rightarrow> 32 word \<Rightarrow> 32 word \<Rightarrow> 32 word \<times> nat" where
  "md5_mix i b c d =
     (if i < 16 then ((b AND c) OR (NOT b AND d), i)
      else if i < 32 then ((d AND b) OR (NOT d AND c), (5 * i + 1) mod 16)
      else if i < 48 then (b XOR c XOR d, (3 * i + 5) mod 16)
      else (c XOR (b OR NOT d), (7 * i) mod 16))"

fun md5_rounds :: "32 word list \<Rightarrow> nat list \<Rightarrow> 32 word list \<Rightarrow> nat \<Rightarrow>
  32 word \<times> 32 word \<times> 32 word \<times> 32 word \<Rightarrow> 32 word \<times> 32 word \<times> 32 word \<times> 32 word"
where
  "md5_rounds m (s # ss) (k # ks) i (a, b, c, d) =
     (case md5_mix i b c d of (f, g) \<Rightarrow>
        md5_rounds m ss ks (Suc i) (d, b + word_rotl s (f + a + k + m ! g), b, c))"
| "md5_rounds m _ _ i st = st"

definition md5_block :: "32 word \<times> 32 word \<times> 32 word \<times> 32 word \<Rightarrow> nat list \<Rightarrow>
  32 word \<times> 32 word \<times> 32 word \<times> 32 word"
where
  "md5_block st bs =
     (case (st, md5_rounds (words_of rev bs) md5_s md5_K 0 st) of
        ((a, b, c, d), (a', b', c', d')) \<Rightarrow> (a + a', b + b', c + c', d + d'))"

definition md5_Sum :: "string \<Rightarrow> nat list" where
  "md5_Sum s =
     (case foldl md5_block (0x67452301, 0xefcdab89, 0x98badcfe, 0x10325476)
             (blocks (pad_with rev (map byte_of s))) of
        (a, b, c, d) \<Rightarrow> concat (map (\<lambda>w. rev (word_bytes w)) [a, b, c, d]))"

section \<open>SHA-256\<close>

definition sha256_K :: "32 word list" where
  "sha256_K =
     [0x428a2f98, 0x71374491, 0xb5c0fbcf, 0xe9b5dba5, 0x3956c25b, 0x59f111f1,
      0x923f82a4, 0xab1c5ed5, 0xd807aa98, 0x12835b01, 0x243185be, 0x550c7dc3,
      0x72be5d74, 0x80deb1fe, 0x9bdc06a7, 0xc19bf174, 0xe49b69c1, 0xefbe4786,
      0x0fc19dc6, 0x240ca1cc, 0x2de92c6f, 0x4a7484aa, 0x5cb0a9dc, 0x76f988da,
      0x983e5152, 0xa831c66d, 0xb00327c8, 0xbf597fc7, 0xc6e00bf3, 0xd5a79147,
      0x06ca6351, 0x14292967, 0x27b70a85, 0x2e1b2138, 0x4d2c6dfc, 0x53380d13,
      0x650a7354, 0x766a0abb, 0x81c2c92e, 0x92722c85, 0xa2bfe8a1, 0xa81a664b,
      0xc24b8b70, 0xc76c51a3, 0xd192e819, 0xd6990624, 0xf40e3585, 0x106aa070,
      0x19a4c116, 0x1e376c08, 0x2748774c, 0x34b0bcb5, 0x391c0cb3, 0x4ed8aa4a,
      0x5b9cca4f, 0x682e6ff3, 0x748f82ee, 0x78a5636f, 0x84c87814, 0x8cc70208,
      0x90befffa, 0xa4506ceb, 0xbef9a3f7, 0xc67178f2]"

definition sha256_H :: "32 word list" where
  "sha256_H =
     [0x6a09e667, 0xbb67ae85, 0x3c6ef372, 0xa54ff53a, 0x510e527f, 0x9b05688c,
      0x1f83d9ab, 0x5be0cd19]"

text \<open>The message schedule, the latest word first.\<close>

fun sha256_schedule :: "nat \<Rightarrow> 32 word list \<Rightarrow> 32 word list" where
  "sha256_schedule 0 ws = ws"
| "sha256_schedule (Suc n) ws =
     (let x = ws ! 14; y = ws ! 1;
          s0 = word_rotr 7 x XOR word_rotr 18 x XOR drop_bit 3 x;
          s1 = word_rotr 17 y XOR word_rotr 19 y XOR drop_bit 10 y
      in sha256_schedule n ((ws ! 15 + s0 + ws ! 6 + s1) # ws))"

fun sha256_round :: "32 word list \<Rightarrow> 32 word \<times> 32 word \<Rightarrow> 32 word list" where
  "sha256_round [a, b, c, d, e, f, g, h] (k, w) =
     (let s1 = word_rotr 6 e XOR word_rotr 11 e XOR word_rotr 25 e;
          ch = (e AND f) XOR (NOT e AND g);
          t1 = h + s1 + ch + k + w;
          s0 = word_rotr 2 a XOR word_rotr 13 a XOR word_rotr 22 a;
          maj = (a AND b) XOR (a AND c) XOR (b AND c)
      in [t1 + (s0 + maj), a, b, c, d + t1, e, f, g])"
| "sha256_round st _ = st"

definition sha256_block :: "32 word list \<Rightarrow> nat list \<Rightarrow> 32 word list" where
  "sha256_block st bs =
     map2 (+) st
       (foldl sha256_round st
          (zip sha256_K (rev (sha256_schedule 48 (rev (words_of (\<lambda>x. x) bs))))))"

definition sha256_Sum256 :: "string \<Rightarrow> nat list" where
  "sha256_Sum256 s =
     concat (map word_bytes
       (foldl sha256_block sha256_H (blocks (pad_with (\<lambda>x. x) (map byte_of s)))))"

section \<open>CRC-32\<close>

definition crc32_step :: "32 word \<Rightarrow> 32 word" where
  "crc32_step c = (if bit c 0 then drop_bit 1 c XOR 0xedb88320 else drop_bit 1 c)"

definition crc32_ChecksumIEEE :: "string \<Rightarrow> 32 word" where
  "crc32_ChecksumIEEE s =
     0xffffffff XOR foldl (\<lambda>c b. (crc32_step ^^ 8) (c XOR of_nat (byte_of b))) 0xffffffff s"

text \<open>With these rules, and then the definition of a step, the simplifier computes the checksum of a concrete string.\<close>

lemma crc32_byte:
  "(crc32_step ^^ 8) c =
     crc32_step (crc32_step (crc32_step (crc32_step (crc32_step (crc32_step (crc32_step (crc32_step c)))))))"
  by (simp add: numeral_eq_Suc)

lemmas crc32_eval = crc32_ChecksumIEEE_def crc32_byte byte_of_def

section \<open>Printing bytes\<close>

definition hex_digit :: "nat \<Rightarrow> char" where
  "hex_digit d = ''0123456789abcdef'' ! d"

definition Sprintf_x :: "nat list \<Rightarrow> string" where
  "Sprintf_x bs = concat (map (\<lambda>b. [hex_digit (b div 16), hex_digit (b mod 16)]) bs)"

end
