(* ===== verification/Hash_Ring.thy ===== *)
theory Hash_Ring
  imports Go_Digest
begin

text \<open>
  The consistent hash ring that assigns users to servers,
  \<^verbatim>\<open>vendor/github.com/1071496910/consistent-hashing/hashring.go\<close> (by the author of mysh).  Every node
  has a number of virtual nodes, each on a slot of its own; a key belongs to the first virtual node
  at or after its slot, around the ring.  The theory shows that the two indexes of the ring stay
  consistent, that the lookup is that first node and does not return on an empty ring, and that adding
  or deleting a node moves only the keys of that node.
\<close>

section \<open>The code\<close>

record virtualNode =
  vn_name :: string
  vn_symbolName :: string
  vn_addr :: string

record hashRing =
  hr_nodeVNameMap :: "string \<rightharpoonup> 32 word"
  hr_vnodeSlice :: "virtualNode option list"
  hr_addedNode :: "string \<rightharpoonup> nat"
  hr_slotNum :: int
  hr_vNodeNum :: int

definition NewHashRing :: "int \<Rightarrow> int \<Rightarrow> error + hashRing" where
  "NewHashRing slotNum vNodeNum =
     (if slotNum \<le> 0 \<or> vNodeNum \<le> 0 then Inl (Err ''slotNum or vNodeNum can't less than 0.'')
      else Inr \<lparr>hr_nodeVNameMap = Map.empty, hr_vnodeSlice = replicate (nat slotNum) None,
                hr_addedNode = Map.empty, hr_slotNum = slotNum, hr_vNodeNum = vNodeNum\<rparr>)"

text \<open>\<^verbatim>\<open>uint32(hr.slotNum)\<close> wraps around; a modulus of zero panics.\<close>

definition slots :: "hashRing \<Rightarrow> 32 word" where
  "slots hr = of_int (hr_slotNum hr)"

definition hashToSlot :: "string \<Rightarrow> hashRing \<Rightarrow> 32 word outcome" where
  "hashToSlot s hr =
     (if slots hr = 0 then Panic ''runtime error: integer divide by zero''
      else Ok (crc32_ChecksumIEEE s mod slots hr))"

definition vname :: "string \<Rightarrow> int \<Rightarrow> string" where
  "vname addr i = Sprintf ''%v--%v'' [IString addr, IInt i]"

text \<open>The inner loop of \<^verbatim>\<open>AddNode\<close>: hash one symbol name after the other until a slot is free.\<close>

partial_function (option) probe :: "hashRing \<Rightarrow> string \<Rightarrow> int \<Rightarrow> (string \<times> 32 word) outcome option" where
  "probe hr v j =
     (let symbolName = Sprintf ''%v-%v'' [IString v, IInt j] in
      case hashToSlot symbolName hr of
        Ok slotN \<Rightarrow>
          (case hr_vnodeSlice hr ! unat slotN of
             None \<Rightarrow> Some (Ok (symbolName, slotN))
           | Some _ \<Rightarrow> probe hr v (j + 1))
      | Panic e \<Rightarrow> Some (Panic e)
      | Fatal e \<Rightarrow> Some (Fatal e)
      | Blocked \<Rightarrow> Some Blocked)"

definition put_vnode :: "string \<Rightarrow> string \<Rightarrow> string \<Rightarrow> 32 word \<Rightarrow> hashRing \<Rightarrow> hashRing" where
  "put_vnode addr v symbolName slotN hr =
     hr\<lparr>hr_vnodeSlice := (hr_vnodeSlice hr)[unat slotN :=
           Some \<lparr>vn_name = v, vn_symbolName = symbolName, vn_addr = addr\<rparr>],
        hr_nodeVNameMap := (hr_nodeVNameMap hr)(v \<mapsto> slotN)\<rparr>"

text \<open>The outer loops, over the numbers of the virtual nodes.\<close>

fun add_vnodes :: "string \<Rightarrow> int list \<Rightarrow> hashRing \<Rightarrow> hashRing outcome option" where
  "add_vnodes addr [] hr = Some (Ok hr)"
| "add_vnodes addr (i # is) hr =
     lbind (probe hr (vname addr i) 0)
       (\<lambda>(symbolName, slotN). add_vnodes addr is (put_vnode addr (vname addr i) symbolName slotN hr))"

definition AddNode :: "string \<Rightarrow> hashRing \<Rightarrow> (error option \<times> hashRing) outcome option" where
  "AddNode addr hr =
     (if addr = '''' then Some (Ok (Some (Err ''addr can't be empty string.''), hr))
      else if hr_addedNode hr addr \<noteq> None then Some (Ok (Some (Err ''node already added.''), hr))
      else lbind (add_vnodes addr [0..hr_vNodeNum hr - 1] hr)
             (\<lambda>hr'. Some (Ok (None, hr'\<lparr>hr_addedNode := (hr_addedNode hr')(addr \<mapsto> 0)\<rparr>))))"

fun del_vnodes :: "string \<Rightarrow> int list \<Rightarrow> hashRing \<Rightarrow> hashRing" where
  "del_vnodes addr [] hr = hr"
| "del_vnodes addr (i # is) hr =
     del_vnodes addr is
       (case hr_nodeVNameMap hr (vname addr i) of
          None \<Rightarrow> hr
        | Some slotN \<Rightarrow> hr\<lparr>hr_vnodeSlice := (hr_vnodeSlice hr)[unat slotN := None],
                           hr_nodeVNameMap := (hr_nodeVNameMap hr)(vname addr i := None)\<rparr>)"

definition DelNode :: "string \<Rightarrow> hashRing \<Rightarrow> error option \<times> hashRing" where
  "DelNode addr hr =
     (if addr = '''' then (Some (Err ''addr can't be empty string.''), hr)
      else if hr_addedNode hr addr = None then (Some (Err ''node not exist when delete node.''), hr)
      else (let hr' = del_vnodes addr [0..hr_vNodeNum hr - 1] hr
            in (None, hr'\<lparr>hr_addedNode := (hr_addedNode hr')(addr := None)\<rparr>)))"

text \<open>
  The loop of \<^verbatim>\<open>GetNode\<close>; its condition is true for every slot number, so the error after the loop
  is only reached with a slot out of range.
\<close>

partial_function (option) get_loop :: "hashRing \<Rightarrow> string \<Rightarrow> 32 word \<Rightarrow> (error + string) outcome option" where
  "get_loop hr key i =
     (if i < slots hr then
        (case hr_vnodeSlice hr ! unat i of
           Some vnode \<Rightarrow> Some (Ok (Inr (vn_addr vnode)))
         | None \<Rightarrow> get_loop hr key ((i + 1) mod slots hr))
      else Some (Ok (Inl (Err (Sprintf ''can't get node for key %v.'' [IString key])))))"

definition GetNode :: "string \<Rightarrow> hashRing \<Rightarrow> (error + string) outcome option" where
  "GetNode key hr =
     (if key = '''' then Some (Ok (Inl (Err ''key can't be empty string.'')))
      else lbind (Some (hashToSlot key hr)) (get_loop hr key))"

section \<open>Names of virtual nodes\<close>

lemma vname_eq: "vname addr i = addr @ ''--'' @ itoa i"
  by (simp add: vname_def)

lemma vname_inject: "0 \<le> i \<Longrightarrow> 0 \<le> j \<Longrightarrow> vname a i = vname b j \<longleftrightarrow> a = b \<and> i = j"
proof
  assume nn: "0 \<le> i" "0 \<le> j" and eq: "vname a i = vname b j"
  have dig: "takeWhile (\<lambda>c. c \<noteq> CHR ''-'') (rev (vname x k)) = rev (itoa k)" if "0 \<le> k" for x k
  proof -
    have "CHR ''-'' \<notin> set (itoa k)" using that utoa_no_minus [of "nat k"] itoa_of_nat [of "nat k"] by simp
    then have "\<forall>c \<in> set (rev (itoa k)). c \<noteq> CHR ''-''" by auto
    then show ?thesis by (simp add: vname_eq takeWhile_append)
  qed
  from eq dig [OF nn(1), of a] dig [OF nn(2), of b] have "rev (itoa i) = rev (itoa j)" by simp
  then have "i = j" by simp
  with eq show "a = b \<and> i = j" by (simp add: vname_eq)
qed simp

section \<open>The invariant\<close>

text \<open>
  \<open>ring_of P hr\<close>: the slots and the index of names agree, and the virtual nodes are exactly those
  numbered in \<open>P\<close>.
\<close>

definition ring_of :: "(string \<times> int) set \<Rightarrow> hashRing \<Rightarrow> bool" where
  "ring_of P hr \<longleftrightarrow>
     0 < hr_slotNum hr \<and> hr_slotNum hr < 2 ^ 32 \<and> 0 < hr_vNodeNum hr \<and>
     length (hr_vnodeSlice hr) = nat (hr_slotNum hr) \<and>
     (\<forall>k v. k < length (hr_vnodeSlice hr) \<and> hr_vnodeSlice hr ! k = Some v \<longrightarrow>
        hr_nodeVNameMap hr (vn_name v) = Some (of_nat k) \<and>
        (\<exists>i. (vn_addr v, i) \<in> P \<and> vn_name v = vname (vn_addr v) i)) \<and>
     (\<forall>nm s. hr_nodeVNameMap hr nm = Some s \<longrightarrow>
        unat s < length (hr_vnodeSlice hr) \<and> (\<exists>v. hr_vnodeSlice hr ! unat s = Some v \<and> vn_name v = nm)) \<and>
     (\<forall>(a, i) \<in> P. 0 \<le> i \<and> hr_nodeVNameMap hr (vname a i) \<noteq> None)"

definition all_vnodes :: "hashRing \<Rightarrow> (string \<times> int) set" where
  "all_vnodes hr = dom (hr_addedNode hr) \<times> {0..<hr_vNodeNum hr}"

definition ring_inv :: "hashRing \<Rightarrow> bool" where
  "ring_inv hr \<longleftrightarrow> ring_of (all_vnodes hr) hr"

lemma ring_ofD:
  assumes "ring_of P hr"
  shows "0 < hr_slotNum hr" "hr_slotNum hr < 2 ^ 32" "0 < hr_vNodeNum hr"
    "length (hr_vnodeSlice hr) = nat (hr_slotNum hr)"
    "\<And>k v. k < length (hr_vnodeSlice hr) \<Longrightarrow> hr_vnodeSlice hr ! k = Some v \<Longrightarrow>
        hr_nodeVNameMap hr (vn_name v) = Some (of_nat k)"
    "\<And>k v. k < length (hr_vnodeSlice hr) \<Longrightarrow> hr_vnodeSlice hr ! k = Some v \<Longrightarrow>
        \<exists>i. (vn_addr v, i) \<in> P \<and> vn_name v = vname (vn_addr v) i"
    "\<And>nm s. hr_nodeVNameMap hr nm = Some s \<Longrightarrow>
        unat s < length (hr_vnodeSlice hr) \<and> (\<exists>v. hr_vnodeSlice hr ! unat s = Some v \<and> vn_name v = nm)"
    "\<And>a i. (a, i) \<in> P \<Longrightarrow> 0 \<le> i \<and> hr_nodeVNameMap hr (vname a i) \<noteq> None"
  using assms by (auto simp: ring_of_def)

lemma slots_nat:
  assumes "ring_of P hr"
  shows "unat (slots hr) = length (hr_vnodeSlice hr)" "slots hr \<noteq> 0"
proof -
  have "unat (slots hr) = nat (hr_slotNum hr mod 2 ^ 32)"
    unfolding slots_def by (simp add: unat_eq_nat_uint uint_word_of_int take_bit_eq_mod)
  then show "unat (slots hr) = length (hr_vnodeSlice hr)" using ring_ofD(1,2,4) [OF assms] by simp
  then show "slots hr \<noteq> 0" using ring_ofD(1,4) [OF assms] by auto
qed

lemma hashToSlot_Ok:
  assumes "ring_of P hr"
  shows "\<exists>s. hashToSlot k hr = Ok s \<and> unat s < length (hr_vnodeSlice hr)"
proof -
  have "unat (crc32_ChecksumIEEE k mod slots hr) < unat (slots hr)"
    using slots_nat(2) [OF assms] by (simp add: unat_mod_distrib unat_gt_0)
  then show ?thesis using slots_nat [OF assms] by (simp add: hashToSlot_def)
qed

lemma NewHashRing_inv:
  "NewHashRing n m = Inr hr \<Longrightarrow> n < 2 ^ 32 \<Longrightarrow> ring_inv hr \<and> hr_addedNode hr = Map.empty"
  by (auto simp: NewHashRing_def ring_inv_def all_vnodes_def ring_of_def split: if_splits)

section \<open>Adding and deleting virtual nodes\<close>

lemma vnode_absent:
  assumes ring: "ring_of P hr" and "(addr, i) \<notin> P" and "0 \<le> i"
  shows "hr_nodeVNameMap hr (vname addr i) = None"
proof (rule ccontr)
  assume "hr_nodeVNameMap hr (vname addr i) \<noteq> None"
  then obtain s where "hr_nodeVNameMap hr (vname addr i) = Some s" by blast
  from ring_ofD(7) [OF ring this] obtain v where v: "unat s < length (hr_vnodeSlice hr)"
    "hr_vnodeSlice hr ! unat s = Some v" "vn_name v = vname addr i" by blast
  from ring_ofD(6) [OF ring v(1,2)] obtain k where k: "(vn_addr v, k) \<in> P" "vn_name v = vname (vn_addr v) k"
    by blast
  have "vn_addr v = addr \<and> k = i"
    using v(3) k(2) ring_ofD(8) [OF ring k(1)] assms(3) by (simp add: vname_inject)
  with k(1) assms(2) show False by simp
qed

lemma put_vnode_ring:
  assumes ring: "ring_of P hr" and new: "(addr, i) \<notin> P" and nn: "0 \<le> i"
    and s: "unat s < length (hr_vnodeSlice hr)" and free: "hr_vnodeSlice hr ! unat s = None"
  shows "ring_of (insert (addr, i) P) (put_vnode addr (vname addr i) sn s hr)" (is "ring_of _ ?hr")
proof -
  have absent: "hr_nodeVNameMap hr (vname addr i) = None" by (rule vnode_absent [OF ring new nn])
  have slot: "hr_vnodeSlice ?hr ! k = (if k = unat s then
      Some \<lparr>vn_name = vname addr i, vn_symbolName = sn, vn_addr = addr\<rparr> else hr_vnodeSlice hr ! k)"
    if "k < length (hr_vnodeSlice hr)" for k
    using that s by (simp add: put_vnode_def nth_list_update)
  have name: "hr_nodeVNameMap ?hr = (hr_nodeVNameMap hr)(vname addr i \<mapsto> s)" by (simp add: put_vnode_def)
  have len: "length (hr_vnodeSlice ?hr) = length (hr_vnodeSlice hr)" "hr_slotNum ?hr = hr_slotNum hr"
    "hr_vNodeNum ?hr = hr_vNodeNum hr" by (simp_all add: put_vnode_def)
  show ?thesis
    unfolding ring_of_def len
  proof (intro conjI allI impI ballI, goal_cases)
    case (5 k v)
    then show ?case
    proof (cases "k = unat s")
      case True
      with 5 slot show ?thesis by (auto simp: name)
    next
      case False
      with 5 slot [of k] have "hr_vnodeSlice hr ! k = Some v" by simp
      with ring_ofD(5) [OF ring, of k v] 5 absent show ?thesis by (auto simp: name)
    qed
  next
    case (6 k v)
    show ?case
    proof (cases "k = unat s")
      case True
      with 6 slot [of k] show ?thesis by auto
    next
      case False
      with 6 slot [of k] have "hr_vnodeSlice hr ! k = Some v" by simp
      with ring_ofD(6) [OF ring, of k v] 6 show ?thesis by blast
    qed
  next
    case (7 nm t)
    then show ?case using s ring_ofD(7) [OF ring, of nm t] by (auto simp: name split: if_splits)
  next
    case (8 nm t)
    show ?case
    proof (cases "nm = vname addr i")
      case True
      with 8 slot s show ?thesis by (auto simp: name)
    next
      case False
      with 8 have "hr_nodeVNameMap hr nm = Some t" by (simp add: name)
      from ring_ofD(7) [OF ring this] free slot show ?thesis by auto
    qed
  next
    case (9 p)
    then show ?case using ring_ofD(8) [OF ring] nn by (auto simp: name)
  qed (use ring_ofD(1-4) [OF ring] in simp_all)
qed

lemma del_vnode_ring:
  assumes ring: "ring_of P hr" and nn: "0 \<le> i" and s: "hr_nodeVNameMap hr (vname addr i) = Some s"
  shows "ring_of (P - {(addr, i)}) (hr\<lparr>hr_vnodeSlice := (hr_vnodeSlice hr)[unat s := None],
           hr_nodeVNameMap := (hr_nodeVNameMap hr)(vname addr i := None)\<rparr>)" (is "ring_of _ ?hr")
proof -
  from ring_ofD(7) [OF ring s] obtain v where v: "unat s < length (hr_vnodeSlice hr)"
    "hr_vnodeSlice hr ! unat s = Some v" "vn_name v = vname addr i" by blast
  have slot: "hr_vnodeSlice ?hr ! k = (if k = unat s then None else hr_vnodeSlice hr ! k)"
    if "k < length (hr_vnodeSlice hr)" for k using that v(1) by (simp add: nth_list_update)
  have other: "vn_name w \<noteq> vname addr i" if "k < length (hr_vnodeSlice hr)" "hr_vnodeSlice hr ! k = Some w"
    "k \<noteq> unat s" for k w
  proof
    assume "vn_name w = vname addr i"
    with ring_ofD(5) [OF ring that(1,2)] s have "s = of_nat k" by simp
    moreover have "k < 2 ^ 32" using that(1) ring_ofD(2,4) [OF ring] by simp
    ultimately show False using that(3) by (simp add: unat_of_nat take_bit_eq_mod)
  qed
  show ?thesis
    unfolding ring_of_def
  proof (intro conjI allI impI ballI, goal_cases)
    case (5 k w)
    then have "k \<noteq> unat s" "hr_vnodeSlice hr ! k = Some w" using slot [of k] by (auto split: if_splits)
    with 5 ring_ofD(5) [OF ring] other show ?case by auto
  next
    case (6 k w)
    then have w: "k \<noteq> unat s" "hr_vnodeSlice hr ! k = Some w" "k < length (hr_vnodeSlice hr)"
      using slot [of k] by (auto split: if_splits)
    with ring_ofD(6) [OF ring, of k w] other [of k w] show ?case by blast
  next
    case (7 nm t)
    then show ?case using ring_ofD(7) [OF ring, of nm t] by (auto split: if_splits)
  next
    case (8 nm t)
    then have t: "nm \<noteq> vname addr i" "hr_nodeVNameMap hr nm = Some t" by (auto split: if_splits)
    from ring_ofD(7) [OF ring t(2)] obtain w where
      w: "unat t < length (hr_vnodeSlice hr)" "hr_vnodeSlice hr ! unat t = Some w" "vn_name w = nm" by blast
    with t v have "unat t \<noteq> unat s" by auto
    with w slot show ?case by simp
  next
    case (9 p)
    then show ?case using ring_ofD(8) [OF ring] nn by (auto simp: vname_inject)
  qed (use ring_ofD(1-4) [OF ring] in simp_all)
qed

section \<open>The lookup is the first node clockwise\<close>

definition owners :: "hashRing \<Rightarrow> string option list" where
  "owners hr = map (map_option vn_addr) (hr_vnodeSlice hr)"

text \<open>The first entry at or after position \<open>k\<close>, around the list.\<close>

definition clockwise :: "'a option list \<Rightarrow> nat \<Rightarrow> 'a option" where
  "clockwise xs k = (case dropWhile (\<lambda>x. x = None) (rotate k xs) of [] \<Rightarrow> None | x # _ \<Rightarrow> x)"

lemma rotate_nth_Cons: "k < length xs \<Longrightarrow> \<exists>ys. rotate k xs = xs ! k # ys"
  by (simp add: rotate_drop_take Cons_nth_drop_Suc [symmetric])

lemma clockwise_here: "k < length xs \<Longrightarrow> xs ! k = Some a \<Longrightarrow> clockwise xs k = Some a"
  using rotate_nth_Cons [of k xs] by (auto simp: clockwise_def)

lemma dropWhile_None_snoc:
  "(case dropWhile (\<lambda>x. x = None) (ys @ [None]) of [] \<Rightarrow> None | x # _ \<Rightarrow> x) =
   (case dropWhile (\<lambda>x. x = None) ys of [] \<Rightarrow> None | x # _ \<Rightarrow> x)"
  by (induction ys) auto

lemma rotate_next:
  assumes "k < length xs" and "xs ! k = None"
  shows "\<exists>ys. rotate k xs = None # ys \<and> rotate (Suc k mod length xs) xs = ys @ [None]"
proof -
  obtain ys where "rotate k xs = None # ys" using rotate_nth_Cons [OF assms(1)] assms(2) by auto
  moreover from this have "rotate (Suc k) xs = ys @ [None]" by simp
  ultimately show ?thesis using rotate_conv_mod [of "Suc k" xs] by simp
qed

lemma clockwise_next:
  "k < length xs \<Longrightarrow> xs ! k = None \<Longrightarrow> clockwise xs k = clockwise xs (Suc k mod length xs)"
  using rotate_next [of k xs] by (auto simp: clockwise_def dropWhile_None_snoc)

lemma first_None_iff:
  "(case dropWhile (\<lambda>x. x = None) ys of [] \<Rightarrow> None | x # _ \<Rightarrow> x) = None \<longleftrightarrow> (\<forall>x \<in> set ys. x = None)"
  by (induction ys) auto

lemma clockwise_None_iff: "clockwise xs k = None \<longleftrightarrow> (\<forall>x \<in> set xs. x = None)"
  by (simp add: clockwise_def first_None_iff)

lemma clockwise_mem: "clockwise xs k = Some a \<Longrightarrow> Some a \<in> set xs"
proof -
  assume "clockwise xs k = Some a"
  then have "Some a \<in> set (rotate k xs)"
    using set_dropWhileD [of "Some a" "\<lambda>x. x = None" "rotate k xs"]
    by (auto simp: clockwise_def split: list.splits)
  then show ?thesis by simp
qed

text \<open>How many free slots the loop passes.\<close>

definition gap :: "'a option list \<Rightarrow> nat \<Rightarrow> nat" where
  "gap xs k = length (takeWhile (\<lambda>x. x = None) (rotate k xs))"

lemma takeWhile_snoc_stop:
  "\<exists>x \<in> set ys. x \<noteq> None \<Longrightarrow> takeWhile (\<lambda>x. x = None) (ys @ [None]) = takeWhile (\<lambda>x. x = None) ys"
  by (induction ys) auto

lemma gap_next:
  assumes "k < length xs" and "xs ! k = None" and "\<exists>x \<in> set xs. x \<noteq> None"
  shows "gap xs k = Suc (gap xs (Suc k mod length xs))"
proof -
  obtain ys where ys: "rotate k xs = None # ys" "rotate (Suc k mod length xs) xs = ys @ [None]"
    using rotate_next [OF assms(1,2)] by blast
  have "set (rotate k xs) = set xs" by simp
  with ys(1) assms(3) have "\<exists>x \<in> set ys. x \<noteq> None" by auto
  then show ?thesis by (simp add: gap_def ys takeWhile_snoc_stop)
qed

lemma next_slot:
  assumes ring: "ring_of P hr" and i: "unat i < length (hr_vnodeSlice hr)"
  shows "unat ((i + 1) mod slots hr) = Suc (unat i) mod length (hr_vnodeSlice hr)"
proof -
  have "Suc (unat i) < 2 ^ 32" using i ring_ofD(2,4) [OF ring] by simp
  then have "unat (i + 1) = Suc (unat i)" by (simp add: unat_word_ariths)
  then show ?thesis by (simp add: unat_mod_distrib slots_nat(1) [OF ring])
qed

lemma get_loop_found:
  assumes ring: "ring_of P hr" and ex: "\<exists>x \<in> set (owners hr). x \<noteq> None"
  shows "unat i < length (hr_vnodeSlice hr) \<Longrightarrow>
    \<exists>a. clockwise (owners hr) (unat i) = Some a \<and> get_loop hr key i = Some (Ok (Inr a))"
proof (induction "gap (owners hr) (unat i)" arbitrary: i)
  case 0
  have lt: "i < slots hr" using 0 slots_nat(1) [OF ring] by (simp add: word_less_nat_alt)
  have "owners hr ! unat i \<noteq> None"
    using 0 gap_next [of "unat i" "owners hr"] ex by (force simp: owners_def)
  with lt 0 show ?case
    using clockwise_here [of "unat i" "owners hr"] by (auto simp: owners_def get_loop.simps)
next
  case (Suc g)
  have lt: "i < slots hr" using Suc.prems slots_nat(1) [OF ring] by (simp add: word_less_nat_alt)
  have len: "length (owners hr) = length (hr_vnodeSlice hr)" by (simp add: owners_def)
  show ?case
  proof (cases "hr_vnodeSlice hr ! unat i")
    case (Some v)
    with lt Suc.prems show ?thesis
      using clockwise_here [of "unat i" "owners hr"] by (auto simp: owners_def get_loop.simps)
  next
    case None
    let ?j = "(i + 1) mod slots hr"
    have own: "owners hr ! unat i = None" using None Suc.prems by (simp add: owners_def)
    have j: "unat ?j = Suc (unat i) mod length (owners hr)" using next_slot [OF ring Suc.prems] len by simp
    then have "unat ?j < length (hr_vnodeSlice hr)"
      using Suc.prems len mod_less_divisor [of "length (owners hr)" "Suc (unat i)"] by linarith
    moreover have "g = gap (owners hr) (unat ?j)"
      using Suc.hyps(2) gap_next [of "unat i" "owners hr"] Suc.prems own ex j len by simp
    moreover have "clockwise (owners hr) (unat i) = clockwise (owners hr) (unat ?j)"
      using clockwise_next [of "unat i" "owners hr"] Suc.prems own j len by simp
    moreover have "get_loop hr key i = get_loop hr key ?j" using None lt by (subst get_loop.simps) simp
    ultimately show ?thesis using Suc.hyps(1) [of ?j] by simp
  qed
qed

lemma get_loop_returns:
  "get_loop hr key i = Some r \<Longrightarrow> ring_of P hr \<Longrightarrow> unat i < length (hr_vnodeSlice hr) \<Longrightarrow>
     \<exists>x \<in> set (owners hr). x \<noteq> None"
proof (induction arbitrary: P rule: get_loop.raw_induct [rotated, consumes 1, case_names step])
  case (step loop hr key i r)
  show ?case
  proof (cases "hr_vnodeSlice hr ! unat i")
    case (Some v)
    then have "Some (vn_addr v) \<in> set (owners hr)"
      using nth_mem [of "unat i" "owners hr"] step(4) by (simp add: owners_def)
    then show ?thesis by blast
  next
    case None
    have "i < slots hr" using step(4) slots_nat(1) [OF step(3)] by (simp add: word_less_nat_alt)
    with step(2) None have "loop hr key ((i + 1) mod slots hr) = Some r" by simp
    moreover have "unat ((i + 1) mod slots hr) < length (hr_vnodeSlice hr)"
      using next_slot [OF step(3,4)] step(4) mod_less_divisor [of "length (hr_vnodeSlice hr)" "Suc (unat i)"]
      by linarith
    ultimately show ?thesis using step(1,3) by blast
  qed
qed

text \<open>The lookup: the node of the first occupied slot clockwise, and no return from an empty ring.\<close>

lemma GetNode_law:
  assumes inv: "ring_inv hr" and "key \<noteq> []"
  shows "\<exists>s. hashToSlot key hr = Ok s \<and> unat s < length (hr_vnodeSlice hr) \<and>
    GetNode key hr = map_option (\<lambda>a. Ok (Inr a)) (clockwise (owners hr) (unat s))"
proof -
  have ring: "ring_of (all_vnodes hr) hr" using inv by (simp add: ring_inv_def)
  obtain s where s: "hashToSlot key hr = Ok s" "unat s < length (hr_vnodeSlice hr)"
    using hashToSlot_Ok [OF ring] by blast
  have "GetNode key hr = get_loop hr key s" using assms(2) s(1) by (simp add: GetNode_def)
  also have "\<dots> = map_option (\<lambda>a. Ok (Inr a)) (clockwise (owners hr) (unat s))"
  proof (cases "\<exists>x \<in> set (owners hr). x \<noteq> None")
    case True
    from get_loop_found [OF ring this s(2), of key] show ?thesis by auto
  next
    case False
    then have "clockwise (owners hr) (unat s) = None" by (auto simp: clockwise_None_iff)
    moreover have "get_loop hr key s = None"
      using get_loop_returns [OF _ ring s(2)] False by fastforce
    ultimately show ?thesis by simp
  qed
  finally show ?thesis using s by blast
qed

section \<open>Adding and deleting nodes\<close>

text \<open>What a node change does to the owners of the slots.\<close>

definition only_adds :: "string \<Rightarrow> string option \<Rightarrow> string option \<Rightarrow> bool" where
  "only_adds addr x y \<longleftrightarrow> y = x \<or> x = None \<and> y = Some addr"

definition same_shape :: "hashRing \<Rightarrow> hashRing \<Rightarrow> bool" where
  "same_shape hr hr' \<longleftrightarrow> hr_slotNum hr' = hr_slotNum hr \<and> hr_vNodeNum hr' = hr_vNodeNum hr \<and>
     hr_addedNode hr' = hr_addedNode hr"

lemma probe_law:
  "probe hr v j = Some r \<Longrightarrow> ring_of P hr \<Longrightarrow>
     \<exists>sn s. r = Ok (sn, s) \<and> unat s < length (hr_vnodeSlice hr) \<and> hr_vnodeSlice hr ! unat s = None"
proof (induction arbitrary: P rule: probe.raw_induct [rotated, consumes 1, case_names step])
  case (step loop hr v j r)
  obtain s where s: "hashToSlot (Sprintf ''%v-%v'' [IString v, IInt j]) hr = Ok s"
    "unat s < length (hr_vnodeSlice hr)" using hashToSlot_Ok [OF step(3)] by blast
  show ?case
  proof (cases "hr_vnodeSlice hr ! unat s")
    case None
    with step(2) s(1) have "r = Ok (Sprintf ''%v-%v'' [IString v, IInt j], s)" by (simp add: Let_def)
    with None s(2) show ?thesis by blast
  next
    case (Some w)
    with step(2) s(1) have "loop hr v (j + 1) = Some r" by (simp add: Let_def)
    with step(1,3) show ?thesis by blast
  qed
qed

lemma add_vnodes_law:
  "add_vnodes addr is hr = Some r \<Longrightarrow> ring_of P hr \<Longrightarrow> distinct is \<Longrightarrow>
     \<forall>i \<in> set is. 0 \<le> i \<and> (addr, i) \<notin> P \<Longrightarrow>
     \<exists>hr'. r = Ok hr' \<and> ring_of (P \<union> {addr} \<times> set is) hr' \<and> same_shape hr hr' \<and>
       list_all2 (only_adds addr) (owners hr) (owners hr')"
proof (induction "is" arbitrary: hr P)
  case Nil
  then show ?case by (auto simp: same_shape_def only_adds_def intro: list_all2_refl)
next
  case (Cons i "is")
  then obtain r' where r': "probe hr (vname addr i) 0 = Some r'"
    by (auto simp: lbind_def split: option.splits)
  from probe_law [OF r' Cons.prems(2)] obtain sn s where s: "r' = Ok (sn, s)"
    "unat s < length (hr_vnodeSlice hr)" "hr_vnodeSlice hr ! unat s = None" by blast
  let ?hr = "put_vnode addr (vname addr i) sn s hr"
  have step: "add_vnodes addr is ?hr = Some r" using Cons.prems(1) r' s(1) by simp
  have ring: "ring_of (insert (addr, i) P) ?hr"
    using Cons.prems(4) put_vnode_ring [OF Cons.prems(2) _ _ s(2,3)] by simp
  have "\<forall>k \<in> set is. 0 \<le> k \<and> (addr, k) \<notin> insert (addr, i) P" using Cons.prems(3,4) by auto
  from Cons.IH [OF step ring _ this] Cons.prems(3) obtain hr' where
    hr': "r = Ok hr'" "ring_of (insert (addr, i) P \<union> {addr} \<times> set is) hr'" "same_shape ?hr hr'"
      "list_all2 (only_adds addr) (owners ?hr) (owners hr')" by auto
  have "list_all2 (only_adds addr) (owners hr) (owners ?hr)"
    using s(2,3) by (auto simp: list_all2_conv_all_nth owners_def put_vnode_def nth_list_update only_adds_def)
  then have "list_all2 (only_adds addr) (owners hr) (owners hr')"
    using hr'(4) by (rule list_all2_trans [rotated]) (auto simp: only_adds_def)
  moreover have "insert (addr, i) P \<union> {addr} \<times> set is = P \<union> {addr} \<times> set (i # is)" by auto
  moreover have "same_shape hr hr'" using hr'(3) by (simp add: same_shape_def put_vnode_def)
  ultimately show ?case using hr'(1,2) by simp
qed

lemma set_upto_vnodes: "set [0..n - 1] = {0..<n :: int}"
  by auto

lemma ring_of_added [simp]: "ring_of P (hr\<lparr>hr_addedNode := x\<rparr>) = ring_of P hr"
  by (simp add: ring_of_def)

lemma AddNode_law:
  assumes inv: "ring_inv hr" and r: "AddNode addr hr = Some r"
  shows "\<exists>err hr'. r = Ok (err, hr') \<and> ring_inv hr' \<and>
    (if addr = [] \<or> addr \<in> dom (hr_addedNode hr) then err \<noteq> None \<and> hr' = hr
     else err = None \<and> dom (hr_addedNode hr') = insert addr (dom (hr_addedNode hr)) \<and>
       hr_slotNum hr' = hr_slotNum hr \<and> list_all2 (only_adds addr) (owners hr) (owners hr'))"
proof (cases "addr = [] \<or> addr \<in> dom (hr_addedNode hr)")
  case True
  with inv r show ?thesis by (auto simp: AddNode_def split: if_splits)
next
  case False
  then obtain r' where r': "add_vnodes addr [0..hr_vNodeNum hr - 1] hr = Some r'"
    using r by (auto simp: AddNode_def domIff lbind_def split: option.splits)
  have "\<forall>i \<in> set [0..hr_vNodeNum hr - 1]. 0 \<le> i \<and> (addr, i) \<notin> all_vnodes hr"
    using False by (auto simp: all_vnodes_def)
  from add_vnodes_law [OF r' inv [unfolded ring_inv_def] _ this] obtain hr' where hr': "r' = Ok hr'"
    "ring_of (all_vnodes hr \<union> {addr} \<times> set [0..hr_vNodeNum hr - 1]) hr'" "same_shape hr hr'"
    "list_all2 (only_adds addr) (owners hr) (owners hr')" by auto
  let ?hr = "hr'\<lparr>hr_addedNode := (hr_addedNode hr')(addr \<mapsto> 0)\<rparr>"
  have "all_vnodes ?hr = all_vnodes hr \<union> {addr} \<times> set [0..hr_vNodeNum hr - 1]"
    using hr'(3) by (auto simp: all_vnodes_def same_shape_def)
  with hr'(2) have "ring_inv ?hr" by (simp add: ring_inv_def)
  moreover have "r = Ok (None, ?hr)" using r r' hr'(1) False by (auto simp: AddNode_def domIff)
  moreover have "owners ?hr = owners hr'" by (simp add: owners_def)
  ultimately show ?thesis using False hr'(3,4) by (auto simp: same_shape_def)
qed

text \<open>Deleting a node frees exactly its slots.\<close>

definition disown :: "string \<Rightarrow> string option \<Rightarrow> string option" where
  "disown addr x = (if x = Some addr then None else x)"

definition only_dels :: "string \<Rightarrow> string option \<Rightarrow> string option \<Rightarrow> bool" where
  "only_dels addr x y \<longleftrightarrow> y = x \<or> x = Some addr \<and> y = None"

lemma only_dels_trans:
  "list_all2 (only_dels a) xs ys \<Longrightarrow> list_all2 (only_dels a) ys zs \<Longrightarrow> list_all2 (only_dels a) xs zs"
  by (erule (1) list_all2_trans [rotated]) (auto simp: only_dels_def)

lemma slot_owner:
  assumes ring: "ring_of P hr" and s: "hr_nodeVNameMap hr (vname addr i) = Some s" and "0 \<le> i"
  shows "owners hr ! unat s = Some addr" "unat s < length (owners hr)"
proof -
  from ring_ofD(7) [OF ring s] obtain v where v: "unat s < length (hr_vnodeSlice hr)"
    "hr_vnodeSlice hr ! unat s = Some v" "vn_name v = vname addr i" by blast
  from ring_ofD(6) [OF ring v(1,2)] obtain k where k: "(vn_addr v, k) \<in> P" "vn_name v = vname (vn_addr v) k"
    by blast
  have "vn_addr v = addr" using v(3) k(2) ring_ofD(8) [OF ring k(1)] assms(3) by (simp add: vname_inject)
  with v show "owners hr ! unat s = Some addr" "unat s < length (owners hr)" by (simp_all add: owners_def)
qed

lemma owner_in: "ring_of P hr \<Longrightarrow> Some a \<in> set (owners hr) \<Longrightarrow> \<exists>i. (a, i) \<in> P"
proof -
  assume ring: "ring_of P hr" and "Some a \<in> set (owners hr)"
  then obtain k where "k < length (owners hr)" "owners hr ! k = Some a"
    by (auto simp only: in_set_conv_nth)
  then have "k < length (hr_vnodeSlice hr)" "map_option vn_addr (hr_vnodeSlice hr ! k) = Some a"
    by (simp_all add: owners_def)
  then obtain v where "k < length (hr_vnodeSlice hr)" "hr_vnodeSlice hr ! k = Some v" "vn_addr v = a"
    by auto
  with ring_ofD(6) [OF ring] show ?thesis by blast
qed

lemma del_vnodes_law:
  "ring_of P hr \<Longrightarrow> \<forall>i \<in> set is. 0 \<le> i \<Longrightarrow>
     ring_of (P - {addr} \<times> set is) (del_vnodes addr is hr) \<and> same_shape hr (del_vnodes addr is hr) \<and>
     list_all2 (only_dels addr) (owners hr) (owners (del_vnodes addr is hr))"
proof (induction "is" arbitrary: hr P)
  case Nil
  then show ?case by (auto simp: same_shape_def only_dels_def intro: list_all2_refl)
next
  case (Cons i "is")
  have i: "0 \<le> i" "\<forall>i \<in> set is. 0 \<le> i" using Cons.prems(2) by auto
  have diff: "P - {addr} \<times> set (i # is) = (P - {(addr, i)}) - {addr} \<times> set is" by auto
  show ?case
  proof (cases "hr_nodeVNameMap hr (vname addr i)")
    case None
    then have "(addr, i) \<notin> P" using ring_ofD(8) [OF Cons.prems(1), of addr i] by auto
    then have "P - {(addr, i)} = P" by simp
    with Cons.IH [OF Cons.prems(1) i(2)] None show ?thesis unfolding diff by simp
  next
    case (Some s)
    let ?hr = "hr\<lparr>hr_vnodeSlice := (hr_vnodeSlice hr)[unat s := None],
       hr_nodeVNameMap := (hr_nodeVNameMap hr)(vname addr i := None)\<rparr>"
    note IH = Cons.IH [OF del_vnode_ring [OF Cons.prems(1) i(1) Some] i(2)]
    have "list_all2 (only_dels addr) (owners hr) (owners ?hr)"
      using slot_owner [OF Cons.prems(1) Some i(1)]
      by (auto simp: list_all2_conv_all_nth owners_def nth_list_update only_dels_def)
    then have "list_all2 (only_dels addr) (owners hr) (owners (del_vnodes addr is ?hr))"
      by (rule only_dels_trans [OF _ IH [THEN conjunct2, THEN conjunct2]])
    with IH Some show ?thesis unfolding diff by (simp add: same_shape_def)
  qed
qed

lemma DelNode_law:
  assumes inv: "ring_inv hr" and r: "DelNode addr hr = (err, hr')"
  shows "ring_inv hr' \<and>
    (if addr \<in> dom (hr_addedNode hr) \<and> addr \<noteq> []
     then err = None \<and> dom (hr_addedNode hr') = dom (hr_addedNode hr) - {addr} \<and>
       hr_slotNum hr' = hr_slotNum hr \<and> owners hr' = map (disown addr) (owners hr)
     else err \<noteq> None \<and> hr' = hr)"
proof (cases "addr \<in> dom (hr_addedNode hr) \<and> addr \<noteq> []")
  case False
  with inv r show ?thesis by (auto simp: DelNode_def split: if_splits)
next
  case True
  let ?h = "del_vnodes addr [0..hr_vNodeNum hr - 1] hr"
  let ?P = "all_vnodes hr - {addr} \<times> set [0..hr_vNodeNum hr - 1]"
  have law: "ring_of ?P ?h" "same_shape hr ?h" "list_all2 (only_dels addr) (owners hr) (owners ?h)"
    using del_vnodes_law [OF inv [unfolded ring_inv_def], of "[0..hr_vNodeNum hr - 1]" addr] by auto
  have hr': "err = None" "hr' = ?h\<lparr>hr_addedNode := (hr_addedNode ?h)(addr := None)\<rparr>"
    using r True by (auto simp: DelNode_def Let_def domIff)
  then have "all_vnodes hr' = ?P"
    using law(2) by (auto simp: all_vnodes_def same_shape_def)
  then have "ring_inv hr'" using law(1) hr' by (simp add: ring_inv_def)
  moreover have "owners ?h = map (disown addr) (owners hr)"
  proof (rule nth_equalityI)
    show len: "length (owners ?h) = length (map (disown addr) (owners hr))"
      using list_all2_lengthD [OF law(3)] by simp
    fix k assume k: "k < length (owners ?h)"
    have "Some addr \<notin> set (owners ?h)" using owner_in [OF law(1)] by (fastforce simp: all_vnodes_def)
    then have "owners ?h ! k \<noteq> Some addr" using k nth_mem by metis
    with law(3) k len show "owners ?h ! k = map (disown addr) (owners hr) ! k"
      by (auto simp: list_all2_conv_all_nth only_dels_def disown_def)
  qed
  moreover have "owners hr' = owners ?h" using hr' by (simp add: owners_def)
  ultimately show ?thesis using True hr' law(2) by (auto simp: same_shape_def)
qed

section \<open>Which keys move\<close>

lemma first_only_adds:
  "list_all2 (only_adds addr) xs ys \<Longrightarrow>
     (case dropWhile (\<lambda>x. x = None) ys of [] \<Rightarrow> None | y # _ \<Rightarrow> y) \<in>
       {Some addr, (case dropWhile (\<lambda>x. x = None) xs of [] \<Rightarrow> None | x # _ \<Rightarrow> x)}"
proof (induction rule: list_all2_induct)
  case Nil
  then show ?case by simp
next
  case (Cons x xs y ys)
  then show ?case by (cases y) (auto simp: only_adds_def)
qed

lemma list_all2_rotate: "list_all2 R xs ys \<Longrightarrow> list_all2 R (rotate k xs) (rotate k ys)"
  by (cases "ys = []") (auto simp: list_all2_conv_all_nth nth_rotate)

lemma clockwise_only_adds:
  "list_all2 (only_adds addr) xs ys \<Longrightarrow> clockwise ys k = clockwise xs k \<or> clockwise ys k = Some addr"
  using first_only_adds [OF list_all2_rotate, of addr xs ys k] by (auto simp: clockwise_def)

lemma clockwise_disown:
  "clockwise xs k \<noteq> Some addr \<Longrightarrow> clockwise (map (disown addr) xs) k = clockwise xs k"
proof -
  have "(case dropWhile (\<lambda>x. x = None) ys of [] \<Rightarrow> None | y # _ \<Rightarrow> y) \<noteq> Some addr \<Longrightarrow>
      (case dropWhile (\<lambda>x. x = None) (map (disown addr) ys) of [] \<Rightarrow> None | y # _ \<Rightarrow> y) =
      (case dropWhile (\<lambda>x. x = None) ys of [] \<Rightarrow> None | y # _ \<Rightarrow> y)" for ys :: "string option list"
    by (induction ys) (auto simp: disown_def)
  then show "clockwise xs k \<noteq> Some addr \<Longrightarrow> ?thesis" by (simp add: clockwise_def rotate_map)
qed

section \<open>The contract of a hash ring\<close>

text \<open>
  What the dash server relies on.  The contract is stated on the nodes and on the owner that a ring
  gives every key (\<open>own r key\<close>, \<^const>\<open>None\<close> when there is no node).
\<close>

locale consistent_ring =
  fixes inv :: "'r \<Rightarrow> bool"
    and nodes :: "'r \<Rightarrow> string set"
    and own :: "'r \<Rightarrow> string \<Rightarrow> string option"
    and add :: "string \<Rightarrow> 'r \<Rightarrow> (error option \<times> 'r) outcome option"
    and del :: "string \<Rightarrow> 'r \<Rightarrow> error option \<times> 'r"
    and get :: "string \<Rightarrow> 'r \<Rightarrow> (error + string) outcome option"
  assumes get_contract: "inv r \<Longrightarrow> key \<noteq> [] \<Longrightarrow> get key r = map_option (\<lambda>a. Ok (Inr a)) (own r key)"
    and own_None: "inv r \<Longrightarrow> own r key = None \<longleftrightarrow> nodes r = {}"
    and own_node: "inv r \<Longrightarrow> own r key = Some a \<Longrightarrow> a \<in> nodes r"
    and add_contract: "inv r \<Longrightarrow> add a r = Some x \<Longrightarrow> a \<noteq> [] \<Longrightarrow> a \<notin> nodes r \<Longrightarrow>
        \<exists>r'. x = Ok (None, r') \<and> inv r' \<and> nodes r' = insert a (nodes r) \<and>
          (\<forall>key. own r' key = own r key \<or> own r' key = Some a)"
    and add_refused: "inv r \<Longrightarrow> a = [] \<or> a \<in> nodes r \<Longrightarrow> \<exists>e. add a r = Some (Ok (Some e, r))"
    and del_contract: "inv r \<Longrightarrow> a \<in> nodes r \<Longrightarrow> a \<noteq> [] \<Longrightarrow>
        \<exists>r'. del a r = (None, r') \<and> inv r' \<and> nodes r' = nodes r - {a} \<and>
          (\<forall>key. own r key \<noteq> Some a \<longrightarrow> own r' key = own r key)"
begin

text \<open>Deleting a node that was just added gives every key its former owner back.\<close>

lemma add_then_del:
  assumes "inv r" and "add a r = Some (Ok (None, r1))" and "a \<noteq> []" and "a \<notin> nodes r"
  shows "\<exists>r2. del a r1 = (None, r2) \<and> nodes r2 = nodes r \<and>
     (\<forall>key. own r1 key \<noteq> Some a \<longrightarrow> own r2 key = own r key)"
proof -
  from add_contract [OF assms(1,2,3,4)] have r1: "inv r1" "nodes r1 = insert a (nodes r)"
    "\<forall>key. own r1 key = own r key \<or> own r1 key = Some a" by auto
  from del_contract [OF r1(1) _ assms(3)] r1(2) obtain r2 where
    "del a r1 = (None, r2)" "nodes r2 = nodes r1 - {a}"
    "\<forall>key. own r1 key \<noteq> Some a \<longrightarrow> own r2 key = own r1 key" by auto
  with r1 assms(4) show ?thesis by auto
qed

lemma get_is_node:
  assumes "inv r" and "key \<noteq> []" and "get key r = Some x"
  shows "\<exists>a \<in> nodes r. x = Ok (Inr a) \<and> own r key = Some a"
  using get_contract [OF assms(1,2)] assms(3) own_node [OF assms(1), of key]
  by (cases "own r key") auto

lemma get_returns_iff: "inv r \<Longrightarrow> key \<noteq> [] \<Longrightarrow> get key r = None \<longleftrightarrow> nodes r = {}"
  by (simp add: get_contract own_None)

end

definition ring_own :: "hashRing \<Rightarrow> string \<Rightarrow> string option" where
  "ring_own hr key =
     (case hashToSlot key hr of Ok s \<Rightarrow> clockwise (owners hr) (unat s) | _ \<Rightarrow> None)"

definition ring_nodes :: "hashRing \<Rightarrow> string set" where
  "ring_nodes hr = dom (hr_addedNode hr)"

lemma owners_None_iff:
  assumes "ring_inv hr"
  shows "(\<forall>x \<in> set (owners hr). x = None) \<longleftrightarrow> ring_nodes hr = {}"
proof -
  have ring: "ring_of (all_vnodes hr) hr" using assms by (simp add: ring_inv_def)
  have "\<exists>x \<in> set (owners hr). x \<noteq> None" if "a \<in> ring_nodes hr" for a
  proof -
    have "(a, 0) \<in> all_vnodes hr" using that ring_ofD(3) [OF ring] by (auto simp: all_vnodes_def ring_nodes_def)
    with ring_ofD(8) [OF ring] obtain s where "hr_nodeVNameMap hr (vname a 0) = Some s" by blast
    from slot_owner [OF ring this] nth_mem show ?thesis by fastforce
  qed
  moreover have "a \<in> ring_nodes hr" if "Some a \<in> set (owners hr)" for a
    using owner_in [OF ring that] by (auto simp: all_vnodes_def ring_nodes_def)
  ultimately show ?thesis by (metis all_not_in_conv not_None_eq)
qed

lemma same_slots: "hr_slotNum hr' = hr_slotNum hr \<Longrightarrow> hashToSlot key hr' = hashToSlot key hr"
  by (simp add: hashToSlot_def slots_def)

interpretation ring: consistent_ring ring_inv ring_nodes ring_own AddNode DelNode GetNode
proof (unfold_locales, goal_cases)
  case (1 r key)
  then show ?case using GetNode_law by (fastforce simp: ring_own_def)
next
  case (2 r key)
  with hashToSlot_Ok [OF 2 [unfolded ring_inv_def], of key] owners_None_iff [OF 2] show ?case
    by (auto simp: ring_own_def clockwise_None_iff)
next
  case (3 r key a)
  then have "Some a \<in> set (owners r)"
    by (auto simp: ring_own_def intro: clockwise_mem split: outcome.splits)
  from owner_in [OF 3(1) [unfolded ring_inv_def] this] show ?case
    by (auto simp: all_vnodes_def ring_nodes_def)
next
  case (4 r a x)
  from AddNode_law [OF 4(1,2)] 4(3,4) obtain r' where r': "x = Ok (None, r')" "ring_inv r'"
    "ring_nodes r' = insert a (ring_nodes r)" "hr_slotNum r' = hr_slotNum r"
    "list_all2 (only_adds a) (owners r) (owners r')" by (auto simp: ring_nodes_def)
  have "ring_own r' key = ring_own r key \<or> ring_own r' key = Some a" for key
    using clockwise_only_adds [OF r'(5)] same_slots [OF r'(4)]
    by (auto simp: ring_own_def split: outcome.split)
  with r' show ?case by blast
next
  case (5 r a)
  then show ?case by (auto simp: AddNode_def ring_nodes_def)
next
  case (6 r a)
  obtain err r' where d: "DelNode a r = (err, r')" by (rule prod.exhaust)
  from DelNode_law [OF 6(1) d] 6(2,3) have r': "err = None" "ring_inv r'"
    "ring_nodes r' = ring_nodes r - {a}" "hr_slotNum r' = hr_slotNum r"
    "owners r' = map (disown a) (owners r)" by (auto simp: ring_nodes_def)
  have "ring_own r' key = ring_own r key" if "ring_own r key \<noteq> Some a" for key
    using that clockwise_disown same_slots [OF r'(4)] r'(5)
    by (auto simp: ring_own_def split: outcome.splits)
  with r' d show ?case by blast
qed

section \<open>Properties of the hash ring\<close>

text \<open>A sequence of node changes; a change that does not return leaves no ring.\<close>

datatype ring_op = AddOp string | DelOp string

fun ring_run :: "ring_op list \<Rightarrow> hashRing \<Rightarrow> hashRing outcome option" where
  "ring_run [] hr = Some (Ok hr)"
| "ring_run (AddOp a # ops) hr = lbind (AddNode a hr) (\<lambda>(_, hr'). ring_run ops hr')"
| "ring_run (DelOp a # ops) hr = ring_run ops (snd (DelNode a hr))"

fun nodes_after :: "ring_op list \<Rightarrow> string set \<Rightarrow> string set" where
  "nodes_after [] A = A"
| "nodes_after (AddOp a # ops) A = nodes_after ops (if a = [] then A else insert a A)"
| "nodes_after (DelOp a # ops) A = nodes_after ops (A - {a})"

lemma ring_run_law:
  "ring_inv hr \<Longrightarrow> [] \<notin> ring_nodes hr \<Longrightarrow> ring_run ops hr = Some r \<Longrightarrow>
     \<exists>hr'. r = Ok hr' \<and> ring_inv hr' \<and> ring_nodes hr' = nodes_after ops (ring_nodes hr)"
proof (induction ops arbitrary: hr)
  case Nil
  then show ?case by auto
next
  case (Cons op ops)
  show ?case
  proof (cases op)
    case (AddOp a)
    then obtain x where x: "AddNode a hr = Some x"
      using Cons.prems(3) by (auto simp: lbind_def split: option.splits)
    show ?thesis
    proof (cases "a = [] \<or> a \<in> ring_nodes hr")
      case True
      with ring.add_refused [OF Cons.prems(1) True] Cons AddOp show ?thesis by (auto simp: insert_absorb)
    next
      case False
      with ring.add_contract [OF Cons.prems(1) x] obtain hr1 where
        "x = Ok (None, hr1)" "ring_inv hr1" "ring_nodes hr1 = insert a (ring_nodes hr)" by blast
      with Cons.IH [of hr1] Cons.prems AddOp False x show ?thesis by auto
    qed
  next
    case (DelOp a)
    obtain err hr1 where d: "DelNode a hr = (err, hr1)" by (rule prod.exhaust)
    have "a \<in> ring_nodes hr \<Longrightarrow> a \<noteq> []" using Cons.prems(2) by auto
    then have "ring_inv hr1" "ring_nodes hr1 = ring_nodes hr - {a}"
      using DelNode_law [OF Cons.prems(1) d] by (simp_all add: ring_nodes_def split: if_splits)
    with Cons.IH [of hr1] Cons.prems DelOp d show ?thesis by auto
  qed
qed

text \<open>C32: \<^verbatim>\<open>GetNode\<close> returns a live node, and returns at all only if there is one. After any
  sequence of \<^verbatim>\<open>AddNode\<close> and \<^verbatim>\<open>DelNode\<close> calls that return, on a new ring of fewer than \<open>2^32\<close> slots,
  the lookup of a non-empty key runs for ever exactly when no node is left, and otherwise returns a
  node that was added and not deleted; the error after its loop is never returned.\<close>

theorem GetNode_returns_live_node:
  assumes "NewHashRing n m = Inr hr0" and "n < 2 ^ 32" and "ring_run ops hr0 = Some r" and "key \<noteq> []"
  shows "\<exists>hr. r = Ok hr \<and>
           (GetNode key hr = None \<longleftrightarrow> nodes_after ops {} = {}) \<and>
           (\<forall>x. GetNode key hr = Some x \<longrightarrow> (\<exists>a \<in> nodes_after ops {}. x = Ok (Inr a)))"
proof -
  have "ring_inv hr0" "ring_nodes hr0 = {}" using NewHashRing_inv [OF assms(1,2)] by (auto simp: ring_nodes_def)
  with ring_run_law [OF _ _ assms(3)] obtain hr where
    hr: "r = Ok hr" "ring_inv hr" "ring_nodes hr = nodes_after ops {}" by auto
  then show ?thesis
    using ring.get_returns_iff [OF hr(2) assms(4)] ring.get_is_node [OF hr(2) assms(4)] by auto
qed

theorem GetNode_returns_live_node_witness:
  "\<exists>hr0. NewHashRing 4096 32 = Inr hr0 \<and> GetNode ''bob'' hr0 = None"
proof -
  obtain hr0 where hr0: "NewHashRing 4096 32 = Inr hr0" by (simp add: NewHashRing_def)
  from GetNode_returns_live_node [OF hr0, of "[]" "Ok hr0" "''bob''"] hr0 show ?thesis by simp
qed

text \<open>C33: The ring is consistent. When a node is added, a key keeps its node or moves to the new
  one; when a node is deleted, only the keys of that node move. So deleting a node again after
  adding it returns to the former assignment of all keys that had not moved to it.\<close>

theorem ring_changes_move_few_keys:
  assumes "ring_inv hr" and "AddNode a hr = Some (Ok (None, hr1))" and "DelNode b hr = (None, hr2)"
    and "key \<noteq> []"
  shows "(GetNode key hr1 = GetNode key hr \<or> GetNode key hr1 = Some (Ok (Inr a))) \<and>
           (GetNode key hr2 = GetNode key hr \<or> GetNode key hr = Some (Ok (Inr b)))"
proof
  have "\<not> (a = [] \<or> a \<in> ring_nodes hr)" using ring.add_refused [OF assms(1), of a] assms(2) by auto
  with ring.add_contract [OF assms(1,2)] have r1: "ring_inv hr1"
    "ring_own hr1 key = ring_own hr key \<or> ring_own hr1 key = Some a" by auto
  then show "GetNode key hr1 = GetNode key hr \<or> GetNode key hr1 = Some (Ok (Inr a))"
    using ring.get_contract [OF assms(1,4)] ring.get_contract [OF r1(1) assms(4)] by auto
next
  have b: "b \<in> ring_nodes hr" "b \<noteq> []"
    using DelNode_law [OF assms(1,3)] by (auto simp: ring_nodes_def split: if_splits)
  from ring.del_contract [OF assms(1) b] assms(3) have r2: "ring_inv hr2"
    "ring_own hr key \<noteq> Some b \<longrightarrow> ring_own hr2 key = ring_own hr key" by auto
  then show "GetNode key hr2 = GetNode key hr \<or> GetNode key hr = Some (Ok (Inr b))"
    using ring.get_contract [OF assms(1,4)] ring.get_contract [OF r2(1) assms(4)] by auto
qed

text \<open>A full ring never accepts another node. If every slot holds a virtual node, \<^verbatim>\<open>AddNode\<close>
  of a new address does not return (it also keeps the ring's write lock, so every later change
  waits). With 4096 slots and 32 virtual nodes per node this is the 129th node.\<close>

theorem AddNode_full_ring_never_returns:
  assumes "ring_inv hr" and "None \<notin> set (hr_vnodeSlice hr)" and "addr \<noteq> []" and "addr \<notin> ring_nodes hr"
  shows "AddNode addr hr = None"
proof -
  have ring: "ring_of (all_vnodes hr) hr" using assms(1) by (simp add: ring_inv_def)
  have "probe hr v j = None" for v j
  proof (rule ccontr)
    assume "probe hr v j \<noteq> None"
    then obtain r where "probe hr v j = Some r" by blast
    from probe_law [OF this ring] obtain s :: "32 word" where
      "unat s < length (hr_vnodeSlice hr) \<and> hr_vnodeSlice hr ! unat s = None" by blast
    with assms(2) show False by (metis nth_mem)
  qed
  moreover have "[0..hr_vNodeNum hr - 1] = 0 # [1..hr_vNodeNum hr - 1]"
    using ring_ofD(3) [OF ring] by (simp add: upto.simps [of 0])
  ultimately show ?thesis using assms(3,4) by (simp add: AddNode_def ring_nodes_def domIff)
qed

text \<open>A ring of one slot, and the ring with its only slot taken.\<close>

definition tiny_ring :: hashRing where
  "tiny_ring = \<lparr>hr_nodeVNameMap = Map.empty, hr_vnodeSlice = [None], hr_addedNode = Map.empty,
     hr_slotNum = 1, hr_vNodeNum = 1\<rparr>"

definition tiny_full :: hashRing where
  "tiny_full = \<lparr>hr_nodeVNameMap = [vname ''s1'' 0 \<mapsto> 0],
     hr_vnodeSlice = [Some \<lparr>vn_name = vname ''s1'' 0, vn_symbolName = Sprintf ''%v-%v'' [IString (vname ''s1'' 0), IInt 0], vn_addr = ''s1''\<rparr>],
     hr_addedNode = [''s1'' \<mapsto> 0], hr_slotNum = 1, hr_vNodeNum = 1\<rparr>"

lemma tiny_ring_inv: "ring_inv tiny_ring"
  using NewHashRing_inv [of 1 1 tiny_ring] by (simp add: NewHashRing_def tiny_ring_def)

lemma tiny_full_eq: "AddNode ''s1'' tiny_ring = Some (Ok (None, tiny_full))"
proof -
  have "hashToSlot s tiny_ring = Ok 0" for s
    by (simp add: hashToSlot_def slots_def tiny_ring_def mod_word_one)
  then have "probe tiny_ring (vname ''s1'' 0) 0 = Some (Ok (Sprintf ''%v-%v'' [IString (vname ''s1'' 0), IInt 0], 0))"
    by (subst probe.simps) (simp add: tiny_ring_def)
  then show ?thesis
    by (simp add: AddNode_def tiny_ring_def tiny_full_def put_vnode_def del: Sprintf.simps)
qed

lemma tiny_full_inv: "ring_inv tiny_full"
  using AddNode_law [OF tiny_ring_inv tiny_full_eq] by simp

theorem AddNode_full_ring_never_returns_witness: "AddNode ''s2'' tiny_full = None"
  by (rule AddNode_full_ring_never_returns [OF tiny_full_inv])
    (simp_all add: tiny_full_def ring_nodes_def)

text \<open>A ring of four slots with one virtual node per node: \<^verbatim>\<open>s1\<close> falls on slot 1, \<^verbatim>\<open>s2\<close> on slot 3.\<close>

definition quad :: "(string \<times> 32 word) list \<Rightarrow> hashRing" where
  "quad ns =
     \<lparr>hr_nodeVNameMap = map_of (map (\<lambda>(a, s). (vname a 0, s)) ns),
      hr_vnodeSlice = map (\<lambda>k. map_option
         (\<lambda>a. \<lparr>vn_name = vname a 0, vn_symbolName = Sprintf ''%v-%v'' [IString (vname a 0), IInt 0], vn_addr = a\<rparr>)
         (map_of (map (\<lambda>(a, s). (s, a)) ns) k)) [0, 1, 2, 3],
      hr_addedNode = map_of (map (\<lambda>(a, s). (a, 0)) ns), hr_slotNum = 4, hr_vNodeNum = 1\<rparr>"

lemma quad_names: "vname ''s1'' 0 = ''s1--0''" "vname ''s2'' 0 = ''s2--0''"
  "Sprintf ''%v-%v'' [IString ''s1--0'', IInt 0] = ''s1--0-0''"
  "Sprintf ''%v-%v'' [IString ''s2--0'', IInt 0] = ''s2--0-0''"
  by code_simp+

lemma quad_slots: "hashToSlot ''s1--0-0'' (quad ns) = Ok 1" "hashToSlot ''s2--0-0'' (quad ns) = Ok 3"
  "hashToSlot ''amy'' (quad ns) = Ok 3"
  by (simp_all add: hashToSlot_def slots_def quad_def crc32_eval) (simp_all add: crc32_step_def)

lemma quad_add_s1: "AddNode ''s1'' (quad []) = Some (Ok (None, quad [(''s1'', 1)]))"
proof -
  have "probe (quad []) ''s1--0'' 0 = Some (Ok (''s1--0-0'', 1))"
    by (subst probe.simps, simp only: quad_names quad_slots Let_def) (simp add: quad_def)
  then show ?thesis
    by (simp add: AddNode_def quad_def quad_names put_vnode_def del: Sprintf.simps)
qed

lemma quad_add_s2: "AddNode ''s2'' (quad [(''s1'', 1)]) = Some (Ok (None, quad [(''s2'', 3), (''s1'', 1)]))"
proof -
  have "probe (quad [(''s1'', 1)]) ''s2--0'' 0 = Some (Ok (''s2--0-0'', 3))"
    by (subst probe.simps, simp only: quad_names quad_slots Let_def) (simp add: quad_def)
  then show ?thesis
    by (simp add: AddNode_def quad_def quad_names put_vnode_def del: Sprintf.simps)
qed

lemma quad_inv: "ring_inv (quad [(''s1'', 1)])"
proof -
  have "ring_inv (quad [])"
    using NewHashRing_inv [of 4 1 "quad []"] by (simp add: NewHashRing_def quad_def numeral_eq_Suc)
  from AddNode_law [OF this quad_add_s1] show ?thesis by simp
qed

theorem ring_changes_move_few_keys_witness:
  "\<exists>hr2. AddNode ''s2'' (quad [(''s1'', 1)]) = Some (Ok (None, quad [(''s2'', 3), (''s1'', 1)])) \<and>
     DelNode ''s1'' (quad [(''s1'', 1)]) = (None, hr2) \<and>
     GetNode ''amy'' (quad [(''s2'', 3), (''s1'', 1)]) \<in>
       {GetNode ''amy'' (quad [(''s1'', 1)]), Some (Ok (Inr ''s2''))} \<and>
     (GetNode ''amy'' hr2 = GetNode ''amy'' (quad [(''s1'', 1)]) \<or>
      GetNode ''amy'' (quad [(''s1'', 1)]) = Some (Ok (Inr ''s1'')))"
proof -
  obtain hr2 where d: "DelNode ''s1'' (quad [(''s1'', 1)]) = (None, hr2)"
    by (simp add: DelNode_def quad_def Let_def)
  with ring_changes_move_few_keys [OF quad_inv quad_add_s2 d, of "''amy''"] quad_add_s2
  show ?thesis by auto
qed

end
