(* ===== verification/Dash.thy ===== *)
theory Dash
  imports Cli_Managers Etcd_Store Hash_Ring
begin

text \<open>
  The dash, \<^verbatim>\<open>server/server.go\<close> lines 35 to 51, 284 to 360, 386 to 651 and 843 to 869: it assigns
  every user to a search server.  Registered servers join the hash ring; the first request for a user
  stores the node of the ring in etcd, later requests answer the stored node and move the user when the
  ring names another node that is healthy.
\<close>

section \<open>Names in etcd\<close>

definition ServerRegistryPrefix :: string where
  "ServerRegistryPrefix = ''/mysh/server/''"

definition ProxyRegistryPrefix :: string where
  "ProxyRegistryPrefix = ''/mysh/proxy/''"

definition DashEpQueryFormat :: string where
  "DashEpQueryFormat = ''/mysh/dash/uid/%v/endpoint''"

definition DashUidsQueryFormat :: string where
  "DashUidsQueryFormat = ''/mysh/dash/endpoint/%v/uids/%v''"

definition DashEpLock :: string where
  "DashEpLock = ''/mysh/dash/eplock''"

section \<open>The process\<close>

text \<open>
  \<open>ds_ring\<close>, \<open>ds_pause\<close> and \<open>ds_sc\<close> are the package variables \<^verbatim>\<open>hr\<close>, \<^verbatim>\<open>proxyPauseMap\<close> and
  \<^verbatim>\<open>scClientCache\<close>, \<open>ds_pc\<close> is the field \<^verbatim>\<open>pcClientCache\<close> of \<^verbatim>\<open>DashServer\<close>; \<open>ds_etcd\<close> is the world with
  the lock table of \<^verbatim>\<open>lib/etcd\<close>.
\<close>

record 'w dash =
  ds_ring :: hashRing
  ds_pause :: "string \<rightharpoonup> bool"
  ds_sc :: SCCliManager
  ds_pc :: PCCliManager
  ds_etcd :: "'w etcd_state"

record 'w dash_env =
  de_cli :: "'w clientv3"
  de_rpc :: "'w grpc"
  de_crt :: string

abbreviation ds_world :: "'w dash \<Rightarrow> 'w" where
  "ds_world d \<equiv> es_world (ds_etcd d)"

definition set_world :: "'w \<Rightarrow> 'w dash \<Rightarrow> 'w dash" where
  "set_world w d = d\<lparr>ds_etcd := (ds_etcd d)\<lparr>es_world := w\<rparr>\<rparr>"

text \<open>The start of a process: the package's \<^verbatim>\<open>init\<close> makes the hash ring, then \<^verbatim>\<open>main\<close> makes the server.\<close>

definition HashRingSlotNum :: int where
  "HashRingSlotNum = 4096"

definition HashRingVNodeNum :: int where
  "HashRingVNodeNum = 32"

definition server_init :: "hashRing outcome" where
  "server_init =
     (case NewHashRing HashRingSlotNum HashRingVNodeNum of Inl err \<Rightarrow> Panic (error_msg err) | Inr hr \<Rightarrow> Ok hr)"

definition NewDashServer :: "'w \<Rightarrow> 'w dash outcome" where
  "NewDashServer w =
     obind server_init (\<lambda>hr. Ok \<lparr>ds_ring = hr, ds_pause = Map.empty, ds_sc = \<lparr>scm_cliMap = Map.empty\<rparr>,
                   ds_pc = \<lparr>pcm_cliMap = Map.empty\<rparr>, ds_etcd = \<lparr>es_world = w, es_locks = Map.empty\<rparr>\<rparr>)"

section \<open>Servers come and go\<close>

text \<open>The callbacks of the event controller on the keys under \<^const>\<open>ServerRegistryPrefix\<close>.\<close>

definition dash_add_server :: "string \<Rightarrow> hashRing \<Rightarrow> hashRing outcome option" where
  "dash_add_server key hr =
     (case filepath_Rel ServerRegistryPrefix key of
        Inl err \<Rightarrow> Some (Ok hr)
      | Inr node \<Rightarrow> lbind (AddNode node hr) (\<lambda>(err, hr'). Some (Ok hr')))"

definition dash_del_server :: "string \<Rightarrow> hashRing \<Rightarrow> hashRing" where
  "dash_del_server key hr =
     (case filepath_Rel ServerRegistryPrefix key of
        Inl err \<Rightarrow> hr
      | Inr node \<Rightarrow> snd (DelNode node hr))"

section \<open>Suspended users\<close>

definition uidSuspensive :: "string \<Rightarrow> (string \<rightharpoonup> bool) \<Rightarrow> bool" where
  "uidSuspensive uid pm = (case pm uid of None \<Rightarrow> False | Some pause \<Rightarrow> pause)"

text \<open>The wait of a request that runs alone: nobody resumes the user meanwhile.\<close>

partial_function (option) waitUid :: "string \<Rightarrow> (string \<rightharpoonup> bool) \<Rightarrow> unit outcome option" where
  "waitUid uid pm = (if uidSuspensive uid pm then waitUid uid pm else Some (Ok ()))"

definition uidSuspend :: "string \<Rightarrow> 'w dash \<Rightarrow> 'w dash" where
  "uidSuspend uid d = d\<lparr>ds_pause := (ds_pause d)(uid \<mapsto> True)\<rparr>"

definition uidResume :: "string \<Rightarrow> 'w dash \<Rightarrow> 'w dash" where
  "uidResume uid d = d\<lparr>ds_pause := (ds_pause d)(uid := None)\<rparr>"

section \<open>Cleaning the caches of the proxies\<close>

fun proxy_eps :: "string list \<Rightarrow> error + string list" where
  "proxy_eps [] = Inr []"
| "proxy_eps (pn # pns) =
     (case filepath_Rel ProxyRegistryPrefix pn of
        Inl err \<Rightarrow> Inl err
      | Inr ep \<Rightarrow> (case proxy_eps pns of Inl err \<Rightarrow> Inl err | Inr eps \<Rightarrow> Inr (ep # eps)))"

fun clean_proxies ::
  "'w dash_env \<Rightarrow> string \<Rightarrow> string list \<Rightarrow> 'w dash \<Rightarrow> (error option \<times> 'w dash) outcome option"
where
  "clean_proxies E uid [] d = Some (Ok (None, d))"
| "clean_proxies E uid (pe # pes) d =
     lbind (pcm_CleanUidCache (de_rpc E) (de_crt E) pe \<lparr>clq_Uid = uid\<rparr> (ds_pc d, ds_world d))
       (\<lambda>((_, err), m, w).
         (let d' = set_world w (d\<lparr>ds_pc := m\<rparr>) in
          case err of Some e \<Rightarrow> Some (Ok (Some e, d')) | None \<Rightarrow> clean_proxies E uid pes d'))"

definition cleanUidCache ::
  "'w dash_env \<Rightarrow> string \<Rightarrow> 'w dash \<Rightarrow> (error option \<times> 'w dash) outcome option"
where
  "cleanUidCache E uid d =
     (if uid = '''' then Some (Ok (Some (Err ''uid can't be empty''), d))
      else (let d1 = uidSuspend uid d in
        lbind (case ListKeyByPrefix (de_cli E) ProxyRegistryPrefix (ds_world d1) of
            (Inl err, w) \<Rightarrow> Some (Ok (Some err, set_world w d1))
          | (Inr proxyNodes, w) \<Rightarrow>
              (case proxy_eps proxyNodes of
                 Inl err \<Rightarrow> Some (Ok (Some err, set_world w d1))
               | Inr proxyEps \<Rightarrow> clean_proxies E uid proxyEps (set_world w d1)))
          (\<lambda>(err, d2). Some (Ok (err, uidResume uid d2)))))"

fun clean_uids ::
  "'w dash_env \<Rightarrow> string list \<Rightarrow> 'w dash \<Rightarrow> (error option \<times> 'w dash) outcome option"
where
  "clean_uids E [] d = Some (Ok (None, d))"
| "clean_uids E (uid # uids) d =
     lbind (cleanUidCache E uid d) (\<lambda>(err, d').
       (case err of Some e \<Rightarrow> Some (Ok (Some e, d')) | None \<Rightarrow> clean_uids E uids d'))"

section \<open>The assignment of users\<close>

definition etcd_update ::
  "'w dash_env \<Rightarrow> KV list \<Rightarrow> 'w dash \<Rightarrow> (error option \<times> 'w dash) outcome option"
where
  "etcd_update E kvs d =
     map_option (\<lambda>(err, st). Ok (err, d\<lparr>ds_etcd := st\<rparr>)) (AtomicMultiKVOp (de_cli E) DashEpLock kvs (ds_etcd d))"

definition addEpInfo ::
  "'w dash_env \<Rightarrow> string \<Rightarrow> string \<Rightarrow> 'w dash \<Rightarrow> (error option \<times> 'w dash) outcome option"
where
  "addEpInfo E uid endpoint d =
     etcd_update E
       [\<lparr>kv_Op = OP_PUT, kv_Key = Sprintf DashEpQueryFormat [IString uid], kv_Value = endpoint\<rparr>,
        \<lparr>kv_Op = OP_PUT, kv_Key = Sprintf DashUidsQueryFormat [IString endpoint, IString uid], kv_Value = ''''\<rparr>] d"

definition updateEpInfo ::
  "'w dash_env \<Rightarrow> string \<Rightarrow> string \<Rightarrow> string \<Rightarrow> 'w dash \<Rightarrow> (error option \<times> 'w dash) outcome option"
where
  "updateEpInfo E uid oldEndpoint newEndpoint d =
     etcd_update E
       [\<lparr>kv_Op = OP_PUT, kv_Key = Sprintf DashEpQueryFormat [IString uid], kv_Value = newEndpoint\<rparr>,
        \<lparr>kv_Op = OP_DEL, kv_Key = Sprintf DashUidsQueryFormat [IString oldEndpoint, IString uid], kv_Value = ''''\<rparr>,
        \<lparr>kv_Op = OP_PUT, kv_Key = Sprintf DashUidsQueryFormat [IString newEndpoint, IString uid], kv_Value = ''''\<rparr>] d"

definition allocEndpoint ::
  "'w dash_env \<Rightarrow> string \<Rightarrow> 'w dash \<Rightarrow> ((error + string) \<times> 'w dash) outcome option"
where
  "allocEndpoint E uid d =
     lbind (GetNode uid (ds_ring d)) (\<lambda>r.
       (case r of
          Inl err \<Rightarrow> Some (Ok (Inl err, d))
        | Inr hashedEndpoint \<Rightarrow>
            lbind (addEpInfo E uid hashedEndpoint d) (\<lambda>(err, d').
              (case err of
                 Some e \<Rightarrow> Some (Ok (Inl e, d'))
               | None \<Rightarrow> Some (Ok (Inr hashedEndpoint, d'))))))"

text \<open>
  The last part of \<^verbatim>\<open>UidEndpoint\<close>: the user moves from \<open>cur\<close> to \<open>new\<close>.  The query of the users of the
  old endpoint passes one argument to a format with two verbs.
\<close>

type_synonym 'w dash_reply = "((CommonQueryResponse option \<times> error option) \<times> 'w dash) outcome option"

definition move_user :: "'w dash_env \<Rightarrow> string \<Rightarrow> string \<Rightarrow> string \<Rightarrow> 'w dash \<Rightarrow> 'w dash_reply" where
  "move_user E uid cur new d =
     (case ListKeyByPrefix (de_cli E) (Sprintf DashUidsQueryFormat [IString cur]) (ds_world d) of
        (Inl err, w) \<Rightarrow> Some (Ok ((None, Some err), set_world w d))
      | (Inr uids, w) \<Rightarrow>
          lbind (clean_uids E uids (set_world w d)) (\<lambda>(err, d1).
            (case err of
               Some e \<Rightarrow> Some (Ok ((None, Some e), d1))
             | None \<Rightarrow>
                 lbind (scm_UidLogout (de_rpc E) cur \<lparr>ulq_Uid = uid\<rparr> (ds_sc d1, ds_world d1)) (\<lambda>(_, m, w1).
                 lbind (updateEpInfo E uid cur new (set_world w1 (d1\<lparr>ds_sc := m\<rparr>))) (\<lambda>(err, d2).
                   Some (Ok ((Some \<lparr>cqr_Resp = new\<rparr>, err), d2)))))))"

definition UidEndpoint :: "'w dash_env \<Rightarrow> CommonQueryRequest \<Rightarrow> 'w dash \<Rightarrow> 'w dash_reply" where
  "UidEndpoint E r d =
     lbind (waitUid (cqq_Req r) (ds_pause d)) (\<lambda>_.
       (case GetKV (de_cli E) (Sprintf DashEpQueryFormat [IString (cqq_Req r)]) (ds_world d) of
          (Inl err, w) \<Rightarrow>
            (if err = ErrEmptyValue then
               lbind (allocEndpoint E (cqq_Req r) (set_world w d)) (\<lambda>(res, d').
                 Some (Ok (case res of
                     Inl e \<Rightarrow> ((None, Some e), d')
                   | Inr endpoint \<Rightarrow> ((Some \<lparr>cqr_Resp = endpoint\<rparr>, None), d'))))
             else Some (Ok ((None, Some err), set_world w d)))
        | (Inr vbytes, w) \<Rightarrow>
            lbind (GetNode (cqq_Req r) (ds_ring d)) (\<lambda>res.
              (case res of
                 Inl err \<Rightarrow> Some (Ok ((None, Some err), set_world w d))
               | Inr hashedEp \<Rightarrow>
                   (if hashedEp \<noteq> vbytes then
                      lbind (scm_Check (de_rpc E) hashedEp \<lparr>hcq_Service = ''''\<rparr> (ds_sc d, w)) (\<lambda>((resp, err), m, w1).
                        (let d1 = set_world w1 (d\<lparr>ds_sc := m\<rparr>);
                             stay = Some (Ok ((Some \<lparr>cqr_Resp = vbytes\<rparr>, None), d1))
                         in if err \<noteq> None then stay
                            else (case resp of
                                None \<Rightarrow> Some (Panic nil_pointer)
                              | Some x \<Rightarrow>
                                  (if hcr_Status x \<noteq> SERVING then stay
                                   else lbind (move_user E (cqq_Req r) vbytes hashedEp (uidSuspend (cqq_Req r) d1))
                                          (\<lambda>(ans, d2). Some (Ok (ans, uidResume (cqq_Req r) d2)))))))
                    else Some (Ok ((Some \<lparr>cqr_Resp = vbytes\<rparr>, None), set_world w d)))))))"

section \<open>The other queries\<close>

text \<open>The value of a failed get is nil, which converts to the empty string.\<close>

definition ClientUid ::
  "'w dash_env \<Rightarrow> CommonQueryRequest \<Rightarrow> 'w dash \<Rightarrow> (CommonQueryResponse \<times> error option) \<times> 'w dash"
where
  "ClientUid E r d =
     (case GetKV (de_cli E) (Sprintf ''uid.%v'' [IString (cqq_Req r)]) (ds_world d) of
        (Inl err, w) \<Rightarrow> ((\<lparr>cqr_Resp = ''''\<rparr>, Some err), set_world w d)
      | (Inr vbytes, w) \<Rightarrow> ((\<lparr>cqr_Resp = vbytes\<rparr>, None), set_world w d))"

definition UidState ::
  "'w dash_env \<Rightarrow> CommonQueryRequest \<Rightarrow> 'w dash \<Rightarrow> (CommonQueryResponse \<times> error option) \<times> 'w dash"
where
  "UidState E r d =
     (case GetKV (de_cli E) (Sprintf ''state.%v'' [IString (cqq_Req r)]) (ds_world d) of
        (Inl err, w) \<Rightarrow> ((\<lparr>cqr_Resp = ''''\<rparr>, Some err), set_world w d)
      | (Inr vbytes, w) \<Rightarrow> ((\<lparr>cqr_Resp = vbytes\<rparr>, None), set_world w d))"

text \<open>
  \<^verbatim>\<open>json.Unmarshal\<close> into a value that is not a pointer: a text that is not JSON is a syntax error
  (whose text is \<open>syntax_error\<close>), and any other text is refused because of the target.
\<close>

definition Unmarshal_into_slice :: "(string \<Rightarrow> string) \<Rightarrow> string \<Rightarrow> error option" where
  "Unmarshal_into_slice syntax_error s =
     (if parse_json s = None then Some (Err (syntax_error s))
      else Some (Err ''json: Unmarshal(non-pointer []string)''))"

definition UidClients ::
  "(string \<Rightarrow> string) \<Rightarrow> 'w dash_env \<Rightarrow> CommonQueryRequest \<Rightarrow> 'w dash \<Rightarrow>
     (CommonQueryListResponse option \<times> error option) \<times> 'w dash"
where
  "UidClients syntax_error E r d =
     (case GetKV (de_cli E) (Sprintf ''endpoint.%v'' [IString (cqq_Req r)]) (ds_world d) of
        (Inl err, w) \<Rightarrow> ((None, Some err), set_world w d)
      | (Inr vbytes, w) \<Rightarrow>
          (case Unmarshal_into_slice syntax_error vbytes of
             Some err \<Rightarrow> ((None, Some err), set_world w d)
           | None \<Rightarrow> ((Some \<lparr>cql_Resp = []\<rparr>, None), set_world w d)))"

section \<open>Only the leader serves\<close>

text \<open>The interceptor of \<^verbatim>\<open>DashServer.Run\<close> around every handler of the dash at address \<open>selfID\<close>.\<close>

definition dash_intercept ::
  "(json \<Rightarrow> bool) \<Rightarrow> 'w dash_env \<Rightarrow> string \<Rightarrow>
     ('w dash \<Rightarrow> (('r option \<times> error option) \<times> 'w dash) outcome option) \<Rightarrow> 'w dash \<Rightarrow>
     (('r option \<times> error option) \<times> 'w dash) outcome option"
where
  "dash_intercept time_ok E selfID handler d =
     (case IsLeader time_ok (de_cli E) DashLeaderKey selfID (ds_world d) of
        ((isleader, err), w) \<Rightarrow>
          (if \<not> isleader \<or> err \<noteq> None then Some (Ok ((None, Some ErrNotLeader), set_world w d))
           else handler (set_world w d)))"


section \<open>Keys\<close>

abbreviation ep_key :: "string \<Rightarrow> string" where
  "ep_key uid \<equiv> Sprintf DashEpQueryFormat [IString uid]"

abbreviation uids_key :: "string \<Rightarrow> string \<Rightarrow> string" where
  "uids_key ep uid \<equiv> Sprintf DashUidsQueryFormat [IString ep, IString uid]"

lemma ep_key_eq: "ep_key uid = ''/mysh/dash/uid/'' @ uid @ ''/endpoint''"
  by (simp add: DashEpQueryFormat_def)

lemma uids_key_eq: "uids_key ep uid = ''/mysh/dash/endpoint/'' @ ep @ ''/uids/'' @ uid"
  by (simp add: DashUidsQueryFormat_def)

lemma uids_query_eq:
  "Sprintf DashUidsQueryFormat [IString ep] = ''/mysh/dash/endpoint/'' @ ep @ ''/uids/%!v(MISSING)''"
  by (simp add: DashUidsQueryFormat_def)

definition slashless :: "string \<Rightarrow> bool" where
  "slashless s \<longleftrightarrow> CHR ''/'' \<notin> set s"

lemma slashless_append_inject:
  "slashless a \<Longrightarrow> slashless b \<Longrightarrow> a @ CHR ''/'' # x = b @ CHR ''/'' # y \<longleftrightarrow> a = b \<and> x = y"
proof (induction a arbitrary: b)
  case Nil
  then show ?case by (cases b) (auto simp: slashless_def)
next
  case (Cons c a)
  then show ?case by (cases b) (auto simp: slashless_def)
qed

lemma ep_key_inject [simp]: "ep_key u = ep_key v \<longleftrightarrow> u = v"
  by (simp add: ep_key_eq)

lemma uids_key_inject: "slashless a \<Longrightarrow> slashless b \<Longrightarrow> uids_key a u = uids_key b v \<longleftrightarrow> a = b \<and> u = v"
  by (simp add: uids_key_eq slashless_append_inject)

lemma keys_differ [simp]:
  "ep_key u \<noteq> uids_key a v" "uids_key a v \<noteq> ep_key u" "ep_key u \<noteq> DashEpLock" "DashEpLock \<noteq> ep_key u"
  "uids_key a v \<noteq> DashEpLock" "DashEpLock \<noteq> uids_key a v"
  by (simp_all add: ep_key_eq uids_key_eq DashEpLock_def)

lemma query_matches:
  assumes "slashless ep" and "slashless a" and "prefix (Sprintf DashUidsQueryFormat [IString ep]) (uids_key a u)"
  shows "a = ep \<and> prefix ''%!v(MISSING)'' u"
proof -
  obtain r where "ep @ CHR ''/'' # (''uids/%!v(MISSING)'' @ r) = a @ CHR ''/'' # (''uids/'' @ u)"
    using assms(3) by (auto simp: prefix_def uids_query_eq uids_key_eq)
  then show ?thesis using slashless_append_inject [OF assms(1,2)] by (auto simp: prefix_def)
qed

declare Sprintf.simps [simp del]

section \<open>One request of a calm cluster\<close>

text \<open>
  The hypotheses on what the dash talks to: etcd answers, connections can be dialled, and the remote
  calls return and leave the keys of etcd alone (the health check answers something when it reports no
  error).
\<close>

definition quiet :: "('w \<Rightarrow> leased) \<Rightarrow> ('w \<Rightarrow> lease set) \<Rightarrow> ('q, 'r, 'w) rpc_method \<Rightarrow> bool" where
  "quiet lview used f \<longleftrightarrow>
     (\<forall>a q w. \<exists>r err w'. f a q w = Some ((r, err), w') \<and> (err = None \<longrightarrow> r \<noteq> None) \<and>
        lview w' = lview w \<and> used w' = used w)"

definition calm :: "'w dash_env \<Rightarrow> ('w \<Rightarrow> leased) \<Rightarrow> ('w \<Rightarrow> lease set) \<Rightarrow> bool" where
  "calm E lview used \<longleftrightarrow>
     etcd_answers (de_cli E) lview used \<and> quiet lview used (rpc_UidLogout (de_rpc E)) \<and>
     quiet lview used (rpc_Check (de_rpc E)) \<and> (\<forall>t. rpc_Dial (de_rpc E) t Insecure = None)"

text \<open>The process is ready for the next request: nobody holds its lock and its clients are dialled.\<close>

definition dash_ready :: "('w \<Rightarrow> leased) \<Rightarrow> ('w \<Rightarrow> lease set) \<Rightarrow> 'w dash \<Rightarrow> bool" where
  "dash_ready lview used d \<longleftrightarrow>
     tidy lview used (ds_world d) \<and> lview (ds_world d) DashEpLock = None \<and>
     dialled (scm_cliMap (ds_sc d))"

definition assigned :: "('w \<Rightarrow> leased) \<Rightarrow> 'w dash \<Rightarrow> string \<Rightarrow> string option" where
  "assigned lview d uid = map_option fst (lview (ds_world d) (ep_key uid))"

text \<open>What a server answers to the health check in a world.\<close>

definition healthy :: "'w dash_env \<Rightarrow> string \<Rightarrow> 'w \<Rightarrow> bool" where
  "healthy E ep w =
     (case rpc_Check (de_rpc E) ep \<lparr>hcq_Service = ''''\<rparr> w of
        Some ((Some x, None), w') \<Rightarrow> hcr_Status x = SERVING
      | _ \<Rightarrow> False)"

text \<open>The keys after the user was given an endpoint, having had \<open>old\<close>.\<close>

definition assign_keys :: "string \<Rightarrow> string option \<Rightarrow> string \<Rightarrow> leased \<Rightarrow> leased" where
  "assign_keys uid old ep m =
     (case old of
        None \<Rightarrow> m(ep_key uid \<mapsto> (ep, None), uids_key ep uid \<mapsto> ('''', None))
      | Some cur \<Rightarrow>
          (if ep = cur then m
           else m(ep_key uid \<mapsto> (ep, None), uids_key cur uid := None, uids_key ep uid \<mapsto> ('''', None))))"

lemma set_world_simps [simp]:
  "ds_world (set_world w d) = w" "ds_ring (set_world w d) = ds_ring d" "ds_pause (set_world w d) = ds_pause d"
  "ds_sc (set_world w d) = ds_sc d" "ds_pc (set_world w d) = ds_pc d"
  by (simp_all add: set_world_def)

lemma etcd_update_answers:
  assumes "etcd_reliable (de_cli E) lview used" and "dash_ready lview used d" and "DashEpLock \<notin> kv_Key ` set kvs"
  shows "\<exists>d'. etcd_update E kvs d = Some (Ok (None, d')) \<and> dash_ready lview used d' \<and>
     lview (ds_world d') = fold apply_kv kvs (lview (ds_world d)) \<and>
     ds_ring d' = ds_ring d \<and> ds_pause d' = ds_pause d"
proof -
  from AtomicMultiKVOp_answers [OF assms(1), of "ds_etcd d" DashEpLock kvs] assms(2,3) obtain st' where
    "AtomicMultiKVOp (de_cli E) DashEpLock kvs (ds_etcd d) = Some (None, st')"
    "lview (es_world st') = fold apply_kv kvs (lview (ds_world d))" "tidy lview used (es_world st')"
    by (auto simp: dash_ready_def)
  moreover have "fold apply_kv kvs (lview (ds_world d)) DashEpLock = None"
    using fold_apply_kv_other [OF assms(3)] assms(2) by (simp add: dash_ready_def)
  ultimately show ?thesis using assms(2) by (auto simp: etcd_update_def dash_ready_def)
qed

lemma addEpInfo_answers:
  assumes "etcd_reliable (de_cli E) lview used" and "dash_ready lview used d"
  shows "\<exists>d'. addEpInfo E uid ep d = Some (Ok (None, d')) \<and> dash_ready lview used d' \<and>
     lview (ds_world d') = assign_keys uid None ep (lview (ds_world d)) \<and>
     ds_ring d' = ds_ring d \<and> ds_pause d' = ds_pause d"
  using etcd_update_answers [OF assms, of
      "[\<lparr>kv_Op = OP_PUT, kv_Key = ep_key uid, kv_Value = ep\<rparr>,
        \<lparr>kv_Op = OP_PUT, kv_Key = uids_key ep uid, kv_Value = ''''\<rparr>]"]
  by (simp add: addEpInfo_def assign_keys_def apply_kv_def)

lemma updateEpInfo_answers:
  assumes "etcd_reliable (de_cli E) lview used" and "dash_ready lview used d" and "ep \<noteq> cur"
  shows "\<exists>d'. updateEpInfo E uid cur ep d = Some (Ok (None, d')) \<and> dash_ready lview used d' \<and>
     lview (ds_world d') = assign_keys uid (Some cur) ep (lview (ds_world d)) \<and>
     ds_ring d' = ds_ring d \<and> ds_pause d' = ds_pause d"
  using etcd_update_answers [OF assms(1,2), of
      "[\<lparr>kv_Op = OP_PUT, kv_Key = ep_key uid, kv_Value = ep\<rparr>,
        \<lparr>kv_Op = OP_DEL, kv_Key = uids_key cur uid, kv_Value = ''''\<rparr>,
        \<lparr>kv_Op = OP_PUT, kv_Key = uids_key ep uid, kv_Value = ''''\<rparr>]"] assms(3)
  by (simp add: updateEpInfo_def assign_keys_def apply_kv_def OP_PUT_def OP_DEL_def)

text \<open>The calls of server controllers.\<close>

lemma scm_ensure_dialled:
  assumes "\<forall>t. rpc_Dial R t Insecure = None" and "dialled (scm_cliMap m)"
  shows "\<exists>m'. scm_ensureCliExists R ep m = Ok m' \<and> scm_cliMap m' ep = Some (ClientOf ep) \<and>
     dialled (scm_cliMap m')"
proof -
  have dial: "newSCServerCli R e = Ok (ClientOf e)" for e using assms(1) by (simp add: newSCServerCli_def)
  have iff: "dialled (scm_cliMap k) \<longleftrightarrow> (\<forall>e c. scm_cliMap k e = Some c \<longrightarrow> newSCServerCli R e = Ok c)" for k
    by (auto simp: dial dialled_def)
  from scm.ensure_dials [OF assms(2) [unfolded iff] dial] show ?thesis by (simp add: iff)
qed

lemma scm_ensure_calm:
  assumes "calm E lview used" and "dash_ready lview used d"
  shows "\<exists>m. scm_ensureCliExists (de_rpc E) ep (ds_sc d) = Ok m \<and> scm_cliMap m ep = Some (ClientOf ep) \<and>
     dialled (scm_cliMap m)"
proof (rule scm_ensure_dialled)
  show "\<forall>t. rpc_Dial (de_rpc E) t Insecure = None" using assms(1) by (simp add: calm_def)
  show "dialled (scm_cliMap (ds_sc d))" using assms(2) by (simp add: dash_ready_def)
qed

lemma scm_Check_calm:
  assumes "calm E lview used" and "dash_ready lview used d"
  shows "\<exists>resp err m w'. scm_Check (de_rpc E) ep \<lparr>hcq_Service = ''''\<rparr> (ds_sc d, w) = Some (Ok ((resp, err), m, w')) \<and>
     (err = None \<longrightarrow> resp \<noteq> None) \<and>
     (healthy E ep w \<longleftrightarrow> err = None \<and> (\<exists>x. resp = Some x \<and> hcr_Status x = SERVING)) \<and>
     lview w' = lview w \<and> used w' = used w \<and> dialled (scm_cliMap m)"
proof -
  obtain m where m: "scm_ensureCliExists (de_rpc E) ep (ds_sc d) = Ok m" "scm_cliMap m ep = Some (ClientOf ep)"
    "dialled (scm_cliMap m)"
    using scm_ensure_calm [OF assms] by blast
  obtain r err w' where c: "rpc_Check (de_rpc E) ep \<lparr>hcq_Service = ''''\<rparr> w = Some ((r, err), w')"
    "err = None \<longrightarrow> r \<noteq> None" "lview w' = lview w" "used w' = used w"
    using assms(1) unfolding calm_def quiet_def by blast
  have "healthy E ep w \<longleftrightarrow> err = None \<and> (\<exists>x. r = Some x \<and> hcr_Status x = SERVING)"
    using c(1) by (auto simp: healthy_def split: option.splits)
  with m c show ?thesis by (simp add: scm_Check_def)
qed

lemma scm_UidLogout_calm:
  assumes "calm E lview used" and "dash_ready lview used d"
  shows "\<exists>ans m w'. scm_UidLogout (de_rpc E) ep req (ds_sc d, w) = Some (Ok (ans, m, w')) \<and>
     lview w' = lview w \<and> used w' = used w \<and> dialled (scm_cliMap m)"
proof -
  obtain m where m: "scm_ensureCliExists (de_rpc E) ep (ds_sc d) = Ok m" "scm_cliMap m ep = Some (ClientOf ep)"
    "dialled (scm_cliMap m)"
    using scm_ensure_calm [OF assms] by blast
  obtain r w' where "rpc_UidLogout (de_rpc E) ep req w = Some (r, w')" "lview w' = lview w" "used w' = used w"
    using assms(1) unfolding calm_def quiet_def by blast
  with m show ?thesis by (simp add: scm_UidLogout_def)
qed

lemma waitUid_free: "\<not> uidSuspensive uid pm \<Longrightarrow> waitUid uid pm = Some (Ok ())"
  by (simp add: waitUid.simps)

lemma waitUid_suspended:
  assumes "uidSuspensive uid pm"
  shows "waitUid uid pm = None"
proof (rule ccontr)
  assume "waitUid uid pm \<noteq> None"
  then obtain r where "waitUid uid pm = Some r" by blast
  then have "\<not> uidSuspensive uid pm"
    by (induction rule: waitUid.raw_induct [rotated, consumes 1, case_names step]) (auto split: if_splits)
  with assms show False by simp
qed

lemma ready_world:
  "dash_ready lview used d \<Longrightarrow> lview w = lview (ds_world d) \<Longrightarrow> used w = used (ds_world d) \<Longrightarrow>
     dash_ready lview used (set_world w d)"
  by (simp add: dash_ready_def tidy_def)

lemma ready_clients:
  "dash_ready lview used d \<Longrightarrow> dialled (scm_cliMap m) \<Longrightarrow>
     dash_ready lview used (d\<lparr>ds_sc := m\<rparr>)"
  by (simp add: dash_ready_def)

lemma ready_pause [simp]:
  "dash_ready lview used (uidSuspend uid d) = dash_ready lview used d"
  "dash_ready lview used (uidResume uid d) = dash_ready lview used d"
  by (simp_all add: dash_ready_def uidSuspend_def uidResume_def)
lemma move_user_calm:
  assumes "calm E lview used" and "dash_ready lview used d" and "new \<noteq> cur"
    and none: "\<forall>k. prefix (Sprintf DashUidsQueryFormat [IString cur]) k \<longrightarrow> lview (ds_world d) k = None"
  shows "\<exists>d'. move_user E uid cur new d = Some (Ok ((Some \<lparr>cqr_Resp = new\<rparr>, None), d')) \<and>
     dash_ready lview used d' \<and> lview (ds_world d') = assign_keys uid (Some cur) new (lview (ds_world d)) \<and>
     ds_ring d' = ds_ring d \<and> ds_pause d' = ds_pause d"
proof -
  have etcd: "etcd_answers (de_cli E) lview used" using assms(1) by (simp add: calm_def)
  obtain ks w where k: "ListKeyByPrefix (de_cli E) (Sprintf DashUidsQueryFormat [IString cur]) (ds_world d) = (Inr ks, w)"
    "set ks = {k. prefix (Sprintf DashUidsQueryFormat [IString cur]) k \<and> lview (ds_world d) k \<noteq> None}"
    "lview w = lview (ds_world d)" "used w = used (ds_world d)"
    using ListKeyByPrefix_answers [OF etcd] by blast
  have "set ks = {}" unfolding k(2) using none by simp
  then have ks: "ks = []" by simp
  let ?d1 = "set_world w d"
  have r1: "dash_ready lview used ?d1" using ready_world [OF assms(2)] k by simp
  obtain ans m w1 where o: "scm_UidLogout (de_rpc E) cur \<lparr>ulq_Uid = uid\<rparr> (ds_sc ?d1, w) = Some (Ok (ans, m, w1))"
    "lview w1 = lview w" "used w1 = used w" "dialled (scm_cliMap m)"
    using scm_UidLogout_calm [OF assms(1) r1] by blast
  let ?d2 = "set_world w1 (?d1\<lparr>ds_sc := m\<rparr>)"
  have "dash_ready lview used ?d2"
    using ready_world [OF ready_clients [OF r1 o(4)]] o(2,3) by (simp add: set_world_def)
  from updateEpInfo_answers [OF etcd_answers_reliable [OF etcd] this assms(3)] obtain d3 where
    d3: "updateEpInfo E uid cur new ?d2 = Some (Ok (None, d3))" "dash_ready lview used d3"
      "lview (ds_world d3) = assign_keys uid (Some cur) new (lview (ds_world d))"
      "ds_ring d3 = ds_ring d" "ds_pause d3 = ds_pause d"
    using o(2) k(3) by (auto simp: set_world_def)
  with k(1) ks o(1) show ?thesis by (simp add: move_user_def)
qed

lemma UidEndpoint_laws:
  fixes d :: "'w dash"
  assumes "calm E lview used" and "dash_ready lview used d" and "\<not> uidSuspensive uid (ds_pause d)"
    and "GetNode uid (ds_ring d) = Some (Ok (Inr node))"
    and "\<forall>cur k. assigned lview d uid = Some cur \<longrightarrow>
           prefix (Sprintf DashUidsQueryFormat [IString cur]) k \<longrightarrow> lview (ds_world d) k = None"
  shows "\<exists>d' ep w. UidEndpoint E \<lparr>cqq_Req = uid\<rparr> d = Some (Ok ((Some \<lparr>cqr_Resp = ep\<rparr>, None), d')) \<and>
     lview w = lview (ds_world d) \<and>
     ep = (case assigned lview d uid of None \<Rightarrow> node | Some cur \<Rightarrow> if healthy E node w then node else cur) \<and>
     lview (ds_world d') = assign_keys uid (assigned lview d uid) ep (lview (ds_world d)) \<and>
     assigned lview d' uid = Some ep \<and> dash_ready lview used d' \<and> ds_ring d' = ds_ring d \<and>
     (\<forall>u. uidSuspensive u (ds_pause d') = uidSuspensive u (ds_pause d))"
proof -
  have etcd: "etcd_answers (de_cli E) lview used" using assms(1) by (simp add: calm_def)
  note rel = etcd_answers_reliable [OF etcd]
  obtain w where w: "GetKV (de_cli E) (ep_key uid) (ds_world d) =
      (case lview (ds_world d) (ep_key uid) of None \<Rightarrow> (Inl ErrEmptyValue, w) | Some (v, l) \<Rightarrow> (Inr v, w))"
    "lview w = lview (ds_world d)" "used w = used (ds_world d)"
    using GetKV_answers [OF etcd] by blast
  let ?d0 = "set_world w d"
  have r0: "dash_ready lview used ?d0" using ready_world [OF assms(2)] w by simp
  note wait = waitUid_free [OF assms(3)]
  show ?thesis
  proof (cases "lview (ds_world d) (ep_key uid)")
    case None
    then have old: "assigned lview d uid = None" by (simp add: assigned_def)
    from addEpInfo_answers [OF rel r0, of uid node] obtain d' where
      d': "addEpInfo E uid node ?d0 = Some (Ok (None, d'))" "dash_ready lview used d'"
        "lview (ds_world d') = assign_keys uid None node (lview (ds_world d))"
        "ds_ring d' = ds_ring d" "ds_pause d' = ds_pause d" using w(2) by auto
    then have "assigned lview d' uid = Some node" by (simp add: assigned_def assign_keys_def)
    with d' old None w(1) wait assms(4) show ?thesis
      by (auto simp: UidEndpoint_def allocEndpoint_def intro!: exI [of _ d'] w(2))
  next
    case (Some vl)
    obtain cur l where v: "vl = (cur, l)" by (cases vl)
    with Some have old: "assigned lview d uid = Some cur" by (simp add: assigned_def)
    show ?thesis
    proof (cases "node = cur")
      case True
      with Some v old w wait assms(4) r0 show ?thesis
        by (auto simp: UidEndpoint_def assign_keys_def assigned_def)
    next
      case False
      obtain resp err m w1 where c:
        "scm_Check (de_rpc E) node \<lparr>hcq_Service = ''''\<rparr> (ds_sc ?d0, w) = Some (Ok ((resp, err), m, w1))"
        "err = None \<longrightarrow> resp \<noteq> None"
        "healthy E node w \<longleftrightarrow> err = None \<and> (\<exists>x. resp = Some x \<and> hcr_Status x = SERVING)"
        "lview w1 = lview w" "used w1 = used w" "dialled (scm_cliMap m)"
        using scm_Check_calm [OF assms(1) r0] by blast
      let ?d1 = "set_world w1 (d\<lparr>ds_sc := m\<rparr>)"
      have r1: "dash_ready lview used ?d1"
        using ready_world [OF ready_clients [OF assms(2) c(6)], of w1] c(4,5) w(2,3) by simp
      have run: "UidEndpoint E \<lparr>cqq_Req = uid\<rparr> d =
          (if healthy E node w
           then lbind (move_user E uid cur node (uidSuspend uid ?d1))
                  (\<lambda>(ans, d2). Some (Ok (ans, uidResume uid d2)))
           else Some (Ok ((Some \<lparr>cqr_Resp = cur\<rparr>, None), ?d1)))"
        using c(1,2,3) w(1) Some v wait assms(4) False
        by (cases err; cases resp) (auto simp: UidEndpoint_def Let_def)
      show ?thesis
      proof (cases "healthy E node w")
        case True
        have keys: "lview (ds_world (uidSuspend uid ?d1)) = lview (ds_world d)"
          using c(4) w(2) by (simp add: uidSuspend_def)
        have "\<forall>k. prefix (Sprintf DashUidsQueryFormat [IString cur]) k \<longrightarrow>
            lview (ds_world (uidSuspend uid ?d1)) k = None"
          unfolding keys using assms(5) old by blast
        moreover have "dash_ready lview used (uidSuspend uid ?d1)" using r1 by simp
        ultimately obtain d2 where
          "move_user E uid cur node (uidSuspend uid ?d1) = Some (Ok ((Some \<lparr>cqr_Resp = node\<rparr>, None), d2))"
          "dash_ready lview used d2"
          "lview (ds_world d2) = assign_keys uid (Some cur) node (lview (ds_world (uidSuspend uid ?d1)))"
          "ds_ring d2 = ds_ring (uidSuspend uid ?d1)" "ds_pause d2 = ds_pause (uidSuspend uid ?d1)"
          using move_user_calm [OF assms(1) _ False] by blast
        then have d2:
          "move_user E uid cur node (uidSuspend uid ?d1) = Some (Ok ((Some \<lparr>cqr_Resp = node\<rparr>, None), d2))"
          "dash_ready lview used d2" "lview (ds_world d2) = assign_keys uid (Some cur) node (lview (ds_world d))"
          "ds_ring d2 = ds_ring d" "ds_pause d2 = (ds_pause d)(uid \<mapsto> True)"
          unfolding keys by (simp_all add: uidSuspend_def)
        have "assigned lview (uidResume uid d2) uid = Some node"
          using d2(3) False by (simp add: assigned_def uidResume_def assign_keys_def)
        moreover have "uidSuspensive u (ds_pause (uidResume uid d2)) = uidSuspensive u (ds_pause d)" for u
          using d2(5) assms(3) by (simp add: uidResume_def uidSuspensive_def)
        moreover have "lview (ds_world (uidResume uid d2)) = assign_keys uid (Some cur) node (lview (ds_world d))"
          "ds_ring (uidResume uid d2) = ds_ring d"
          using d2(3,4) by (simp_all add: uidResume_def)
        ultimately show ?thesis
          using run d2(1,2) True old w(2) by (intro exI [of _ "uidResume uid d2"]) auto
      next
        case stay: False
        have "lview (ds_world ?d1) = assign_keys uid (Some cur) cur (lview (ds_world d))"
          using c(4) w(2) by (simp add: assign_keys_def)
        moreover have "assigned lview ?d1 uid = Some cur" using old c(4) w(2) by (simp add: assigned_def)
        ultimately show ?thesis
          using run r1 stay old w(2) by (intro exI [of _ ?d1]) auto
      qed
    qed
  qed
qed


text \<open>A cluster for the concrete runs: every call returns at once and changes nothing.\<close>

definition calm_rpc :: "'w grpc" where
  "calm_rpc =
     \<lparr>rpc_Dial = (\<lambda>_ _. None), rpc_ClientTLS = (\<lambda>_ _. Inr ''''),
      rpc_Login = (\<lambda>_ _ w. Some ((Some \<lparr>lir_ResponseCode = 200, lir_Token = ''''\<rparr>, None), w)),
      rpc_Logout = (\<lambda>_ _ w. Some ((Some \<lparr>lor_ResponseCode = 200\<rparr>, None), w)),
      rpc_Search = (\<lambda>_ _ w. Some ((Some \<lparr>srr_Response = [], srr_ResponseCode = 200\<rparr>, None), w)),
      rpc_Upload = (\<lambda>_ _ w. Some ((Some \<lparr>upr_ErrorMsg = '''', upr_ResponseCode = 200\<rparr>, None), w)),
      rpc_CleanUidCache = (\<lambda>_ _ w. Some ((Some \<lparr>clr_ResponseCode = 200\<rparr>, None), w)),
      rpc_UidLogout = (\<lambda>_ _ w. Some ((Some \<lparr>ulr_ResponseCode = 200\<rparr>, None), w)),
      rpc_Check = (\<lambda>_ _ w. Some ((Some \<lparr>hcr_Status = SERVING\<rparr>, None), w)),
      rpc_UidEndpoint = (\<lambda>_ _ w. Some ((None, Some (Err ''rpc error'')), w))\<rparr>"

definition calm_env :: "mem_world dash_env" where
  "calm_env = \<lparr>de_cli = mem_cli, de_rpc = calm_rpc, de_crt = ''''\<rparr>"

lemma calm_env: "calm calm_env mem_lview mem_used"
  using mem_etcd_answers by (simp add: calm_def calm_env_def quiet_def calm_rpc_def)

definition calm_dash :: "hashRing \<Rightarrow> mem_world \<Rightarrow> mem_world dash" where
  "calm_dash hr w = \<lparr>ds_ring = hr, ds_pause = Map.empty, ds_sc = \<lparr>scm_cliMap = Map.empty\<rparr>,
     ds_pc = \<lparr>pcm_cliMap = Map.empty\<rparr>, ds_etcd = \<lparr>es_world = w, es_locks = Map.empty\<rparr>\<rparr>"

lemma calm_dash_ready: "dash_ready mem_lview mem_used (calm_dash hr mem_empty)"
  using tidy_empty by (simp add: dash_ready_def calm_dash_def dialled_def mem_lview_def mem_empty_def)

lemma tiny_full_node: "key \<noteq> [] \<Longrightarrow> GetNode key tiny_full = Some (Ok (Inr ''s1''))"
proof -
  assume key: "key \<noteq> []"
  have nodes: "ring_nodes tiny_full = {''s1''}"
    using AddNode_law [OF tiny_ring_inv tiny_full_eq] by (auto simp: ring_nodes_def tiny_ring_def)
  then have "GetNode key tiny_full \<noteq> None" using ring.get_returns_iff [OF tiny_full_inv key] by simp
  then obtain x where "GetNode key tiny_full = Some x" by blast
  with ring.get_is_node [OF tiny_full_inv key this] nodes show ?thesis by simp
qed


section \<open>The index of users by endpoint\<close>

definition good_uid :: "string \<Rightarrow> bool" where
  "good_uid uid \<longleftrightarrow> uid \<noteq> [] \<and> \<not> prefix ''%!v(MISSING)'' uid"

definition indexed :: "leased \<Rightarrow> bool" where
  "indexed m \<longleftrightarrow>
     (\<forall>uid ep. slashless ep \<longrightarrow> (m (uids_key ep uid) \<noteq> None \<longleftrightarrow> map_option fst (m (ep_key uid)) = Some ep)) \<and>
     (\<forall>uid ep. map_option fst (m (ep_key uid)) = Some ep \<longrightarrow> slashless ep \<and> good_uid uid)"

lemma indexed_assign:
  assumes "indexed m" and "slashless ep" and "good_uid uid"
  shows "indexed (assign_keys uid (map_option fst (m (ep_key uid))) ep m)"
proof (cases "map_option fst (m (ep_key uid))")
  case None
  with assms show ?thesis by (auto simp: indexed_def assign_keys_def uids_key_inject)
next
  case (Some cur)
  with assms(1) have cur: "slashless cur" "\<And>a. slashless a \<Longrightarrow> m (uids_key a uid) \<noteq> None \<longleftrightarrow> a = cur"
    by (auto simp: indexed_def)
  show ?thesis
  proof (cases "ep = cur")
    case True
    with assms(1) show ?thesis unfolding Some assign_keys_def by simp
  next
    case False
    let ?m = "m(ep_key uid \<mapsto> (ep, None), uids_key cur uid := None, uids_key ep uid \<mapsto> ('''', None))"
    have val: "map_option fst (?m (ep_key u)) = (if u = uid then Some ep else map_option fst (m (ep_key u)))" for u
      by simp
    have "?m (uids_key a u) \<noteq> None \<longleftrightarrow> map_option fst (?m (ep_key u)) = Some a" if "slashless a" for a u
    proof (cases "u = uid")
      case True
      with that cur(2) [OF that] show ?thesis
        unfolding val by (auto simp: uids_key_inject assms(2) cur(1))
    next
      case False
      with that assms(1) show ?thesis
        unfolding val by (auto simp: uids_key_inject assms(2) cur(1) indexed_def)
    qed
    moreover have "slashless a \<and> good_uid u" if "map_option fst (?m (ep_key u)) = Some a" for a u
      using that assms unfolding val by (auto simp: indexed_def split: if_splits)
    ultimately have "indexed ?m" unfolding indexed_def by blast
    with False show ?thesis unfolding Some assign_keys_def by simp
  qed
qed

lemma indexed_query:
  assumes "indexed m" and "map_option fst (m (ep_key uid)) = Some cur"
    and "prefix (Sprintf DashUidsQueryFormat [IString cur]) k"
  shows "m k = None"
proof (rule ccontr)
  assume "m k \<noteq> None"
  obtain r where k: "k = uids_key cur (''%!v(MISSING)'' @ r)"
    using assms(3) by (auto simp: prefix_def uids_query_eq uids_key_eq)
  have "slashless cur" using assms(1,2) by (auto simp: indexed_def)
  with assms(1) \<open>m k \<noteq> None\<close> k have "good_uid (''%!v(MISSING)'' @ r)" by (auto simp: indexed_def)
  then show False by (simp add: good_uid_def)
qed

section \<open>Runs of a dash\<close>

text \<open>Requests for the endpoints of users, and servers that register and disappear.\<close>

datatype dash_ev = Ask string | Join string | Leave string

fun dash_step :: "'w dash_env \<Rightarrow> dash_ev \<Rightarrow> 'w dash \<Rightarrow> 'w dash outcome option" where
  "dash_step E (Ask uid) d = lbind (UidEndpoint E \<lparr>cqq_Req = uid\<rparr> d) (\<lambda>(_, d'). Some (Ok d'))"
| "dash_step E (Join addr) d =
     lbind (dash_add_server (filepath_Join [ServerRegistryPrefix, addr]) (ds_ring d)) (\<lambda>hr. Some (Ok (d\<lparr>ds_ring := hr\<rparr>)))"
| "dash_step E (Leave addr) d =
     Some (Ok (d\<lparr>ds_ring := dash_del_server (filepath_Join [ServerRegistryPrefix, addr]) (ds_ring d)\<rparr>))"

fun dash_run :: "'w dash_env \<Rightarrow> dash_ev list \<Rightarrow> 'w dash \<Rightarrow> 'w dash outcome option" where
  "dash_run E [] d = Some (Ok d)"
| "dash_run E (ev # evs) d = lbind (dash_step E ev d) (dash_run E evs)"

primrec ev_ok :: "string set \<Rightarrow> dash_ev \<Rightarrow> bool" where
  "ev_ok J (Ask uid) = good_uid uid"
| "ev_ok J (Join addr) = (plain_name addr \<and> addr \<in> J)"
| "ev_ok J (Leave addr) = plain_name addr"

lemma registry_path:
  assumes "plain_name addr"
  shows "filepath_Rel ServerRegistryPrefix (filepath_Join [ServerRegistryPrefix, addr]) = Inr addr"
proof -
  have "plain_name ''server''" by (simp add: plain_name_def)
  from Join_under [OF this assms] Rel_under [OF this assms] show ?thesis
    by (simp add: ServerRegistryPrefix_def)
qed

definition dash_inv :: "('w \<Rightarrow> leased) \<Rightarrow> ('w \<Rightarrow> lease set) \<Rightarrow> string set \<Rightarrow> 'w dash \<Rightarrow> bool" where
  "dash_inv lview used J d \<longleftrightarrow>
     ring_inv (ds_ring d) \<and> ring_nodes (ds_ring d) \<subseteq> J \<and> dash_ready lview used d \<and>
     (\<forall>u. \<not> uidSuspensive u (ds_pause d)) \<and> indexed (lview (ds_world d)) \<and>
     (\<forall>u ep. assigned lview d u = Some ep \<longrightarrow> ep \<in> J)"

text \<open>Without a node for the user, a request never returns.\<close>

lemma UidEndpoint_no_node:
  assumes "calm E lview used" and "GetNode uid (ds_ring d) = None"
  shows "UidEndpoint E \<lparr>cqq_Req = uid\<rparr> d = None"
proof (cases "uidSuspensive uid (ds_pause d)")
  case True
  then show ?thesis by (simp add: UidEndpoint_def waitUid_suspended)
next
  case False
  have etcd: "etcd_answers (de_cli E) lview used" using assms(1) by (simp add: calm_def)
  obtain w where "GetKV (de_cli E) (ep_key uid) (ds_world d) =
      (case lview (ds_world d) (ep_key uid) of None \<Rightarrow> (Inl ErrEmptyValue, w) | Some (v, l) \<Rightarrow> (Inr v, w))"
    using GetKV_answers [OF etcd] by blast
  with waitUid_free [OF False] assms(2) show ?thesis
    by (auto simp: UidEndpoint_def allocEndpoint_def split: option.split)
qed

lemma dash_step_inv:
  assumes "calm E lview used" and "dash_inv lview used J d" and "ev_ok J ev" and "\<forall>a \<in> J. plain_name a"
    and "dash_step E ev d = Some r"
  shows "\<exists>d'. r = Ok d' \<and> dash_inv lview used J d'"
proof (cases ev)
  case (Ask uid)
  let ?m = "lview (ds_world d)"
  have inv: "ring_inv (ds_ring d)" "dash_ready lview used d" "\<not> uidSuspensive uid (ds_pause d)" "indexed ?m"
    and uid: "good_uid uid" using assms(2,3) Ask by (auto simp: dash_inv_def)
  have "GetNode uid (ds_ring d) \<noteq> None"
  proof
    assume "GetNode uid (ds_ring d) = None"
    from UidEndpoint_no_node [OF assms(1) this] assms(5) Ask show False by simp
  qed
  then obtain x where "GetNode uid (ds_ring d) = Some x" by blast
  moreover have "uid \<noteq> []" using uid by (simp add: good_uid_def)
  ultimately obtain node where node: "GetNode uid (ds_ring d) = Some (Ok (Inr node))" "node \<in> ring_nodes (ds_ring d)"
    using ring.get_is_node [OF inv(1)] by blast
  have "\<forall>cur k. assigned lview d uid = Some cur \<longrightarrow>
      prefix (Sprintf DashUidsQueryFormat [IString cur]) k \<longrightarrow> ?m k = None"
    using indexed_query [OF inv(4)] by (auto simp: assigned_def)
  from UidEndpoint_laws [OF assms(1) inv(2,3) node(1) this] obtain d' ep w where
    d': "UidEndpoint E \<lparr>cqq_Req = uid\<rparr> d = Some (Ok ((Some \<lparr>cqr_Resp = ep\<rparr>, None), d'))"
      "ep = (case assigned lview d uid of None \<Rightarrow> node | Some cur \<Rightarrow> if healthy E node w then node else cur)"
      "lview (ds_world d') = assign_keys uid (assigned lview d uid) ep ?m" "assigned lview d' uid = Some ep"
      "dash_ready lview used d'" "ds_ring d' = ds_ring d"
      "\<forall>u. uidSuspensive u (ds_pause d') = uidSuspensive u (ds_pause d)" by blast
  have ep: "ep \<in> J"
    using d'(2) node(2) assms(2) by (auto simp: dash_inv_def split: option.splits if_splits)
  then have "slashless ep" using assms(4) by (auto simp: plain_name_def slashless_def)
  from indexed_assign [OF inv(4) this uid] have "indexed (lview (ds_world d'))"
    using d'(3) by (simp add: assigned_def)
  moreover have "a \<in> J" if "assigned lview d' u = Some a" for u a
  proof (cases "u = uid")
    case True
    with that d'(4) ep show ?thesis by simp
  next
    case False
    then have "assigned lview d' u = assigned lview d u"
      unfolding assigned_def d'(3) by (auto simp: assign_keys_def split: option.split)
    with that assms(2) show ?thesis by (auto simp: dash_inv_def)
  qed
  ultimately have "dash_inv lview used J d'"
    using d'(5,6,7) assms(2) unfolding dash_inv_def by auto
  with d'(1) assms(5) Ask show ?thesis by auto
next
  case (Join addr)
  have addr: "plain_name addr" "addr \<in> J" using assms(3) Join by simp_all
  have inv: "ring_inv (ds_ring d)" using assms(2) by (simp add: dash_inv_def)
  obtain x where x: "AddNode addr (ds_ring d) = Some x"
    using assms(5) Join registry_path [OF addr(1)] by (auto simp: dash_add_server_def lbind_def split: option.splits)
  obtain err hr where hr: "x = Ok (err, hr)" "ring_inv hr" "ring_nodes hr \<subseteq> insert addr (ring_nodes (ds_ring d))"
  proof (cases "addr \<in> ring_nodes (ds_ring d)")
    case True
    then show thesis using ring.add_refused [OF inv, of addr] x inv that by fastforce
  next
    case False
    have "addr \<noteq> []" using addr(1) by (simp add: plain_name_def)
    with ring.add_contract [OF inv x] False show thesis using that by blast
  qed
  then have "r = Ok (d\<lparr>ds_ring := hr\<rparr>)"
    using assms(5) Join x registry_path [OF addr(1)] by (simp add: dash_add_server_def)
  moreover have "dash_inv lview used J (d\<lparr>ds_ring := hr\<rparr>)"
    using assms(2) hr addr(2) by (auto simp: dash_inv_def dash_ready_def assigned_def)
  ultimately show ?thesis by blast
next
  case (Leave addr)
  have addr: "plain_name addr" using assms(3) Leave by simp
  have inv: "ring_inv (ds_ring d)" using assms(2) by (simp add: dash_inv_def)
  obtain err hr where x: "DelNode addr (ds_ring d) = (err, hr)" by (rule prod.exhaust)
  from DelNode_law [OF inv x] have "ring_inv hr" "ring_nodes hr \<subseteq> ring_nodes (ds_ring d)"
    by (auto simp: ring_nodes_def split: if_splits)
  then have "dash_inv lview used J (d\<lparr>ds_ring := hr\<rparr>)"
    using assms(2) by (auto simp: dash_inv_def dash_ready_def assigned_def)
  moreover have "r = Ok (d\<lparr>ds_ring := hr\<rparr>)"
    using assms(5) Leave x registry_path [OF addr] by (simp add: dash_del_server_def)
  ultimately show ?thesis by blast
qed

lemma dash_run_inv:
  assumes "calm E lview used" and "\<forall>a \<in> J. plain_name a"
  shows "dash_inv lview used J d \<Longrightarrow> \<forall>ev \<in> set evs. ev_ok J ev \<Longrightarrow> dash_run E evs d = Some r \<Longrightarrow>
     \<exists>d'. r = Ok d' \<and> dash_inv lview used J d'"
proof (induction evs arbitrary: d)
  case Nil
  then show ?case by auto
next
  case (Cons ev evs)
  then obtain x where x: "dash_step E ev d = Some x" by (auto simp: lbind_def split: option.splits)
  from dash_step_inv [OF assms(1) Cons.prems(1) _ assms(2) x] Cons.prems(2) obtain d1 where
    "x = Ok d1" "dash_inv lview used J d1" by auto
  with Cons.IH [of d1] Cons.prems(2,3) x show ?case by simp
qed



section \<open>What the other code of the dash does\<close>

text \<open>A move cleans no proxy cache. The query for the users of the old endpoint ends in
  \<^verbatim>\<open>%!v(MISSING)\<close>; as long as no key starts with it, moving a user does the same whatever a proxy would
  do when its cache is cleaned: the proxies are not asked, and keep the old endpoint until their
  entries are 30 seconds old.\<close>

theorem move_cleans_no_cache:
  assumes "etcd_answers (de_cli E) lview used"
    and "\<forall>k. prefix (''/mysh/dash/endpoint/'' @ cur @ ''/uids/%!v(MISSING)'') k \<longrightarrow> lview (ds_world d) k = None"
  shows "move_user (E\<lparr>de_rpc := (de_rpc E)\<lparr>rpc_CleanUidCache := f\<rparr>\<rparr>) uid cur new d = move_user E uid cur new d"
proof -
  let ?F = "E\<lparr>de_rpc := (de_rpc E)\<lparr>rpc_CleanUidCache := f\<rparr>\<rparr>"
  have logout: "scm_UidLogout ((de_rpc E)\<lparr>rpc_CleanUidCache := f\<rparr>) ep req mw = scm_UidLogout (de_rpc E) ep req mw"
    for ep req mw
    by (simp add: scm_UidLogout_def scm_ensureCliExists_def newSCServerCli_def)
  have update: "updateEpInfo ?F u a b d' = updateEpInfo E u a b d'" for u a b d'
    by (simp add: updateEpInfo_def etcd_update_def)
  have none: "\<forall>k. prefix (Sprintf DashUidsQueryFormat [IString cur]) k \<longrightarrow> lview (ds_world d) k = None"
    using assms(2) by (simp add: uids_query_eq)
  obtain ks w where k: "ListKeyByPrefix (de_cli E) (Sprintf DashUidsQueryFormat [IString cur]) (ds_world d) = (Inr ks, w)"
    "set ks = {k. prefix (Sprintf DashUidsQueryFormat [IString cur]) k \<and> lview (ds_world d) k \<noteq> None}"
    using ListKeyByPrefix_answers [OF assms(1)] by blast
  have "set ks = {}" unfolding k(2) using none by simp
  with k(1) show ?thesis by (simp add: move_user_def logout update)
qed

theorem move_cleans_no_cache_witness:
  "move_user (calm_env\<lparr>de_rpc := calm_rpc\<lparr>rpc_CleanUidCache := (\<lambda>_ _ _. None)\<rparr>\<rparr>) ''bob'' ''s1'' ''s2''
       (calm_dash tiny_full mem_empty) =
     move_user calm_env ''bob'' ''s1'' ''s2'' (calm_dash tiny_full mem_empty)"
proof -
  have "etcd_answers (de_cli calm_env) mem_lview mem_used" "de_rpc calm_env = calm_rpc"
    using mem_etcd_answers by (simp_all add: calm_env_def)
  moreover have "mem_lview (ds_world (calm_dash tiny_full mem_empty)) k = None" for k
    by (simp add: calm_dash_def mem_lview_def mem_empty_def)
  ultimately show ?thesis
    using move_cleans_no_cache [of calm_env mem_lview mem_used "''s1''" "calm_dash tiny_full mem_empty"
        "\<lambda>_ _ _. None" "''bob''" "''s2''"] by simp
qed

text \<open>Without servers a request never returns. If etcd answers and the ring has no node,
  \<^verbatim>\<open>UidEndpoint\<close> of any user runs for ever, whether or not the user has an endpoint.\<close>

theorem UidEndpoint_without_servers:
  assumes "calm E lview used" and "ring_inv (ds_ring d)" and "ring_nodes (ds_ring d) = {}" and "uid \<noteq> []"
  shows "UidEndpoint E \<lparr>cqq_Req = uid\<rparr> d = None"
  using UidEndpoint_no_node [OF assms(1)] ring.get_returns_iff [OF assms(2,4)] assms(3) by simp

theorem UidEndpoint_without_servers_witness:
  "UidEndpoint calm_env \<lparr>cqq_Req = ''bob''\<rparr> (calm_dash tiny_ring mem_empty) = None"
  by (rule UidEndpoint_without_servers [OF calm_env])
    (simp_all add: calm_dash_def tiny_ring_inv, simp add: ring_nodes_def tiny_ring_def)

text \<open>Only the elected dash serves. Behind the interceptor a handler runs exactly if the
  stored election record can be read and names the address of this process; otherwise the request gets
  the error \<^verbatim>\<open>not leader\<close> and the process is as before.\<close>

theorem only_leader_serves:
  "\<exists>w isleader err. IsLeader time_ok (de_cli E) DashLeaderKey selfID (ds_world d) = ((isleader, err), w) \<and>
     dash_intercept time_ok E selfID handler d =
       (if isleader \<and> err = None then handler (set_world w d)
        else Some (Ok ((None, Some ErrNotLeader), set_world w d)))"
proof -
  obtain il err w where "IsLeader time_ok (de_cli E) DashLeaderKey selfID (ds_world d) = ((il, err), w)"
    by (metis surj_pair)
  then show ?thesis by (intro exI [of _ w] exI [of _ il] exI [of _ err]) (simp add: dash_intercept_def)
qed

text \<open>\<^verbatim>\<open>UidClients\<close> never answers. The stored value is decoded into a slice instead of a pointer
  to it, which the decoder refuses for every text, so every call returns an error and no response.\<close>

theorem UidClients_always_fails:
  "\<exists>err d'. UidClients syntax_error E r d = ((None, Some err), d')"
  by (auto simp: UidClients_def Unmarshal_into_slice_def split: prod.split sum.split)

text \<open>A server that registers joins the ring under its address. The key that \<^verbatim>\<open>Register\<close> stores
  for an address is read back by the callback of the dash as that address: if the address has no slash
  and the ring does not know it yet, the node is added under it, and when the key disappears the
  node is removed and the ring has its former nodes.\<close>

theorem registered_server_joins_ring:
  assumes "plain_name addr" and "ring_inv hr" and "addr \<notin> ring_nodes hr"
    and "dash_add_server (filepath_Join [ServerRegistryPrefix, addr]) hr = Some r"
  shows "\<exists>hr'. r = Ok hr' \<and> ring_inv hr' \<and> ring_nodes hr' = insert addr (ring_nodes hr) \<and>
     ring_nodes (dash_del_server (filepath_Join [ServerRegistryPrefix, addr]) hr') = ring_nodes hr"
proof -
  note path = registry_path [OF assms(1)]
  have ne: "addr \<noteq> []" using assms(1) by (simp add: plain_name_def)
  obtain x where x: "AddNode addr hr = Some x"
    using assms(4) path by (auto simp: dash_add_server_def lbind_def split: option.splits)
  from ring.add_contract [OF assms(2) x ne assms(3)] obtain hr' where
    hr': "x = Ok (None, hr')" "ring_inv hr'" "ring_nodes hr' = insert addr (ring_nodes hr)" by blast
  from ring.del_contract [OF hr'(2) _ ne] hr'(3) obtain hr2 where
    "DelNode addr hr' = (None, hr2)" "ring_nodes hr2 = ring_nodes hr' - {addr}" by blast
  with hr' x path assms(3,4) show ?thesis by (auto simp: dash_add_server_def dash_del_server_def)
qed

theorem registered_server_joins_ring_witness:
  "\<exists>hr'. dash_add_server (filepath_Join [ServerRegistryPrefix, ''s1'']) tiny_ring = Some (Ok hr') \<and>
     ring_nodes hr' = {''s1''}"
proof -
  have name: "plain_name ''s1''" by (simp add: plain_name_def)
  have "dash_add_server (filepath_Join [ServerRegistryPrefix, ''s1'']) tiny_ring = Some (Ok tiny_full)"
    using registry_path [OF name] tiny_full_eq by (simp add: dash_add_server_def)
  with registered_server_joins_ring [OF name tiny_ring_inv _ this] show ?thesis
    by (simp add: ring_nodes_def tiny_ring_def)
qed

end
