(* ===== verification/Staling_Cache.thy ===== *)
theory Staling_Cache
  imports Go_Std
begin

text \<open>
  The cache of endpoints of a proxy, \<^verbatim>\<open>stalingCache\<close> of \<^verbatim>\<open>server/server.go\<close> lines 53 to 92: a map whose
  entries are valid for 30 seconds.  The theory states what a client of such a cache relies on as a
  locale, and shows that the code provides it: a lookup returns the last value put for its key when
  that is younger than 30 seconds, although lookups delete the entries they find stale.
\<close>

section \<open>The code\<close>

text \<open>
  A point in time is a number of nanoseconds.  Every operation holds the mutex and is one step; the
  argument \<open>now\<close> is what \<^verbatim>\<open>time.Now\<close> reads in it.
\<close>

definition Second :: int where
  "Second = 1000000000"

record scNode =
  sn_val :: string
  sn_deadline :: int

record stalingCache =
  sc_cache :: "string \<rightharpoonup> scNode"

definition stale_Put :: "int \<Rightarrow> string \<Rightarrow> string \<Rightarrow> stalingCache \<Rightarrow> stalingCache" where
  "stale_Put now key val sc =
     (let node = \<lparr>sn_val = val, sn_deadline = now + Second * 30\<rparr> in
      sc\<lparr>sc_cache := (sc_cache sc)(key \<mapsto> node)\<rparr>)"

definition stale_Get :: "int \<Rightarrow> string \<Rightarrow> stalingCache \<Rightarrow> (string \<times> bool) \<times> stalingCache" where
  "stale_Get now key sc =
     (case sc_cache sc key of
        Some node \<Rightarrow>
          (if now < sn_deadline node then ((sn_val node, True), sc)
           else (('''', False), sc\<lparr>sc_cache := (sc_cache sc)(key := None)\<rparr>))
      | None \<Rightarrow> (('''', False), sc))"

definition stale_Del :: "string \<Rightarrow> stalingCache \<Rightarrow> stalingCache" where
  "stale_Del key sc = sc\<lparr>sc_cache := (sc_cache sc)(key := None)\<rparr>"

definition stale_empty :: stalingCache where
  "stale_empty = \<lparr>sc_cache = Map.empty\<rparr>"

section \<open>The contract of an expiring cache\<close>

text \<open>
  The operations with the times at which they run, and the reference: a map that remembers the last
  put of every key that was not deleted since, with its time.
\<close>

datatype cache_op = CPut string string | CGet string | CDel string

fun last_put :: "int \<times> cache_op \<Rightarrow> (string \<rightharpoonup> int \<times> string) \<Rightarrow> string \<rightharpoonup> int \<times> string" where
  "last_put (now, CPut k v) m = m(k \<mapsto> (now, v))"
| "last_put (now, CGet k) m = m"
| "last_put (now, CDel k) m = m(k := None)"

definition alive :: "int \<Rightarrow> int \<Rightarrow> (int \<times> string) option \<Rightarrow> string option" where
  "alive life t r = (case r of None \<Rightarrow> None | Some (now, v) \<Rightarrow> if t < now + life then Some v else None)"

text \<open>
  \<open>fresh c t k\<close> is what the cache \<open>c\<close> can still return for the key \<open>k\<close> at the time \<open>t\<close>.  The laws
  describe it at later times only: the clock does not go back.
\<close>

locale expiring_cache =
  fixes fresh :: "'c \<Rightarrow> int \<Rightarrow> string \<Rightarrow> string option"
    and empty :: "'c"
    and put :: "int \<Rightarrow> string \<Rightarrow> string \<Rightarrow> 'c \<Rightarrow> 'c"
    and get :: "int \<Rightarrow> string \<Rightarrow> 'c \<Rightarrow> (string \<times> bool) \<times> 'c"
    and del :: "string \<Rightarrow> 'c \<Rightarrow> 'c"
    and life :: int
  assumes fresh_empty: "fresh empty t k = None"
    and fresh_put: "fresh (put now k v c) t j =
          (if j = k then if t < now + life then Some v else None else fresh c t j)"
    and get_result: "fst (get now k c) = (case fresh c now k of Some v \<Rightarrow> (v, True) | None \<Rightarrow> ('''', False))"
    and fresh_get: "now \<le> t \<Longrightarrow> fresh (snd (get now k c)) t j = fresh c t j"
    and fresh_del: "fresh (del k c) t j = (if j = k then None else fresh c t j)"
begin

fun step :: "int \<times> cache_op \<Rightarrow> 'c \<Rightarrow> 'c" where
  "step (now, CPut k v) c = put now k v c"
| "step (now, CGet k) c = snd (get now k c)"
| "step (now, CDel k) c = del k c"

lemma alive_run:
  assumes "\<forall>op \<in> set ops. fst op \<le> t" and "\<forall>k. fresh c t k = alive life t (m k)"
  shows "\<forall>k. fresh (fold step ops c) t k = alive life t (fold last_put ops m k)"
  using assms
proof (induction ops arbitrary: c m)
  case (Cons op ops)
  obtain now x where op: "op = (now, x)" by (cases op)
  have "\<forall>k. fresh (step op c) t k = alive life t (last_put op m k)"
    using Cons.prems by (cases x) (auto simp: op fresh_put fresh_get fresh_del alive_def)
  with Cons.IH Cons.prems show ?case by simp
qed simp

lemma get_run:
  assumes "\<forall>op \<in> set ops. fst op \<le> t"
  shows "fst (get t k (fold step ops empty)) =
    (case alive life t (fold last_put ops Map.empty k) of Some v \<Rightarrow> (v, True) | None \<Rightarrow> ('''', False))"
  using alive_run [OF assms, of empty Map.empty]
  by (simp add: get_result fresh_empty alive_def)

end

section \<open>The code provides it\<close>

definition stale_fresh :: "stalingCache \<Rightarrow> int \<Rightarrow> string \<Rightarrow> string option" where
  "stale_fresh sc t k =
     (case sc_cache sc k of None \<Rightarrow> None | Some n \<Rightarrow> if t < sn_deadline n then Some (sn_val n) else None)"

interpretation stale: expiring_cache stale_fresh stale_empty stale_Put stale_Get stale_Del "Second * 30"
  by unfold_locales
    (auto simp: stale_fresh_def stale_empty_def stale_Put_def stale_Get_def stale_Del_def Let_def
      split: option.splits)

fun stale_step :: "int \<times> cache_op \<Rightarrow> stalingCache \<Rightarrow> stalingCache" where
  "stale_step (now, CPut k v) c = stale_Put now k v c"
| "stale_step (now, CGet k) c = snd (stale_Get now k c)"
| "stale_step (now, CDel k) c = stale_Del k c"

lemma stale_step_eq: "stale_step op c = stale.step op c"
  by (cases "(op, c)" rule: stale_step.cases) simp_all

text \<open>C27: A cached endpoint is the last one put, for 30 seconds. After any sequence of operations
  of the proxy's cache, a lookup at a time not before them returns the value of the last \<^verbatim>\<open>Put\<close> of its
  key if there was no \<^verbatim>\<open>Del\<close> since and that \<^verbatim>\<open>Put\<close> is less than 30 seconds old, and otherwise reports
  a miss; the lookups in between, which delete the stale entries they find, change nothing.\<close>

theorem cache_Get_is_last_Put:
  assumes "\<forall>op \<in> set ops. fst op \<le> t"
  shows "fst (stale_Get t k (fold stale_step ops stale_empty)) =
    (case alive (Second * 30) t (fold last_put ops Map.empty k) of
       Some v \<Rightarrow> (v, True) | None \<Rightarrow> ('''', False))"
  using stale.get_run [OF assms] by (simp add: stale_step_eq [abs_def])

theorem cache_Get_is_last_Put_witness:
  "fst (stale_Get (Second * 40) ''bob'' (fold stale_step
      [(0, CPut ''bob'' ''s1''), (Second * 20, CPut ''bob'' ''s2''), (Second * 35, CGet ''amy'')] stale_empty)) =
    (''s2'', True)"
proof -
  have "\<forall>op \<in> set [(0, CPut ''bob'' ''s1''), (Second * 20, CPut ''bob'' ''s2''), (Second * 35, CGet ''amy'')].
      fst op \<le> Second * 40"
    by (simp add: Second_def)
  from cache_Get_is_last_Put [OF this, of "''bob''"] show ?thesis by (simp add: alive_def Second_def)
qed

end
