(* ===== verification/Proxy.thy ===== *)
theory Proxy
  imports Cli_Managers Etcd_Store Staling_Cache "HOL-Library.Word"
begin

text \<open>
  The proxy, \<^verbatim>\<open>server/server.go\<close> lines 912 to 1128: every request of a client is passed to the search
  server of its user, whose endpoint is looked up in a cache of 30 seconds and then at the dash leader.
  The theory shows that the proxy is transparent, how it waits for a dash leader, that the count of
  requests in flight is balanced, and which errors get lost.
\<close>

section \<open>The process\<close>

text \<open>
  \<open>px_cache\<close> and \<open>px_reqs\<close> are the package variables \<^verbatim>\<open>uidEndpointsCache\<close> and \<^verbatim>\<open>proxyReqCount\<close> (an
  \<^verbatim>\<open>int32\<close>), \<open>px_dash\<close> and \<open>px_eps\<close> the fields of \<^verbatim>\<open>ProxyServer\<close>.  The world of the other processes
  carries the clock: \<open>pe_now\<close> is \<^verbatim>\<open>time.Now\<close> and \<open>pe_sleep\<close> lets time pass.
\<close>

record 'w proxy =
  px_cache :: stalingCache
  px_reqs :: "32 word"
  px_dash :: DSCliManager
  px_eps :: EndpointCliManager
  px_world :: 'w

record 'w proxy_env =
  pe_cli :: "'w clientv3"
  pe_rpc :: "'w grpc"
  pe_time_ok :: "json \<Rightarrow> bool"
  pe_now :: "'w \<Rightarrow> int"
  pe_sleep :: "int \<Rightarrow> 'w \<Rightarrow> 'w"

definition NewProxyServer :: "'w \<Rightarrow> 'w proxy" where
  "NewProxyServer w =
     \<lparr>px_cache = stale_empty, px_reqs = 0, px_dash = \<lparr>dsm_cliMap = Map.empty\<rparr>,
      px_eps = \<lparr>ecm_cliMap = Map.empty\<rparr>, px_world = w\<rparr>"

definition px_sleep :: "'w proxy_env \<Rightarrow> int \<Rightarrow> 'w proxy \<Rightarrow> 'w proxy" where
  "px_sleep E t p = p\<lparr>px_world := pe_sleep E t (px_world p)\<rparr>"

definition px_add :: "32 word \<Rightarrow> 'w proxy \<Rightarrow> 'w proxy" where
  "px_add x p = p\<lparr>px_reqs := px_reqs p + x\<rparr>"

section \<open>Endpoints of users\<close>

definition px_uidEndpoint ::
  "'w proxy_env \<Rightarrow> string \<Rightarrow> 'w proxy \<Rightarrow> ((error + string) \<times> 'w proxy) outcome option"
where
  "px_uidEndpoint E uid p =
     (case stale_Get (pe_now E (px_world p)) uid (px_cache p) of ((ep, ok), c) \<Rightarrow>
        (let p1 = p\<lparr>px_cache := c\<rparr> in
         if ok then Some (Ok (Inr ep, p1))
         else lbind (dsm_UidEndpoint (pe_time_ok E) (pe_cli E) (pe_rpc E) \<lparr>cqq_Req = uid\<rparr>
                       (px_dash p1, px_world p1)) (\<lambda>((resp, err), m, w).
                (let p2 = p1\<lparr>px_dash := m, px_world := w\<rparr> in
                 case err of
                   Some e \<Rightarrow> Some (Ok (Inl e, p2))
                 | None \<Rightarrow>
                     (case resp of
                        None \<Rightarrow> Some (Panic nil_pointer)
                      | Some r \<Rightarrow>
                          Some (Ok (Inr (cqr_Resp r),
                            p2\<lparr>px_cache := stale_Put (pe_now E w) uid (cqr_Resp r) (px_cache p2)\<rparr>)))))))"

definition checkConnErr :: "error \<Rightarrow> bool" where
  "checkConnErr err = strings_Contains (error_msg err) ''connection error''"

definition checkLeaderUnavailableErr :: "error \<Rightarrow> bool" where
  "checkLeaderUnavailableErr err = strings_Contains (error_msg err) (error_msg ErrNotLeader)"

section \<open>Passing requests on\<close>

text \<open>The first loop of \<^verbatim>\<open>doProxy\<close>.\<close>

partial_function (option) wait_endpoint ::
  "'w proxy_env \<Rightarrow> string \<Rightarrow> 'w proxy \<Rightarrow> ((error + string) \<times> 'w proxy) outcome option"
where
  "wait_endpoint E uid p =
     lbind (px_uidEndpoint E uid p) (\<lambda>(r, p1).
       (case r of
          Inr endpoint \<Rightarrow> Some (Ok (Inr endpoint, p1))
        | Inl err \<Rightarrow>
            (if \<not> checkLeaderUnavailableErr err then Some (Ok (Inl err, p1))
             else wait_endpoint E uid (px_sleep E Second p1))))"

text \<open>
  \<open>peer\<close> is the address of the caller, if the context has one.  The closure \<open>dealFunc\<close> gets it and the
  endpoint; the variable \<open>'r\<close> is what the closure captures (the response it assigns).  The result of
  the retry after a connection error is not looked at.
\<close>

partial_function (option) doProxy ::
  "'w proxy_env \<Rightarrow> string option \<Rightarrow> string \<Rightarrow>
     (string \<Rightarrow> string \<Rightarrow> 'r \<times> 'w proxy \<Rightarrow> (error option \<times> 'r \<times> 'w proxy) outcome option) \<Rightarrow>
     'r \<Rightarrow> 'w proxy \<Rightarrow> (error option \<times> 'r \<times> 'w proxy) outcome option"
where
  "doProxy E peer uid dealFunc resp p =
     lbind (wait_endpoint E uid p) (\<lambda>(r, p1).
       (case r of
          Inl err \<Rightarrow> Some (Ok (Some err, resp, p1))
        | Inr endpoint \<Rightarrow>
            (let p2 = px_add 1 p1 in
             case peer of
               None \<Rightarrow> Some (Ok (Some (Err ''Can't get ip from peer''), resp, px_add (-1) p2))
             | Some addr \<Rightarrow>
                 lbind (dealFunc addr endpoint (resp, p2)) (\<lambda>(err, resp1, p3).
                   (case err of
                      None \<Rightarrow> Some (Ok (None, resp1, px_add (-1) p3))
                    | Some e \<Rightarrow>
                        (if \<not> checkConnErr e then Some (Ok (Some e, resp1, px_add (-1) p3))
                         else (let p4 = px_add (-1) p3;
                                   p5 = p4\<lparr>px_cache := stale_Del uid (px_cache p4)\<rparr>
                               in lbind (doProxy E peer uid dealFunc resp1 (px_sleep E Second p5))
                                    (\<lambda>(_, resp2, p6). Some (Ok (None, resp2, px_add (-1) (px_add 1 p6)))))))))))"

text \<open>A call of the search server's client, whose response and error the closures assign.\<close>

definition forward ::
  "(EndpointCliManager \<times> 'w \<Rightarrow> (('r option \<times> error option) \<times> EndpointCliManager \<times> 'w) outcome option) \<Rightarrow>
     'r option \<times> 'w proxy \<Rightarrow> (error option \<times> 'r option \<times> 'w proxy) outcome option"
where
  "forward call rp =
     (let p = snd rp in
      lbind (call (px_eps p, px_world p)) (\<lambda>((resp, err), m, w).
        Some (Ok (err, resp, p\<lparr>px_eps := m, px_world := w\<rparr>))))"

definition proxy_answer ::
  "(error option \<times> 'r option \<times> 'w proxy) outcome option \<Rightarrow>
     (('r option \<times> error option) \<times> 'w proxy) outcome option"
where
  "proxy_answer x =
     lbind x (\<lambda>(e, resp, p). Some (Ok (case e of Some err \<Rightarrow> ((None, Some err), p) | None \<Rightarrow> ((resp, None), p))))"

type_synonym ('q, 'r, 'w) proxy_handler =
  "'w proxy_env \<Rightarrow> string option \<Rightarrow> 'q \<Rightarrow> 'w proxy \<Rightarrow> (('r option \<times> error option) \<times> 'w proxy) outcome option"

definition ps_Search :: "(SearchRequest, SearchResponse, 'w) proxy_handler" where
  "ps_Search E peer req p =
     proxy_answer (doProxy E peer (srq_Uid req)
       (\<lambda>addr endpoint. forward (ecm_Search (pe_rpc E) endpoint (req\<lparr>srq_CliAddr := addr\<rparr>))) None p)"

definition ps_Upload :: "(UploadRequest, UploadResponse, 'w) proxy_handler" where
  "ps_Upload E peer req p =
     proxy_answer (doProxy E peer (upq_Uid req)
       (\<lambda>addr endpoint. forward (ecm_Upload (pe_rpc E) endpoint (req\<lparr>upq_CliAddr := addr\<rparr>))) None p)"

definition ps_Login :: "(LoginRequest, LoginResponse, 'w) proxy_handler" where
  "ps_Login E peer req p =
     proxy_answer (doProxy E peer (liq_Uid req)
       (\<lambda>addr endpoint. forward (ecm_Login (pe_rpc E) endpoint (req\<lparr>liq_CliAddr := addr\<rparr>))) None p)"

definition ps_Logout :: "(LogoutRequest, LogoutResponse, 'w) proxy_handler" where
  "ps_Logout E peer req p =
     proxy_answer (doProxy E peer (loq_Uid req)
       (\<lambda>addr endpoint. forward (ecm_Logout (pe_rpc E) endpoint (req\<lparr>loq_CliAddr := addr\<rparr>))) None p)"

section \<open>The controller of the proxy\<close>

text \<open>
  \<^verbatim>\<open>CleanUidCache\<close> running alone: it waits, with the lock of the cache, until no request is in flight.
  The interleaving with requests is the subject of \<^verbatim>\<open>Proxy_Steps\<close>.
\<close>

partial_function (option) wait_requests :: "'w proxy_env \<Rightarrow> 'w proxy \<Rightarrow> 'w proxy outcome option" where
  "wait_requests E p =
     (if px_reqs p \<noteq> 0 then wait_requests E (px_sleep E (Second div 100) p) else Some (Ok p))"

definition pc_CleanUidCache :: "(CleanRequest, CleanResponse, 'w) proxy_handler" where
  "pc_CleanUidCache E peer req p =
     lbind (wait_requests E p) (\<lambda>p1.
       Some (Ok ((Some \<lparr>clr_ResponseCode = 200\<rparr>, None), p1\<lparr>px_cache := stale_Del (clq_Uid req) (px_cache p1)\<rparr>)))"


section \<open>What a pass of the loops keeps\<close>

lemma px_simps [simp]:
  "px_reqs (px_sleep E t p) = px_reqs p" "px_cache (px_sleep E t p) = px_cache p"
  "px_eps (px_sleep E t p) = px_eps p" "px_reqs (px_add x p) = px_reqs p + x"
  "px_cache (px_add x p) = px_cache p" "px_world (px_add x p) = px_world p" "px_eps (px_add x p) = px_eps p"
  by (simp_all add: px_sleep_def px_add_def)

lemma px_uidEndpoint_keeps:
  assumes "px_uidEndpoint E uid p = Some (Ok (r, q))"
  shows "px_reqs q = px_reqs p \<and> px_eps q = px_eps p"
proof -
  obtain ep ok c where g: "stale_Get (pe_now E (px_world p)) uid (px_cache p) = ((ep, ok), c)"
    by (metis surj_pair)
  show ?thesis
  proof (cases ok)
    case True
    with assms g show ?thesis by (auto simp: px_uidEndpoint_def)
  next
    case False
    with assms g show ?thesis
      by (auto simp: px_uidEndpoint_def lbind_Ok_iff Let_def split: option.splits)
  qed
qed

lemma wait_endpoint_keeps:
  "wait_endpoint E uid p = Some r \<Longrightarrow> r = Ok (x, q) \<Longrightarrow> px_reqs q = px_reqs p \<and> px_eps q = px_eps p"
proof (induction rule: wait_endpoint.raw_induct [rotated, consumes 1, case_names step])
  case (step loop E uid p r)
  from step(2) [unfolded step(3)] obtain y p1 where
    y: "px_uidEndpoint E uid p = Some (Ok (y, p1))"
    and body: "(case y of Inr endpoint \<Rightarrow> Some (Ok (Inr endpoint, p1))
        | Inl err \<Rightarrow> if \<not> checkLeaderUnavailableErr err then Some (Ok (Inl err, p1))
                     else loop E uid (px_sleep E Second p1)) = Some (Ok (x, q))"
    by (auto simp: lbind_Ok_iff)
  from px_uidEndpoint_keeps [OF y] step(1) [of E uid "px_sleep E Second p1" "Ok (x, q)"] body show ?case
    by (auto split: sum.splits if_splits)
qed

lemma doProxy_keeps:
  "doProxy E peer uid deal resp p = Some r \<Longrightarrow> r = Ok (e, resp', q) \<Longrightarrow>
     (\<forall>a ep s p e' s' p'. deal a ep (s, p) = Some (Ok (e', s', p')) \<longrightarrow> px_reqs p' = px_reqs p) \<Longrightarrow>
     px_reqs q = px_reqs p"
proof (induction arbitrary: e resp' q rule: doProxy.raw_induct [rotated, consumes 1, case_names step])
  case (step proxy E peer uid deal resp p r)
  note deal = step(4) [rule_format]
  from step(2) [unfolded step(3)] obtain y p1 where
    y: "wait_endpoint E uid p = Some (Ok (y, p1))"
    and body: "(case y of Inl err \<Rightarrow> Some (Ok (Some err, resp, p1))
        | Inr endpoint \<Rightarrow>
            (let p2 = px_add 1 p1 in
             case peer of
               None \<Rightarrow> Some (Ok (Some (Err ''Can't get ip from peer''), resp, px_add (-1) p2))
             | Some addr \<Rightarrow>
                 lbind (deal addr endpoint (resp, p2)) (\<lambda>(err, resp1, p3).
                   (case err of
                      None \<Rightarrow> Some (Ok (None, resp1, px_add (-1) p3))
                    | Some e \<Rightarrow>
                        (if \<not> checkConnErr e then Some (Ok (Some e, resp1, px_add (-1) p3))
                         else (let p4 = px_add (-1) p3;
                                   p5 = p4\<lparr>px_cache := stale_Del uid (px_cache p4)\<rparr>
                               in lbind (proxy E peer uid deal resp1 (px_sleep E Second p5))
                                    (\<lambda>(_, resp2, p6). Some (Ok (None, resp2, px_add (-1) (px_add 1 p6)))))))))) =
      Some (Ok (e, resp', q))"
    by (auto simp: lbind_Ok_iff)
  have p1: "px_reqs p1 = px_reqs p" using wait_endpoint_keeps [OF y] by simp
  show ?case
  proof (cases y)
    case (Inl err)
    with body p1 show ?thesis by simp
  next
    case (Inr endpoint)
    show ?thesis
    proof (cases peer)
      case None
      with body Inr p1 show ?thesis by auto
    next
      case (Some addr)
      with body Inr obtain err resp1 p3 where d: "deal addr endpoint (resp, px_add 1 p1) = Some (Ok (err, resp1, p3))"
        and rest: "(case err of
                      None \<Rightarrow> Some (Ok (None, resp1, px_add (-1) p3))
                    | Some e \<Rightarrow>
                        (if \<not> checkConnErr e then Some (Ok (Some e, resp1, px_add (-1) p3))
                         else (let p4 = px_add (-1) p3;
                                   p5 = p4\<lparr>px_cache := stale_Del uid (px_cache p4)\<rparr>
                               in lbind (proxy E peer uid deal resp1 (px_sleep E Second p5))
                                    (\<lambda>(_, resp2, p6). Some (Ok (None, resp2, px_add (-1) (px_add 1 p6))))))) =
          Some (Ok (e, resp', q))"
        by (auto simp: lbind_Ok_iff)
      have p3: "px_reqs p3 = px_reqs p + 1" using deal [OF d] p1 by simp
      show ?thesis
      proof (cases "\<exists>e'. err = Some e' \<and> checkConnErr e'")
        case False
        with rest p3 show ?thesis by (auto split: option.splits if_splits)
      next
        case True
        let ?p = "px_sleep E Second ((px_add (-1) p3)\<lparr>px_cache := stale_Del uid (px_cache (px_add (-1) p3))\<rparr>)"
        from True rest obtain e2 resp2 p6 where r: "proxy E peer uid deal resp1 ?p = Some (Ok (e2, resp2, p6))"
          "q = px_add (-1) (px_add 1 p6)"
          by (auto simp: lbind_Ok_iff Let_def)
        from step(1) [OF r(1) refl step(4)] r(2) p3 show ?thesis by simp
      qed
    qed
  qed
qed

lemma forward_keeps: "forward call (s, p) = Some (Ok (e', s', p')) \<Longrightarrow> px_reqs p' = px_reqs p"
  by (auto simp: forward_def Let_def lbind_Ok_iff)

lemma answer_keeps:
  assumes "proxy_answer (doProxy E peer uid (\<lambda>a ep. forward (call a ep)) None p) = Some (Ok (ans, q))"
  shows "px_reqs q = px_reqs p"
proof -
  obtain e resp where "doProxy E peer uid (\<lambda>a ep. forward (call a ep)) None p = Some (Ok (e, resp, q))"
    using assms by (auto simp: proxy_answer_def lbind_Ok_iff split: option.splits)
  from doProxy_keeps [OF this refl] forward_keeps show ?thesis by blast
qed

text \<open>The count of requests in flight is balanced. Whatever the dash, the servers and the clock
  do, and however often a request is retried after connection errors, a handler of the proxy that
  returns leaves \<^verbatim>\<open>proxyReqCount\<close> as it found it, also when the 32 bit counter wraps around.\<close>

theorem request_count_balanced:
  "(ps_Search E peer rs p = Some (Ok (as, p')) \<longrightarrow> px_reqs p' = px_reqs p) \<and>
   (ps_Upload E peer ru p = Some (Ok (au, p')) \<longrightarrow> px_reqs p' = px_reqs p) \<and>
   (ps_Login E peer ri p = Some (Ok (ai, p')) \<longrightarrow> px_reqs p' = px_reqs p) \<and>
   (ps_Logout E peer ro p = Some (Ok (ao, p')) \<longrightarrow> px_reqs p' = px_reqs p)"
  unfolding ps_Search_def ps_Upload_def ps_Login_def ps_Logout_def
  by (intro conjI impI; erule answer_keeps)

section \<open>Waiting for the dash leader\<close>

text \<open>A pass of the loop that finds a dash which is not the leader, and the second that it sleeps.\<close>

definition misses_leader :: "'w proxy_env \<Rightarrow> string \<Rightarrow> 'w proxy \<Rightarrow> 'w proxy \<Rightarrow> bool" where
  "misses_leader E uid p p' \<longleftrightarrow>
     (\<exists>err q. px_uidEndpoint E uid p = Some (Ok (Inl err, q)) \<and> checkLeaderUnavailableErr err \<and>
        p' = px_sleep E Second q)"

lemma wait_endpoint_passes:
  "wait_endpoint E uid p = Some r \<Longrightarrow> r = Ok (x, q) \<Longrightarrow>
     \<exists>p'. (misses_leader E uid)\<^sup>*\<^sup>* p p' \<and> px_uidEndpoint E uid p' = Some (Ok (x, q)) \<and>
       (\<forall>err. x = Inl err \<longrightarrow> \<not> checkLeaderUnavailableErr err)"
proof (induction rule: wait_endpoint.raw_induct [rotated, consumes 1, case_names step])
  case (step loop E uid p r)
  from step(2) [unfolded step(3)] obtain y p1 where
    y: "px_uidEndpoint E uid p = Some (Ok (y, p1))"
    and body: "(case y of Inr endpoint \<Rightarrow> Some (Ok (Inr endpoint, p1))
        | Inl err \<Rightarrow> if \<not> checkLeaderUnavailableErr err then Some (Ok (Inl err, p1))
                     else loop E uid (px_sleep E Second p1)) = Some (Ok (x, q))"
    by (auto simp: lbind_Ok_iff)
  show ?case
  proof (cases "\<exists>err. y = Inl err \<and> checkLeaderUnavailableErr err")
    case True
    then obtain err where err: "y = Inl err" "checkLeaderUnavailableErr err" by blast
    with y have "misses_leader E uid p (px_sleep E Second p1)" by (auto simp: misses_leader_def)
    moreover from body err have "loop E uid (px_sleep E Second p1) = Some (Ok (x, q))" by simp
    ultimately show ?thesis using step(1) [OF _ refl] by (meson converse_rtranclp_into_rtranclp)
  next
    case False
    with body have "y = x" "p1 = q" by (auto split: sum.splits if_splits)
    with y False show ?thesis by blast
  qed
qed


section \<open>One request\<close>

lemma doProxy_answered:
  assumes "wait_endpoint E uid p = Some (Ok (Inr ep, p1))"
    and "call a ep (px_eps p1, px_world p1) = Some (Ok ((resp, err), m, w))"
    and "\<forall>e. err = Some e \<longrightarrow> \<not> checkConnErr e"
  shows "doProxy E (Some a) uid (\<lambda>a ep. forward (call a ep)) s p =
     Some (Ok (err, resp, p1\<lparr>px_eps := m, px_world := w\<rparr>))"
  using assms by (subst doProxy.simps) (cases err; simp add: forward_def px_add_def)

text \<open>The clients of search servers.\<close>

lemma ecm_ensure_dialled:
  assumes "\<forall>t. rpc_Dial R t Insecure = None" and "dialled (ecm_cliMap m)"
  shows "\<exists>m'. ecm_ensureCliExists R ep m = Ok m' \<and> ecm_cliMap m' ep = Some (ClientOf ep) \<and> dialled (ecm_cliMap m')"
proof -
  have dial: "newSearchServerCli R e = Ok (ClientOf e)" for e using assms(1) by (simp add: newSearchServerCli_def)
  have iff: "dialled (ecm_cliMap k) \<longleftrightarrow> (\<forall>e c. ecm_cliMap k e = Some c \<longrightarrow> newSearchServerCli R e = Ok c)" for k
    by (auto simp: dial dialled_def)
  from ecm.ensure_dials [OF assms(2) [unfolded iff] dial] show ?thesis by (simp add: iff)
qed

text \<open>A handler whose server answers, for a call that goes through the table of clients.\<close>

lemma answer_forwarded:
  assumes "wait_endpoint E uid p = Some (Ok (Inr ep, p1))"
    and "\<forall>t. rpc_Dial (pe_rpc E) t Insecure = None" and "dialled (ecm_cliMap (px_eps p))"
    and call: "\<And>m w r. ecm_ensureCliExists (pe_rpc E) ep (px_eps p1) = Ok m \<Longrightarrow>
        cli_call rpc (ecm_cliMap m ep) req (px_world p1) = Some (Ok (r, w)) \<Longrightarrow>
        call addr ep (px_eps p1, px_world p1) = Some (Ok (r, m, w))"
    and "rpc ep req (px_world p1) = Some ((resp, err), w)" and "\<forall>e. err = Some e \<longrightarrow> \<not> checkConnErr e"
  shows "\<exists>q. proxy_answer (doProxy E (Some addr) uid (\<lambda>a ep. forward (call a ep)) None p) =
       Some (Ok ((case err of None \<Rightarrow> (resp, None) | Some e \<Rightarrow> (None, Some e)), q)) \<and>
     px_world q = w \<and> px_cache q = px_cache p1 \<and> px_reqs q = px_reqs p \<and> px_dash q = px_dash p1 \<and> dialled (ecm_cliMap (px_eps q))"
proof -
  have keep: "px_reqs p1 = px_reqs p" "px_eps p1 = px_eps p" using wait_endpoint_keeps [OF assms(1)] by simp_all
  obtain m where m: "ecm_ensureCliExists (pe_rpc E) ep (px_eps p1) = Ok m" "ecm_cliMap m ep = Some (ClientOf ep)"
    "dialled (ecm_cliMap m)" using ecm_ensure_dialled [OF assms(2), of "px_eps p1" ep] assms(3) keep by auto
  then have "call addr ep (px_eps p1, px_world p1) = Some (Ok ((resp, err), m, w))"
    using call [OF m(1)] assms(5) by simp
  from doProxy_answered [where call = call, OF assms(1) this assms(6)] show ?thesis
    using m(3) keep(1) by (cases err) (simp_all add: proxy_answer_def)
qed

text \<open>The proxy is transparent. When the endpoint of the user is known and its server answers,
  not with a connection error, the client of \<^verbatim>\<open>Upload\<close> gets that answer: the response if there is no
  error and only the error otherwise.  The request reaches the server with the client's own address in
  it, and the cache, the table of dash clients and the count of requests are as after the
  lookup.\<close>

theorem Upload_is_transparent:
  assumes "wait_endpoint E (upq_Uid req) p = Some (Ok (Inr ep, p1))"
    and "\<forall>t. rpc_Dial (pe_rpc E) t Insecure = None" and "dialled (ecm_cliMap (px_eps p))"
    and "rpc_Upload (pe_rpc E) ep (req\<lparr>upq_CliAddr := addr\<rparr>) (px_world p1) = Some ((resp, err), w)"
    and "\<forall>e. err = Some e \<longrightarrow> \<not> checkConnErr e"
  shows "\<exists>q. ps_Upload E (Some addr) req p =
       Some (Ok ((case err of None \<Rightarrow> (resp, None) | Some e \<Rightarrow> (None, Some e)), q)) \<and>
     px_world q = w \<and> px_cache q = px_cache p1 \<and> px_reqs q = px_reqs p \<and> px_dash q = px_dash p1 \<and> dialled (ecm_cliMap (px_eps q))"
  unfolding ps_Upload_def
  by (rule answer_forwarded [where rpc = "rpc_Upload (pe_rpc E)" and req = "req\<lparr>upq_CliAddr := addr\<rparr>"
        and call = "\<lambda>a ep. ecm_Upload (pe_rpc E) ep (req\<lparr>upq_CliAddr := a\<rparr>)", OF assms(1,2,3) _ assms(4,5)])
    (simp add: ecm_Upload_def)

lemma Search_forwarded:
  assumes "wait_endpoint E (srq_Uid req) p = Some (Ok (Inr ep, p1))"
    and "\<forall>t. rpc_Dial (pe_rpc E) t Insecure = None" and "dialled (ecm_cliMap (px_eps p))"
    and "rpc_Search (pe_rpc E) ep (req\<lparr>srq_CliAddr := addr\<rparr>) (px_world p1) = Some ((resp, err), w)"
    and "\<forall>e. err = Some e \<longrightarrow> \<not> checkConnErr e"
  shows "\<exists>q. ps_Search E (Some addr) req p =
       Some (Ok ((case err of None \<Rightarrow> (resp, None) | Some e \<Rightarrow> (None, Some e)), q)) \<and>
     px_world q = w \<and> px_cache q = px_cache p1 \<and> px_reqs q = px_reqs p \<and> px_dash q = px_dash p1 \<and> dialled (ecm_cliMap (px_eps q))"
  unfolding ps_Search_def
  by (rule answer_forwarded [where rpc = "rpc_Search (pe_rpc E)" and req = "req\<lparr>srq_CliAddr := addr\<rparr>"
        and call = "\<lambda>a ep. ecm_Search (pe_rpc E) ep (req\<lparr>srq_CliAddr := a\<rparr>)", OF assms(1,2,3) _ assms(4,5)])
    (simp add: ecm_Search_def)

lemma Login_forwarded:
  assumes "wait_endpoint E (liq_Uid req) p = Some (Ok (Inr ep, p1))"
    and "\<forall>t. rpc_Dial (pe_rpc E) t Insecure = None" and "dialled (ecm_cliMap (px_eps p))"
    and "rpc_Login (pe_rpc E) ep (req\<lparr>liq_CliAddr := addr\<rparr>) (px_world p1) = Some ((resp, err), w)"
    and "\<forall>e. err = Some e \<longrightarrow> \<not> checkConnErr e"
  shows "\<exists>q. ps_Login E (Some addr) req p =
       Some (Ok ((case err of None \<Rightarrow> (resp, None) | Some e \<Rightarrow> (None, Some e)), q)) \<and>
     px_world q = w \<and> px_cache q = px_cache p1 \<and> px_reqs q = px_reqs p \<and> px_dash q = px_dash p1 \<and> dialled (ecm_cliMap (px_eps q))"
  unfolding ps_Login_def
  by (rule answer_forwarded [where rpc = "rpc_Login (pe_rpc E)" and req = "req\<lparr>liq_CliAddr := addr\<rparr>"
        and call = "\<lambda>a ep. ecm_Login (pe_rpc E) ep (req\<lparr>liq_CliAddr := a\<rparr>)", OF assms(1,2,3) _ assms(4,5)])
    (simp add: ecm_Login_def)

text \<open>The lookup hits a cached endpoint that is less than 30 seconds old.\<close>

lemma wait_endpoint_hit:
  assumes "stale_fresh (px_cache p) (pe_now E (px_world p)) uid = Some ep"
  shows "wait_endpoint E uid p = Some (Ok (Inr ep, p))"
proof -
  have "stale_Get (pe_now E (px_world p)) uid (px_cache p) = ((ep, True), px_cache p)"
    using assms by (auto simp: stale_fresh_def stale_Get_def split: option.splits if_splits)
  then show ?thesis by (subst wait_endpoint.simps) (simp add: px_uidEndpoint_def)
qed

text \<open>Without a cached endpoint and without a readable leader record the lookup fails at once.\<close>

lemma wait_endpoint_no_leader:
  assumes "stale_fresh (px_cache p) (pe_now E (px_world p)) uid = None"
    and "GetKV (pe_cli E) DashLeaderKey (px_world p) = (Inl err, w)" and "\<not> checkLeaderUnavailableErr err"
  shows "\<exists>q. wait_endpoint E uid p = Some (Ok (Inl err, q)) \<and> px_world q = w \<and> px_reqs q = px_reqs p"
proof -
  obtain c where "stale_Get (pe_now E (px_world p)) uid (px_cache p) = (('''', False), c)"
    using assms(1) by (auto simp: stale_fresh_def stale_Get_def split: option.splits if_splits)
  with assms(2,3) show ?thesis
    by (subst wait_endpoint.simps) (simp add: px_uidEndpoint_def dsm_UidEndpoint_def GetElectorID_def)
qed

text \<open>Between two leaders requests fail at once. If etcd answers and has no election record (the
  lease of the last leader ended), a request of a user whose endpoint is not cached, or is older than
  30 seconds, is refused with the error \<^verbatim>\<open>Empty value\<close>: the loop waits for a dash that says it is not
  the leader, not for a missing one.\<close>

theorem missing_leader_fails_request:
  assumes "etcd_answers (pe_cli E) lview used" and "lview (px_world p) DashLeaderKey = None"
    and "stale_fresh (px_cache p) (pe_now E (px_world p)) (upq_Uid req) = None"
  shows "\<exists>q. ps_Upload E peer req p = Some (Ok ((None, Some ErrEmptyValue), q)) \<and> lview (px_world q) = lview (px_world p)"
proof -
  obtain w where "GetKV (pe_cli E) DashLeaderKey (px_world p) = (Inl ErrEmptyValue, w)" "lview w = lview (px_world p)"
    using GetKV_answers [OF assms(1), of DashLeaderKey "px_world p"] assms(2) by auto
  moreover have "\<not> checkLeaderUnavailableErr ErrEmptyValue" by code_simp
  ultimately obtain q where "wait_endpoint E (upq_Uid req) p = Some (Ok (Inl ErrEmptyValue, q))"
    "lview (px_world q) = lview (px_world p)"
    using wait_endpoint_no_leader [OF assms(3)] by blast
  then show ?thesis by (simp add: ps_Upload_def proxy_answer_def doProxy.simps)
qed

text \<open>C37: The error of a retry is lost. If the server of the user cannot be reached and the second
  lookup of the endpoint fails, \<^verbatim>\<open>Upload\<close> reports success: no error, and the response that the failed
  call left (nil, with gRPC), because the result of the recursive call is not looked at.\<close>

theorem retry_error_is_lost:
  assumes "wait_endpoint E (upq_Uid req) p = Some (Ok (Inr ep, p1))"
    and "\<forall>t. rpc_Dial (pe_rpc E) t Insecure = None" and "dialled (ecm_cliMap (px_eps p))"
    and "rpc_Upload (pe_rpc E) ep (req\<lparr>upq_CliAddr := addr\<rparr>) (px_world p1) = Some ((resp, Some e), w)"
    and "checkConnErr e"
    and "\<And>p2. px_world p2 = pe_sleep E Second w \<Longrightarrow> px_cache p2 = stale_Del (upq_Uid req) (px_cache p1) \<Longrightarrow>
           \<exists>err q. wait_endpoint E (upq_Uid req) p2 = Some (Ok (Inl err, q))"
  shows "\<exists>q. ps_Upload E (Some addr) req p = Some (Ok ((resp, None), q))"
proof -
  have keep: "px_eps p1 = px_eps p" using wait_endpoint_keeps [OF assms(1)] by simp
  obtain m where m: "ecm_ensureCliExists (pe_rpc E) ep (px_eps p1) = Ok m" "ecm_cliMap m ep = Some (ClientOf ep)"
    using ecm_ensure_dialled [OF assms(2), of "px_eps p1" ep] assms(3) keep by auto
  let ?call = "\<lambda>a ep. ecm_Upload (pe_rpc E) ep (req\<lparr>upq_CliAddr := a\<rparr>)"
  have call: "?call addr ep (px_eps p1, px_world p1) = Some (Ok ((resp, Some e), m, w))"
    using m assms(4) by (simp add: ecm_Upload_def)
  let ?p3 = "(px_add 1 p1)\<lparr>px_eps := m, px_world := w\<rparr>"
  let ?p4 = "px_add (-1) ?p3"
  let ?p2 = "px_sleep E Second (?p4\<lparr>px_cache := stale_Del (upq_Uid req) (px_cache ?p4)\<rparr>)"
  obtain err q where q: "wait_endpoint E (upq_Uid req) ?p2 = Some (Ok (Inl err, q))"
    using assms(6) [of ?p2] by (auto simp: px_sleep_def px_add_def)
  have "doProxy E (Some addr) (upq_Uid req) (\<lambda>a ep. forward (?call a ep)) resp ?p2 = Some (Ok (Some err, resp, q))"
    by (subst doProxy.simps, subst q) simp
  then have "doProxy E (Some addr) (upq_Uid req) (\<lambda>a ep. forward (?call a ep)) None p =
      Some (Ok (None, resp, px_add (-1) (px_add 1 q)))"
    using assms(1,5) call by (subst doProxy.simps) (simp add: forward_def Let_def)
  then show ?thesis by (simp add: ps_Upload_def proxy_answer_def)
qed

section \<open>Cleaning the cache\<close>

lemma wait_requests_eq: "wait_requests E p = (if px_reqs p = 0 then Some (Ok p) else None)"
proof (cases "px_reqs p = 0")
  case True
  then show ?thesis by (simp add: wait_requests.simps)
next
  case False
  have "wait_requests E p = Some r \<Longrightarrow> px_reqs p = 0" for r
  proof (induction rule: wait_requests.raw_induct [rotated, consumes 1, case_names step])
    case (step loop E p r)
    then show ?case using step(1) [of E "px_sleep E (Second div 100) p" r] by (auto split: if_splits)
  qed
  with False show ?thesis by (cases "wait_requests E p") auto
qed

text \<open>Cleaning the cache waits for the requests in flight. Run alone, \<^verbatim>\<open>CleanUidCache\<close> returns
  exactly if no request is in flight, and then the endpoint of its user is not cached at any time while
  those of all other users are.\<close>

theorem CleanUidCache_waits:
  "(pc_CleanUidCache E peer req p = None \<longleftrightarrow> px_reqs p \<noteq> 0) \<and>
   (px_reqs p = 0 \<longrightarrow> (\<exists>q. pc_CleanUidCache E peer req p = Some (Ok ((Some \<lparr>clr_ResponseCode = 200\<rparr>, None), q)) \<and>
      (\<forall>t u. stale_fresh (px_cache q) t u = (if u = clq_Uid req then None else stale_fresh (px_cache p) t u))))"
  by (simp add: pc_CleanUidCache_def wait_requests_eq stale.fresh_del)

section \<open>Concrete runs\<close>

text \<open>A proxy on the etcd in memory whose clock stands, and the same proxy with an endpoint for \<^verbatim>\<open>bob\<close>.\<close>

definition mem_proxy_env :: "mem_world grpc \<Rightarrow> mem_world proxy_env" where
  "mem_proxy_env R =
     \<lparr>pe_cli = mem_cli, pe_rpc = R, pe_time_ok = (\<lambda>_. True), pe_now = (\<lambda>_. 0), pe_sleep = (\<lambda>_ w. w)\<rparr>"

definition bob_proxy :: "mem_world proxy" where
  "bob_proxy = (NewProxyServer mem_empty)\<lparr>px_cache := stale_Put 0 ''bob'' ''s1'' stale_empty\<rparr>"

definition bob_upload :: UploadRequest where
  "bob_upload = \<lparr>upq_Uid = ''bob'', upq_Record = ''ls'', upq_Token = ''t'', upq_CliAddr = ''''\<rparr>"

lemma bob_hit: "wait_endpoint (mem_proxy_env R) ''bob'' bob_proxy = Some (Ok (Inr ''s1'', bob_proxy))"
  by (rule wait_endpoint_hit)
    (simp add: bob_proxy_def mem_proxy_env_def stale_fresh_def stale_Put_def Second_def)

lemma bob_dialled: "dialled (ecm_cliMap (px_eps bob_proxy))"
  by (simp add: bob_proxy_def NewProxyServer_def dialled_def)

text \<open>The remote end answers an upload with the given response and error.\<close>

definition upload_rpc :: "UploadResponse option \<times> error option \<Rightarrow> mem_world grpc" where
  "upload_rpc r =
     \<lparr>rpc_Dial = (\<lambda>_ _. None), rpc_ClientTLS = (\<lambda>_ _. Inr ''''),
      rpc_Login = (\<lambda>_ _ w. None), rpc_Logout = (\<lambda>_ _ w. None), rpc_Search = (\<lambda>_ _ w. None),
      rpc_Upload = (\<lambda>_ _ w. Some (r, w)), rpc_CleanUidCache = (\<lambda>_ _ w. None),
      rpc_UidLogout = (\<lambda>_ _ w. None), rpc_Check = (\<lambda>_ _ w. None), rpc_UidEndpoint = (\<lambda>_ _ w. None)\<rparr>"

theorem Upload_is_transparent_witness:
  "\<exists>q. ps_Upload (mem_proxy_env (upload_rpc (Some \<lparr>upr_ErrorMsg = '''', upr_ResponseCode = 200\<rparr>, None)))
     (Some ''1.2.3.4:5'') bob_upload bob_proxy =
     Some (Ok ((Some \<lparr>upr_ErrorMsg = '''', upr_ResponseCode = 200\<rparr>, None), q))"
proof -
  let ?R = "upload_rpc (Some \<lparr>upr_ErrorMsg = '''', upr_ResponseCode = 200\<rparr>, None)"
  have hit: "wait_endpoint (mem_proxy_env ?R) (upq_Uid bob_upload) bob_proxy = Some (Ok (Inr ''s1'', bob_proxy))"
    using bob_hit by (simp add: bob_upload_def)
  have R: "\<forall>t. rpc_Dial (pe_rpc (mem_proxy_env ?R)) t Insecure = None"
    "rpc_Upload (pe_rpc (mem_proxy_env ?R)) ''s1'' (bob_upload\<lparr>upq_CliAddr := ''1.2.3.4:5''\<rparr>) (px_world bob_proxy) =
      Some ((Some \<lparr>upr_ErrorMsg = '''', upr_ResponseCode = 200\<rparr>, None), px_world bob_proxy)"
    by (simp_all add: mem_proxy_env_def upload_rpc_def)
  from Upload_is_transparent [OF hit R(1) bob_dialled R(2)] show ?thesis by auto
qed

theorem request_count_balanced_witness:
  "\<exists>q. ps_Upload (mem_proxy_env (upload_rpc (None, Some (Err ''refused'')))) (Some ''1.2.3.4:5'') bob_upload
       (px_add 7 bob_proxy) = Some (Ok ((None, Some (Err ''refused'')), q)) \<and> px_reqs q = 7"
proof -
  let ?E = "mem_proxy_env (upload_rpc (None, Some (Err ''refused'')))"
  let ?p = "px_add 7 bob_proxy"
  have "wait_endpoint ?E (upq_Uid bob_upload) ?p = Some (Ok (Inr ''s1'', ?p))"
    by (rule wait_endpoint_hit)
      (simp add: bob_proxy_def mem_proxy_env_def stale_fresh_def stale_Put_def Second_def bob_upload_def)
  moreover have "\<not> checkConnErr (Err ''refused'')" by code_simp
  ultimately obtain q where q: "ps_Upload ?E (Some ''1.2.3.4:5'') bob_upload ?p = Some (Ok ((None, Some (Err ''refused'')), q))"
    unfolding ps_Upload_def
    using answer_forwarded [of ?E "upq_Uid bob_upload" ?p "''s1''" ?p "rpc_Upload (pe_rpc ?E)"
        "bob_upload\<lparr>upq_CliAddr := ''1.2.3.4:5''\<rparr>" "\<lambda>a ep. ecm_Upload (pe_rpc ?E) ep (bob_upload\<lparr>upq_CliAddr := a\<rparr>)"
        "''1.2.3.4:5''" None "Some (Err ''refused'')" "px_world ?p"] bob_dialled
    by (auto simp: ecm_Upload_def mem_proxy_env_def upload_rpc_def)
  moreover from q have "px_reqs q = px_reqs ?p" using request_count_balanced by blast
  moreover have "px_reqs ?p = 7" by (simp add: bob_proxy_def NewProxyServer_def)
  ultimately show ?thesis by auto
qed

theorem missing_leader_fails_request_witness:
  "\<exists>q. ps_Upload (mem_proxy_env (upload_rpc (None, None))) None bob_upload (NewProxyServer mem_empty) =
     Some (Ok ((None, Some ErrEmptyValue), q))"
proof -
  let ?E = "mem_proxy_env (upload_rpc (None, None))"
  have "etcd_answers (pe_cli ?E) mem_lview mem_used" using mem_etcd_answers by (simp add: mem_proxy_env_def)
  moreover have "mem_lview (px_world (NewProxyServer mem_empty)) DashLeaderKey = None"
    by (simp add: NewProxyServer_def mem_lview_def mem_empty_def)
  moreover have "stale_fresh (px_cache (NewProxyServer mem_empty)) t u = None" for t u
    by (simp add: NewProxyServer_def stale.fresh_empty)
  ultimately show ?thesis using missing_leader_fails_request by blast
qed

theorem retry_error_is_lost_witness:
  "\<exists>q. ps_Upload (mem_proxy_env (upload_rpc (None, Some (Err ''connection error'')))) (Some ''1.2.3.4:5'')
     bob_upload bob_proxy = Some (Ok ((None, None), q))"
proof -
  let ?E = "mem_proxy_env (upload_rpc (None, Some (Err ''connection error'')))"
  have hit: "wait_endpoint ?E (upq_Uid bob_upload) bob_proxy = Some (Ok (Inr ''s1'', bob_proxy))"
    using bob_hit by (simp add: bob_upload_def)
  have R: "\<forall>t. rpc_Dial (pe_rpc ?E) t Insecure = None"
    "rpc_Upload (pe_rpc ?E) ''s1'' (bob_upload\<lparr>upq_CliAddr := ''1.2.3.4:5''\<rparr>) (px_world bob_proxy) =
      Some ((None, Some (Err ''connection error'')), mem_empty)"
    by (simp_all add: mem_proxy_env_def upload_rpc_def bob_proxy_def NewProxyServer_def)
  have conn: "checkConnErr (Err ''connection error'')" by code_simp
  have "\<exists>err q. wait_endpoint ?E (upq_Uid bob_upload) p2 = Some (Ok (Inl err, q))"
    if "px_world p2 = pe_sleep ?E Second mem_empty" "px_cache p2 = stale_Del (upq_Uid bob_upload) (px_cache bob_proxy)"
    for p2
  proof -
    have "GetKV (pe_cli ?E) DashLeaderKey (px_world p2) = (Inl ErrEmptyValue, mem_empty)"
      using that(1) by (simp add: mem_proxy_env_def GetKV_def mem_cli_def mem_get_def mem_view_def mem_empty_def)
    moreover have "\<not> checkLeaderUnavailableErr ErrEmptyValue" by code_simp
    moreover have "stale_fresh (px_cache p2) (pe_now ?E (px_world p2)) (upq_Uid bob_upload) = None"
      using that(2) by (simp add: stale.fresh_del)
    ultimately show ?thesis
      using wait_endpoint_no_leader [of p2 ?E "upq_Uid bob_upload" ErrEmptyValue mem_empty] by blast
  qed
  from retry_error_is_lost [OF hit R(1) bob_dialled R(2) conn this] show ?thesis by blast
qed

theorem CleanUidCache_waits_witness:
  "\<exists>q. pc_CleanUidCache (mem_proxy_env (upload_rpc (None, None))) None \<lparr>clq_Uid = ''bob''\<rparr> bob_proxy =
     Some (Ok ((Some \<lparr>clr_ResponseCode = 200\<rparr>, None), q)) \<and> stale_fresh (px_cache q) 0 ''bob'' = None"
proof -
  have "px_reqs bob_proxy = 0" by (simp add: bob_proxy_def NewProxyServer_def)
  with CleanUidCache_waits [of "mem_proxy_env (upload_rpc (None, None))" None "\<lparr>clq_Uid = ''bob''\<rparr>" bob_proxy]
  show ?thesis by force
qed

end
