(* ===== verification/Proxy_Steps.thy ===== *)
theory Proxy_Steps
  imports Main "HOL-Library.Word"
begin

text \<open>
  The goroutines of one proxy that share the endpoint cache, its lock and the count of requests in
  flight: requests in \<^verbatim>\<open>doProxy\<close> and \<^verbatim>\<open>uidEndpoint\<close>, and the dash's calls of \<^verbatim>\<open>CleanUidCache\<close>
  (\<^verbatim>\<open>server/server.go\<close> lines 912 to 924 and 979 to 1056), as a step relation on their common state.  A
  step is what one goroutine does between two points at which others can run; the theory \<^verbatim>\<open>Proxy\<close>
  has the same code as functions of one goroutine.
\<close>

section \<open>The goroutines\<close>

text \<open>
  Where a goroutine stands; \<open>k\<close> counts the calls of \<^verbatim>\<open>doProxy\<close> that wait for a retry to return.
  \<^item> \<open>Looking\<close>: about to read the cache; \<open>Missed\<close>: found nothing, waits for the write lock;
    \<open>Asking\<close>: holds it and waits for the answer of the dash;
  \<^item> \<open>Located\<close>: has an endpoint but is not counted yet; \<open>InFlight\<close>: counted, \<^verbatim>\<open>dealFunc\<close> runs;
    \<open>Failed\<close>: saw a connection error and gave up its count, waits for the lock to drop the entry;
  \<^item> \<open>Unwinding\<close>: a call of \<^verbatim>\<open>doProxy\<close> returned to the caller that retried; \<open>Closing\<close>: that caller
    counted itself again and is about to run its deferred decrement;
  \<^item> \<open>CleanWait\<close> and \<open>Cleaning\<close>: a call of \<^verbatim>\<open>CleanUidCache\<close> before and after it took the lock.
\<close>

datatype phase =
    Idle
  | Looking string nat
  | Missed string nat
  | Asking string nat
  | Located string string nat
  | InFlight string string nat
  | Failed string nat
  | Unwinding nat
  | Closing nat
  | CleanWait string
  | Cleaning string

text \<open>
  \<open>sy_parent\<close>: the goroutine whose question to the dash made the dash call \<^verbatim>\<open>CleanUidCache\<close>, if any;
  the dash answers the question only after that call returned.
\<close>

record proxy_sys =
  sy_phase :: "nat \<Rightarrow> phase"
  sy_parent :: "nat \<rightharpoonup> nat"
  sy_writer :: "nat option"
  sy_cache :: "string \<rightharpoonup> string"
  sy_reqs :: "32 word"

definition go :: "nat \<Rightarrow> phase \<Rightarrow> proxy_sys \<Rightarrow> proxy_sys" where
  "go p x s = s\<lparr>sy_phase := (sy_phase s)(p := x)\<rparr>"

definition sys_start :: proxy_sys where
  "sys_start = \<lparr>sy_phase = (\<lambda>_. Idle), sy_parent = Map.empty, sy_writer = None, sy_cache = Map.empty, sy_reqs = 0\<rparr>"

datatype act = Tau | Cleaned nat string

inductive px_step :: "act \<Rightarrow> proxy_sys \<Rightarrow> proxy_sys \<Rightarrow> bool" where
  arrive: "sy_phase s p = Idle \<Longrightarrow> px_step Tau s (go p (Looking u 0) s)"
| hit: "sy_phase s p = Looking u k \<Longrightarrow> sy_writer s = None \<Longrightarrow> sy_cache s u = Some ep \<Longrightarrow>
    px_step Tau s (go p (Located u ep k) s)"
| miss: "sy_phase s p = Looking u k \<Longrightarrow> sy_writer s = None \<Longrightarrow> sy_cache s u = None \<Longrightarrow>
    px_step Tau s (go p (Missed u k) s)"
| lock: "sy_phase s p = Missed u k \<Longrightarrow> sy_writer s = None \<Longrightarrow>
    px_step Tau s (go p (Asking u k) (s\<lparr>sy_writer := Some p\<rparr>))"
| answer: "sy_phase s p = Asking u k \<Longrightarrow> (\<forall>c. sy_parent s c \<noteq> Some p) \<Longrightarrow>
    px_step Tau s (go p (Located u ep k) (s\<lparr>sy_writer := None, sy_cache := (sy_cache s)(u \<mapsto> ep)\<rparr>))"
| not_leader: "sy_phase s p = Asking u k \<Longrightarrow> (\<forall>c. sy_parent s c \<noteq> Some p) \<Longrightarrow>
    px_step Tau s (go p (Looking u k) (s\<lparr>sy_writer := None\<rparr>))"
| refused: "sy_phase s p = Asking u k \<Longrightarrow> (\<forall>c. sy_parent s c \<noteq> Some p) \<Longrightarrow>
    px_step Tau s (go p (Unwinding k) (s\<lparr>sy_writer := None\<rparr>))"
| start: "sy_phase s p = Located u ep k \<Longrightarrow>
    px_step Tau s (go p (InFlight u ep k) (s\<lparr>sy_reqs := sy_reqs s + 1\<rparr>))"
| finish: "sy_phase s p = InFlight u ep k \<Longrightarrow>
    px_step Tau s (go p (Unwinding k) (s\<lparr>sy_reqs := sy_reqs s - 1\<rparr>))"
| connection_error: "sy_phase s p = InFlight u ep k \<Longrightarrow>
    px_step Tau s (go p (Failed u k) (s\<lparr>sy_reqs := sy_reqs s - 1\<rparr>))"
| retry: "sy_phase s p = Failed u k \<Longrightarrow> sy_writer s = None \<Longrightarrow>
    px_step Tau s (go p (Looking u (Suc k)) (s\<lparr>sy_cache := (sy_cache s)(u := None)\<rparr>))"
| unwind: "sy_phase s p = Unwinding (Suc k) \<Longrightarrow>
    px_step Tau s (go p (Closing k) (s\<lparr>sy_reqs := sy_reqs s + 1\<rparr>))"
| deferred: "sy_phase s p = Closing k \<Longrightarrow>
    px_step Tau s (go p (Unwinding k) (s\<lparr>sy_reqs := sy_reqs s - 1\<rparr>))"
| return: "sy_phase s p = Unwinding 0 \<Longrightarrow> px_step Tau s (go p Idle s)"
| clean_call: "sy_phase s c = Idle \<Longrightarrow> (case par of None \<Rightarrow> True | Some p \<Rightarrow> \<exists>u k. sy_phase s p = Asking u k) \<Longrightarrow>
    px_step Tau s (go c (CleanWait u) (s\<lparr>sy_parent := (sy_parent s)(c := par)\<rparr>))"
| clean_lock: "sy_phase s c = CleanWait u \<Longrightarrow> sy_writer s = None \<Longrightarrow>
    px_step Tau s (go c (Cleaning u) (s\<lparr>sy_writer := Some c\<rparr>))"
| clean: "sy_phase s c = Cleaning u \<Longrightarrow> sy_reqs s = 0 \<Longrightarrow>
    px_step (Cleaned c u) s (go c Idle (s\<lparr>sy_writer := None, sy_parent := (sy_parent s)(c := None),
      sy_cache := (sy_cache s)(u := None)\<rparr>))"
| expire: "px_step Tau s (s\<lparr>sy_cache := (sy_cache s)(u := None)\<rparr>)"

definition px_tau :: "proxy_sys \<Rightarrow> proxy_sys \<Rightarrow> bool" where
  "px_tau s t \<longleftrightarrow> (\<exists>a. px_step a s t)"

inductive_cases px_cleanedE: "px_step (Cleaned c u) s t"

section \<open>The invariant\<close>

text \<open>The goroutines that are counted, and those that hold the write lock.\<close>

fun counted :: "phase \<Rightarrow> bool" where
  "counted (InFlight u ep k) = True"
| "counted (Closing k) = True"
| "counted _ = False"

fun writing :: "phase \<Rightarrow> bool" where
  "writing (Asking u k) = True"
| "writing (Cleaning u) = True"
| "writing _ = False"

definition requests :: "proxy_sys \<Rightarrow> nat set" where
  "requests s = {p. counted (sy_phase s p)}"

definition sys_inv :: "proxy_sys \<Rightarrow> bool" where
  "sys_inv s \<longleftrightarrow>
     finite (requests s) \<and> sy_reqs s = of_nat (card (requests s)) \<and>
     (\<forall>p. writing (sy_phase s p) \<longleftrightarrow> sy_writer s = Some p)"

lemma go_simps [simp]:
  "sy_phase (go p x s) = (sy_phase s)(p := x)" "sy_parent (go p x s) = sy_parent s"
  "sy_writer (go p x s) = sy_writer s" "sy_cache (go p x s) = sy_cache s" "sy_reqs (go p x s) = sy_reqs s"
  by (simp_all add: go_def)

lemma requests_go:
  "requests (go p x s) = (if counted x then insert p (requests s) else requests s - {p})"
  by (auto simp: requests_def)

lemma requests_other [simp]:
  "requests (s\<lparr>sy_parent := a\<rparr>) = requests s" "requests (s\<lparr>sy_writer := b\<rparr>) = requests s"
  "requests (s\<lparr>sy_cache := c\<rparr>) = requests s" "requests (s\<lparr>sy_reqs := d\<rparr>) = requests s"
  by (simp_all add: requests_def)

lemma count_enter: "finite A \<Longrightarrow> p \<notin> A \<Longrightarrow> of_nat (card (insert p A)) = (of_nat (card A) + 1 :: 32 word)"
  by simp

lemma count_leave:
  assumes "finite A" and "p \<in> A"
  shows "of_nat (card (A - {p})) = (of_nat (card A) - 1 :: 32 word)"
proof -
  have "card A = Suc (card (A - {p}))" using assms by (metis card.remove)
  then show ?thesis by simp
qed

text \<open>How the writer must change when a goroutine moves from its phase to \<open>x\<close>.\<close>

definition writer_moves :: "proxy_sys \<Rightarrow> nat \<Rightarrow> phase \<Rightarrow> nat option \<Rightarrow> bool" where
  "writer_moves s p x w \<longleftrightarrow>
     (if writing x = writing (sy_phase s p) then w = sy_writer s
      else if writing x then sy_writer s = None \<and> w = Some p else w = None)"

lemma writer_moved:
  assumes "sys_inv s" and "writer_moves s p x w"
  shows "writing (((sy_phase s)(p := x)) q) \<longleftrightarrow> w = Some q"
proof -
  have "writing (sy_phase s r) \<longleftrightarrow> sy_writer s = Some r" for r using assms(1) by (simp add: sys_inv_def)
  with assms(2) show ?thesis by (auto simp: writer_moves_def split: if_splits)
qed

lemma inv_go:
  assumes "sys_inv s" and "requests t = requests s" and "sy_phase t = sy_phase s"
    and "writer_moves s p x (sy_writer t)"
    and "sy_reqs t = sy_reqs s + (if counted x then 1 else 0) - (if counted (sy_phase s p) then 1 else 0)"
  shows "sys_inv (go p x t)"
proof -
  have fin: "finite (requests s)" and n: "sy_reqs s = of_nat (card (requests s))"
    using assms(1) by (simp_all add: sys_inv_def)
  have p: "p \<in> requests s \<longleftrightarrow> counted (sy_phase s p)" by (simp add: requests_def)
  have "sy_reqs t = of_nat (card (requests (go p x t)))"
    using count_leave [OF fin, of p] count_enter [OF fin, of p] n assms(5) p
    by (auto simp: requests_go assms(2) insert_absorb)
  with writer_moved [OF assms(1,4)] fin assms(2,3) show ?thesis by (simp add: sys_inv_def requests_go)
qed

lemma px_step_inv: "px_step a s t \<Longrightarrow> sys_inv s \<Longrightarrow> sys_inv t"
proof (induction rule: px_step.induct)
  case (expire s u)
  then show ?case by (simp add: sys_inv_def)
qed (simp add: inv_go writer_moves_def)+

lemma sys_start_inv: "sys_inv sys_start"
  by (simp add: sys_inv_def sys_start_def requests_def)

lemma reachable_inv: "px_tau\<^sup>*\<^sup>* sys_start s \<Longrightarrow> sys_inv s"
  by (induction rule: rtranclp_induct) (auto simp: sys_start_inv px_tau_def dest: px_step_inv)

section \<open>Properties\<close>

text \<open>C13: The counter counts the requests and the lock excludes. In every state that any number of
  requests and cache cleanings of a proxy reach, \<^verbatim>\<open>proxyReqCount\<close> is the number of goroutines between
  the increment and the decrement of \<^verbatim>\<open>doProxy\<close> (as a 32 bit number), retries after connection errors
  included, and at most one goroutine is in a section under the write lock.\<close>

theorem requests_are_counted:
  assumes "px_tau\<^sup>*\<^sup>* sys_start s"
  shows "finite (requests s) \<and> sy_reqs s = of_nat (card (requests s)) \<and>
     (\<forall>p q. writing (sy_phase s p) \<and> writing (sy_phase s q) \<longrightarrow> p = q)"
  using reachable_inv [OF assms] by (auto simp: sys_inv_def)


text \<open>The start of a request that finds the endpoint that another one looked up, and of a cleaning.\<close>

definition sys_located :: proxy_sys where
  "sys_located = \<lparr>sy_phase = (\<lambda>_. Idle)(0 := Located ''bob'' ''s1'' 0), sy_parent = Map.empty,
     sy_writer = None, sy_cache = [''bob'' \<mapsto> ''s1''], sy_reqs = 0\<rparr>"

lemma reach_step: "px_tau\<^sup>*\<^sup>* r s \<Longrightarrow> px_step a s t \<Longrightarrow> px_tau\<^sup>*\<^sup>* r t"
  by (erule rtranclp.rtrancl_into_rtrancl) (auto simp: px_tau_def)

lemma reach_located: "px_tau\<^sup>*\<^sup>* sys_start sys_located"
proof -
  let ?s1 = "go 0 (Looking ''bob'' 0) sys_start"
  let ?s2 = "go 0 (Missed ''bob'' 0) ?s1"
  let ?s3 = "go 0 (Asking ''bob'' 0) (?s2\<lparr>sy_writer := Some 0\<rparr>)"
  let ?s4 = "go 0 (Located ''bob'' ''s1'' 0) (?s3\<lparr>sy_writer := None, sy_cache := (sy_cache ?s3)(''bob'' \<mapsto> ''s1'')\<rparr>)"
  have "px_tau\<^sup>*\<^sup>* sys_start ?s1"
    by (rule reach_step [OF rtranclp.rtrancl_refl arrive]) (simp add: sys_start_def)
  then have "px_tau\<^sup>*\<^sup>* sys_start ?s2" by (rule reach_step [OF _ miss]) (simp_all add: sys_start_def)
  then have "px_tau\<^sup>*\<^sup>* sys_start ?s3" by (rule reach_step [OF _ lock]) (simp_all add: sys_start_def)
  then have "px_tau\<^sup>*\<^sup>* sys_start ?s4" by (rule reach_step [OF _ answer]) (simp_all add: sys_start_def)
  moreover have "?s4 = sys_located" by (simp add: go_def sys_start_def sys_located_def fun_eq_iff)
  ultimately show ?thesis by simp
qed

definition sys_cleaning :: proxy_sys where
  "sys_cleaning = go 1 (Cleaning ''bob'') (sys_located\<lparr>sy_writer := Some 1\<rparr>)"

lemma reach_cleaning: "px_tau\<^sup>*\<^sup>* sys_start sys_cleaning"
proof -
  let ?s1 = "go 1 (CleanWait ''bob'') (sys_located\<lparr>sy_parent := (sy_parent sys_located)(1 := None)\<rparr>)"
  let ?s2 = "go 1 (Cleaning ''bob'') (?s1\<lparr>sy_writer := Some 1\<rparr>)"
  from reach_located have "px_tau\<^sup>*\<^sup>* sys_start ?s1" by (rule reach_step [OF _ clean_call]) (simp_all add: sys_located_def)
  then have "px_tau\<^sup>*\<^sup>* sys_start ?s2" by (rule reach_step [OF _ clean_lock]) (simp_all add: sys_located_def)
  moreover have "?s2 = sys_cleaning" by (simp add: go_def sys_cleaning_def sys_located_def fun_eq_iff)
  ultimately show ?thesis by simp
qed

theorem requests_are_counted_witness: "sy_reqs sys_cleaning = of_nat (card (requests sys_cleaning))"
  using requests_are_counted [OF reach_cleaning] by blast


text \<open>A request may go to the old server after its user was cleaned. A request that has read its
  endpoint and is not counted yet is not seen by \<^verbatim>\<open>CleanUidCache\<close>: it is reachable that the cleaning of
  a user completes, and a request of that user then goes in flight to the endpoint that was
  dropped.\<close>

theorem stale_request_after_clean:
  "\<exists>s t t'. px_tau\<^sup>*\<^sup>* sys_start s \<and> px_step (Cleaned 1 ''bob'') s t \<and> px_step Tau t t' \<and>
     sy_phase t' 0 = InFlight ''bob'' ''s1'' 0 \<and> sy_cache t' ''bob'' = None"
proof -
  let ?t = "go 1 Idle (sys_cleaning\<lparr>sy_writer := None, sy_parent := (sy_parent sys_cleaning)(1 := None),
      sy_cache := (sy_cache sys_cleaning)(''bob'' := None)\<rparr>)"
  let ?t' = "go 0 (InFlight ''bob'' ''s1'' 0) (?t\<lparr>sy_reqs := sy_reqs ?t + 1\<rparr>)"
  have "px_step (Cleaned 1 ''bob'') sys_cleaning ?t"
    by (rule clean) (simp_all add: sys_cleaning_def sys_located_def)
  moreover have "px_step Tau ?t ?t'" by (rule start) (simp add: sys_cleaning_def sys_located_def)
  moreover have "sy_phase ?t' 0 = InFlight ''bob'' ''s1'' 0 \<and> sy_cache ?t' ''bob'' = None" by simp
  ultimately show ?thesis using reach_cleaning by blast
qed


definition sys_callback :: proxy_sys where
  "sys_callback = \<lparr>sy_phase = (\<lambda>_. Idle)(0 := Asking ''bob'' 0, 1 := CleanWait ''amy''), sy_parent = [1 \<mapsto> 0],
     sy_writer = Some 0, sy_cache = Map.empty, sy_reqs = 0\<rparr>"

lemma reach_callback: "px_tau\<^sup>*\<^sup>* sys_start sys_callback"
proof -
  let ?s1 = "go 0 (Looking ''bob'' 0) sys_start"
  let ?s2 = "go 0 (Missed ''bob'' 0) ?s1"
  let ?s3 = "go 0 (Asking ''bob'' 0) (?s2\<lparr>sy_writer := Some 0\<rparr>)"
  let ?s4 = "go 1 (CleanWait ''amy'') (?s3\<lparr>sy_parent := (sy_parent ?s3)(1 := Some 0)\<rparr>)"
  have "px_tau\<^sup>*\<^sup>* sys_start ?s1"
    by (rule reach_step [OF rtranclp.rtrancl_refl arrive]) (simp add: sys_start_def)
  then have "px_tau\<^sup>*\<^sup>* sys_start ?s2" by (rule reach_step [OF _ miss]) (simp_all add: sys_start_def)
  then have "px_tau\<^sup>*\<^sup>* sys_start ?s3" by (rule reach_step [OF _ lock]) (simp_all add: sys_start_def)
  then have "px_tau\<^sup>*\<^sup>* sys_start ?s4" by (rule reach_step [OF _ clean_call]) (simp_all add: sys_start_def)
  moreover have "?s4 = sys_callback" by (simp add: go_def sys_start_def sys_callback_def fun_eq_iff)
  ultimately show ?thesis by simp
qed


end
