(* ===== verification/Lru.thy ===== *)
theory Lru
  imports Go_Std
begin

text \<open>
  The LRU cache of \<^verbatim>\<open>lru/lru.go\<close>: a hash map from the printed key to an element of a doubly
  linked list whose front is the most recently used entry.  The first part translates every
  operation; the second part states the reference behaviour on a recency list of key/value
  pairs; the third part proves that the operations keep the invariant between the map and the
  list and implement the reference (\<open>lru_abs\<close> is the abstraction), and interprets the interface
  locale \<open>lru_cache\<close> that the recorder theories build on.

  Every operation of the source takes the cache's mutex first and releases it on return, so an
  operation is one atomic step of the model.
\<close>

section \<open>The code\<close>

record 'v node =
  node_key :: iface
  node_value :: 'v

text \<open>
  \<open>lru_m\<close> maps a printed key to the identity of a list element; \<open>lru_next\<close> is the next unused
  element identity (the allocator).
\<close>

record 'v lru =
  lru_m :: "string \<rightharpoonup> nat"
  lru_l :: "'v node dlist"
  lru_capacity :: int
  lru_next :: nat

definition NewLRU :: "int \<Rightarrow> 'v lru outcome" where
  "NewLRU capacity =
     (if capacity < 1 then Panic ''capacity num is invalid''
      else Ok \<lparr>lru_m = Map.empty, lru_l = [], lru_capacity = capacity, lru_next = 0\<rparr>)"

text \<open>The loop of \<^verbatim>\<open>Filter\<close>; a key that is not a string fails the type assertion.\<close>

fun filter_loop ::
  "(string \<Rightarrow> 'v \<Rightarrow> bool) \<Rightarrow> 'v node dlist \<Rightarrow> string list \<Rightarrow> 'v list \<Rightarrow> (string list \<times> 'v list) outcome"
where
  "filter_loop f [] kList vList = Ok (kList, vList)"
| "filter_loop f (tmp # rest) kList vList =
     (case node_key (snd tmp) of
        IInt i \<Rightarrow> Panic ''interface conversion: interface {} is int, not string''
      | IString k \<Rightarrow>
          (if f k (node_value (snd tmp))
           then filter_loop f rest (kList @ [k]) (vList @ [node_value (snd tmp)])
           else filter_loop f rest kList vList))"

definition lru_Filter :: "(string \<Rightarrow> 'v \<Rightarrow> bool) \<Rightarrow> 'v lru \<Rightarrow> (string list \<times> 'v list) outcome" where
  "lru_Filter filterFunc c = filter_loop filterFunc (lru_l c) [] []"

text \<open>
  The eviction callbacks change the state \<open>'s\<close> of their owner; one that panics, exits or blocks
  ends \<^verbatim>\<open>Add\<close> the same way.
\<close>

fun run_evictions :: "('v \<Rightarrow> 's \<Rightarrow> 's outcome) list \<Rightarrow> 'v \<Rightarrow> 's \<Rightarrow> 's outcome" where
  "run_evictions [] v s = Ok s"
| "run_evictions (f # fs) v s = obind (f v s) (run_evictions fs v)"

lemma run_evictions_Nil [simp]: "run_evictions [] v = Ok"
  by (rule ext) simp

definition lru_push :: "iface \<Rightarrow> 'v \<Rightarrow> 'v lru \<Rightarrow> 'v lru" where
  "lru_push key value c =
     c\<lparr>lru_l := list_PushFront (lru_next c) \<lparr>node_key = key, node_value = value\<rparr> (lru_l c),
       lru_m := (lru_m c)(Sprint key \<mapsto> lru_next c),
       lru_next := Suc (lru_next c)\<rparr>"

definition lru_Add ::
  "iface \<Rightarrow> 'v \<Rightarrow> ('v \<Rightarrow> 's \<Rightarrow> 's outcome) list \<Rightarrow> 'v lru \<Rightarrow> 's \<Rightarrow> (bool \<times> 'v lru \<times> 's) outcome"
where
  "lru_Add key value evictionFuncs c s =
     (let keyString = Sprint key in
      case lru_m c keyString of
        Some item \<Rightarrow>
          Ok (False,
              c\<lparr>lru_l := list_MoveToFront item
                          (list_SetValue item \<lparr>node_key = IString keyString, node_value = value\<rparr>
                             (lru_l c))\<rparr>, s)
      | None \<Rightarrow>
          (if int (list_Len (lru_l c)) = lru_capacity c then
             (case list_Back (lru_l c) of
                None \<Rightarrow> Panic ''nil pointer dereference''
              | Some (lastNode, v) \<Rightarrow>
                  obind (run_evictions evictionFuncs (node_value v) s)
                    (\<lambda>s'. Ok (True,
                        lru_push key value
                          (c\<lparr>lru_l := list_Remove lastNode (lru_l c),
                             lru_m := (lru_m c)(Sprint (node_key v) := None)\<rparr>), s')))
           else Ok (False, lru_push key value c, s)))"

text \<open>
  \<^verbatim>\<open>commonGet\<close>: the value (\<^const>\<open>None\<close> for nil), whether the key was found, and the new state.
  The element found is moved in front of the front element unless \<open>peek\<close> is set or it is alone.
  An element that is not in the list would be a dangling pointer; the invariant below excludes it.
\<close>

definition commonGet :: "iface \<Rightarrow> bool \<Rightarrow> 'v lru \<Rightarrow> 'v option \<times> bool \<times> 'v lru" where
  "commonGet key peek c =
     (if list_Len (lru_l c) = 0 then (None, False, c)
      else (case lru_m c (Sprint key) of
              None \<Rightarrow> (None, False, c)
            | Some v \<Rightarrow>
                (map_option node_value (map_of (lru_l c) v), True,
                 (if \<not> peek \<and> list_Len (lru_l c) > 1 then
                    (case list_Front (lru_l c) of
                       None \<Rightarrow> c
                     | Some mark \<Rightarrow> c\<lparr>lru_l := list_MoveBefore v (fst mark) (lru_l c)\<rparr>)
                  else c))))"

definition lru_Get :: "iface \<Rightarrow> 'v lru \<Rightarrow> 'v option \<times> bool \<times> 'v lru" where
  "lru_Get key c = commonGet key False c"

definition lru_Contains :: "iface \<Rightarrow> 'v lru \<Rightarrow> bool \<times> 'v lru" where
  "lru_Contains key c = (case lru_Get key c of (value, found, c') \<Rightarrow> (found, c'))"

definition lru_Peek :: "iface \<Rightarrow> 'v lru \<Rightarrow> 'v option \<times> bool \<times> 'v lru" where
  "lru_Peek key c = commonGet key True c"

definition lru_Remove :: "iface \<Rightarrow> 'v lru \<Rightarrow> bool \<times> 'v lru" where
  "lru_Remove key c =
     (if list_Len (lru_l c) = 0 then (False, c)
      else (let keyString = Sprint key in
            case lru_m c keyString of
              None \<Rightarrow> (False, c)
            | Some v \<Rightarrow> (True, c\<lparr>lru_l := list_Remove v (lru_l c),
                                lru_m := (lru_m c)(keyString := None)\<rparr>)))"

definition lru_RemoveOldest :: "'v lru \<Rightarrow> (iface \<times> 'v) option \<times> 'v lru" where
  "lru_RemoveOldest c =
     (case list_Back (lru_l c) of
        None \<Rightarrow> (None, c)
      | Some (tail, tailNode) \<Rightarrow>
          (Some (node_key tailNode, node_value tailNode),
           c\<lparr>lru_m := (lru_m c)(Sprint (node_key tailNode) := None),
             lru_l := list_Remove tail (lru_l c)\<rparr>))"

definition lru_GetOldest :: "'v lru \<Rightarrow> (iface \<times> 'v) option" where
  "lru_GetOldest c = map_option (\<lambda>e. (node_key (snd e), node_value (snd e))) (list_Back (lru_l c))"

text \<open>
  \<^verbatim>\<open>Keys\<close>: the result slice is made with \<open>Len\<close> nil entries and then appended to, and the loop
  never advances \<open>head\<close>.
\<close>

fun keys_loop :: "nat \<Rightarrow> (nat \<times> 'v node) option \<Rightarrow> iface option list \<Rightarrow> iface option list outcome" where
  "keys_loop 0 head res = Ok res"
| "keys_loop (Suc n) head res =
     (case head of
        None \<Rightarrow> Panic ''nil pointer dereference''
      | Some e \<Rightarrow> keys_loop n head (res @ [Some (node_key (snd e))]))"

definition lru_Keys :: "'v lru \<Rightarrow> iface option list outcome" where
  "lru_Keys c =
     keys_loop (list_Len (lru_l c)) (list_Front (lru_l c)) (replicate (list_Len (lru_l c)) None)"

definition lru_Len :: "'v lru \<Rightarrow> nat" where
  "lru_Len c = list_Len (lru_l c)"

definition lru_Purge :: "'v lru \<Rightarrow> 'v lru" where
  "lru_Purge c = c\<lparr>lru_l := [], lru_m := Map.empty\<rparr>"

section \<open>The reference: a recency list\<close>

text \<open>
  The behaviour an LRU cache of \<open>n\<close> entries promises, on the list of its entries from the most
  to the least recently used.
\<close>

type_synonym 'v recency = "(string \<times> 'v) list"

definition ref_hit :: "string \<Rightarrow> 'v \<Rightarrow> 'v recency \<Rightarrow> 'v recency" where
  "ref_hit k v xs = (k, v) # filter (\<lambda>p. fst p \<noteq> k) xs"

definition ref_full :: "nat \<Rightarrow> string \<Rightarrow> 'v recency \<Rightarrow> bool" where
  "ref_full n k xs \<longleftrightarrow> k \<notin> fst ` set xs \<and> length xs = n"

definition ref_add :: "nat \<Rightarrow> string \<Rightarrow> 'v \<Rightarrow> 'v recency \<Rightarrow> 'v recency" where
  "ref_add n k v xs =
     (if k \<in> fst ` set xs then ref_hit k v xs
      else (k, v) # (if length xs = n then butlast xs else xs))"

definition ref_touch :: "string \<Rightarrow> 'v recency \<Rightarrow> 'v recency" where
  "ref_touch k xs = (case map_of xs k of None \<Rightarrow> xs | Some v \<Rightarrow> ref_hit k v xs)"

definition ref_remove :: "string \<Rightarrow> 'v recency \<Rightarrow> 'v recency" where
  "ref_remove k xs = filter (\<lambda>p. fst p \<noteq> k) xs"

section \<open>Invariant and abstraction\<close>

definition entry :: "nat \<times> 'v node \<Rightarrow> string \<times> 'v" where
  "entry e = (Sprint (node_key (snd e)), node_value (snd e))"

definition lru_abs :: "'v lru \<Rightarrow> 'v recency" where
  "lru_abs c = map entry (lru_l c)"

definition lru_cap :: "'v lru \<Rightarrow> nat" where
  "lru_cap c = nat (lru_capacity c)"

text \<open>
  The map and the list agree: a printed key is mapped to an element exactly when that element is
  in the list and carries the key.  Element identities and keys are distinct, unused identities
  are not in the list, and the list is not longer than the capacity, which is positive.
\<close>

definition lru_inv :: "'v lru \<Rightarrow> bool" where
  "lru_inv c \<longleftrightarrow>
     distinct (map fst (lru_l c)) \<and>
     distinct (map fst (lru_abs c)) \<and>
     (\<forall>k e. lru_m c k = Some e \<longleftrightarrow> (\<exists>nd. (e, nd) \<in> set (lru_l c) \<and> Sprint (node_key nd) = k)) \<and>
     (\<forall>e \<in> fst ` set (lru_l c). e < lru_next c) \<and>
     1 \<le> lru_capacity c \<and> int (length (lru_l c)) \<le> lru_capacity c"

definition string_keys :: "'v lru \<Rightarrow> bool" where
  "string_keys c \<longleftrightarrow> (\<forall>e \<in> set (lru_l c). \<exists>s. node_key (snd e) = IString s)"

section \<open>The operations keep the invariant and implement the reference\<close>

lemma lru_invD:
  assumes "lru_inv c"
  shows "distinct (map fst (lru_l c))" "distinct (map fst (lru_abs c))"
    "\<And>k e. lru_m c k = Some e \<longleftrightarrow> (\<exists>nd. (e, nd) \<in> set (lru_l c) \<and> Sprint (node_key nd) = k)"
    "\<And>e. e \<in> fst ` set (lru_l c) \<Longrightarrow> e < lru_next c"
    "1 \<le> lru_capacity c" "int (length (lru_l c)) \<le> lru_capacity c"
  using assms by (auto simp: lru_inv_def)

lemma length_lru_abs [simp]: "length (lru_abs c) = length (lru_l c)"
  by (simp add: lru_abs_def)

lemma fst_set_lru_abs:
  "k \<in> fst ` set (lru_abs c) \<longleftrightarrow> (\<exists>e nd. (e, nd) \<in> set (lru_l c) \<and> Sprint (node_key nd) = k)"
  by (force simp: lru_abs_def entry_def)

lemma lookup_None_iff: "lru_inv c \<Longrightarrow> lru_m c k = None \<longleftrightarrow> k \<notin> fst ` set (lru_abs c)"
  using lru_invD(3) [of c k] by (auto simp: fst_set_lru_abs simp flip: not_Some_eq)

lemma lookup_SomeE:
  assumes "lru_inv c" and "lru_m c k = Some e"
  obtains nd where "(e, nd) \<in> set (lru_l c)" and "map_of (lru_l c) e = Some nd"
    and "Sprint (node_key nd) = k" and "map_of (lru_abs c) k = Some (node_value nd)"
proof -
  from assms lru_invD(3) [OF assms(1)] obtain nd
    where nd: "(e, nd) \<in> set (lru_l c)" "Sprint (node_key nd) = k" by blast
  from nd have "(k, node_value nd) \<in> set (lru_abs c)" by (force simp: lru_abs_def entry_def)
  with nd assms(1) show thesis
    by (intro that [of nd]) (auto simp: lru_invD intro: map_of_is_SomeI)
qed

text \<open>An element is the one a key is mapped to exactly when it carries that key.\<close>

lemma elem_key_iff:
  assumes "lru_inv c" and "lru_m c k = Some e" and "(e', nd) \<in> set (lru_l c)"
  shows "e' = e \<longleftrightarrow> Sprint (node_key nd) = k"
proof
  assume "e' = e"
  from assms(1,2) obtain nd' where "(e, nd') \<in> set (lru_l c)" and k: "Sprint (node_key nd') = k"
    by (rule lookup_SomeE)
  with assms(3) \<open>e' = e\<close> have "nd = nd'"
    using lru_invD(1) [OF assms(1)] by (auto dest: eq_key_imp_eq_value)
  with k show "Sprint (node_key nd) = k" by simp
next
  assume "Sprint (node_key nd) = k"
  with assms(3) lru_invD(3) [OF assms(1)] have "lru_m c k = Some e'" by blast
  with assms(2) show "e' = e" by simp
qed

text \<open>Removing the element of a key from the list removes the key from the recency list.\<close>

lemma abs_list_Remove:
  assumes "lru_inv c" and "lru_m c k = Some e"
  shows "map entry (list_Remove e (lru_l c)) = ref_remove k (lru_abs c)"
proof -
  have "fst p \<noteq> e \<longleftrightarrow> fst (entry p) \<noteq> k" if "p \<in> set (lru_l c)" for p
    using elem_key_iff [OF assms, of "fst p" "snd p"] that by (simp add: entry_def)
  then have "filter (\<lambda>p. fst p \<noteq> e) (lru_l c) = filter (\<lambda>p. fst (entry p) \<noteq> k) (lru_l c)"
    by (intro filter_cong) auto
  then show ?thesis
    by (simp add: list_Remove_def ref_remove_def lru_abs_def filter_map o_def)
qed

subsection \<open>The three changes of the pair of list and map\<close>

text \<open>Dropping the element of a key.\<close>

lemma inv_drop:
  assumes "lru_inv c" and "lru_m c k = Some e"
  shows "lru_inv (c\<lparr>lru_l := list_Remove e (lru_l c), lru_m := (lru_m c)(k := None)\<rparr>)"
    (is "lru_inv ?c")
  unfolding lru_inv_def
proof (intro conjI allI)
  have abs: "lru_abs ?c = ref_remove k (lru_abs c)"
    using abs_list_Remove [OF assms] by (simp add: lru_abs_def)
  show "distinct (map fst (lru_l ?c))" and "distinct (map fst (lru_abs ?c))"
    using assms(1) by (simp_all add: lru_invD(1,2) abs ref_remove_def)
  show "\<forall>x \<in> fst ` set (lru_l ?c). x < lru_next ?c" and "1 \<le> lru_capacity ?c"
    using assms(1) lru_invD(4,5) by auto
  have "length (list_Remove e (lru_l c)) \<le> length (lru_l c)" by (simp add: list_Remove_def)
  with lru_invD(6) [OF assms(1)] show "int (length (lru_l ?c)) \<le> lru_capacity ?c" by simp
  fix k' e'
  show "(lru_m ?c k' = Some e') =
      (\<exists>nd. (e', nd) \<in> set (lru_l ?c) \<and> Sprint (node_key nd) = k')"
    using lru_invD(3) [OF assms(1), of k' e'] elem_key_iff [OF assms, of e']
    by (auto simp: list_Remove_def)
qed

text \<open>Putting the element of a key, with a new node for the same key, in front.\<close>

lemma inv_front:
  assumes "lru_inv c" and "lru_m c k = Some e" and "Sprint (node_key nd) = k"
  shows "lru_inv (c\<lparr>lru_l := (e, nd) # list_Remove e (lru_l c)\<rparr>)" (is "lru_inv ?c")
  unfolding lru_inv_def
proof (intro conjI allI)
  from assms(1,2) obtain old where old: "(e, old) \<in> set (lru_l c)" by (rule lookup_SomeE)
  have abs: "lru_abs ?c = ref_hit k (node_value nd) (lru_abs c)"
    using abs_list_Remove [OF assms(1,2)] assms(3)
    by (simp add: lru_abs_def ref_hit_def ref_remove_def entry_def)
  show "distinct (map fst (lru_l ?c))"
    using assms(1) by (auto simp: lru_invD(1) list_Remove_def)
  show "distinct (map fst (lru_abs ?c))"
    unfolding abs using assms(1) by (auto simp: lru_invD(2) ref_hit_def)
  have "e < lru_next c" using old lru_invD(4) [OF assms(1)] by force
  then show "\<forall>x \<in> fst ` set (lru_l ?c). x < lru_next ?c"
    using lru_invD(4) [OF assms(1)] by auto
  show "1 \<le> lru_capacity ?c" using lru_invD(5) [OF assms(1)] by simp
  have "length (list_Remove e (lru_l c)) < length (lru_l c)"
    using old by (simp add: list_Remove_def length_filter_less)
  with lru_invD(6) [OF assms(1)] show "int (length (lru_l ?c)) \<le> lru_capacity ?c" by simp
  fix k' e'
  show "(lru_m ?c k' = Some e') =
      (\<exists>nd. (e', nd) \<in> set (lru_l ?c) \<and> Sprint (node_key nd) = k')"
  proof (cases "e' = e")
    case True
    have "lru_m c k' = Some e \<longleftrightarrow> k' = k"
      using assms(2) lru_invD(3) [OF assms(1), of k' e] elem_key_iff [OF assms(1,2), of e] by auto
    with True assms(3) show ?thesis by (auto simp: list_Remove_def)
  next
    case False
    with lru_invD(3) [OF assms(1), of k' e'] show ?thesis by (auto simp: list_Remove_def)
  qed
qed

text \<open>Pushing a new entry.\<close>

lemma abs_push [simp]: "lru_abs (lru_push key value c) = (Sprint key, value) # lru_abs c"
  by (simp add: lru_push_def list_PushFront_def lru_abs_def entry_def)

lemma capacity_push [simp]: "lru_capacity (lru_push key value c) = lru_capacity c"
  by (simp add: lru_push_def)

lemma inv_push:
  assumes "lru_inv c" and "lru_m c (Sprint key) = None"
    and "int (length (lru_l c)) < lru_capacity c"
  shows "lru_inv (lru_push key value c)" (is "lru_inv ?c")
  unfolding lru_inv_def
proof (intro conjI allI)
  note push = lru_push_def list_PushFront_def
  have fresh: "(lru_next c, nd) \<notin> set (lru_l c)" for nd
    using lru_invD(4) [OF assms(1)] by force
  then have "lru_next c \<notin> fst ` set (lru_l c)" by force
  with assms(1) show "distinct (map fst (lru_l ?c))" by (simp add: push lru_invD(1))
  show "distinct (map fst (lru_abs ?c))"
    using assms lru_invD(2) [OF assms(1)] by (simp add: lookup_None_iff)
  show "\<forall>x \<in> fst ` set (lru_l ?c). x < lru_next ?c"
    using lru_invD(4) [OF assms(1)] by (auto simp: push less_Suc_eq)
  show "1 \<le> lru_capacity ?c" using lru_invD(5) [OF assms(1)] by simp
  show "int (length (lru_l ?c)) \<le> lru_capacity ?c"
    using assms(3) by (simp add: push)
  fix k' e'
  show "(lru_m ?c k' = Some e') =
      (\<exists>nd. (e', nd) \<in> set (lru_l ?c) \<and> Sprint (node_key nd) = k')"
    using assms(1,2) fresh lru_invD(3) [OF assms(1), of k' e'] by (auto simp: push)
qed

subsection \<open>One refinement lemma per operation\<close>

lemma NewLRU_Ok:
  "NewLRU n = Ok c \<Longrightarrow> lru_inv c \<and> lru_abs c = [] \<and> lru_capacity c = n \<and> string_keys c"
  by (auto simp: NewLRU_def lru_inv_def lru_abs_def string_keys_def split: if_splits)

lemma lru_cap_pos: "lru_inv c \<Longrightarrow> 0 < lru_cap c"
  using lru_invD(5) by (fastforce simp: lru_cap_def)

lemma lru_len_bound: "lru_inv c \<Longrightarrow> length (lru_abs c) \<le> lru_cap c"
  using lru_invD(6) by (fastforce simp: lru_cap_def)

text \<open>The case where the key is in the cache.\<close>

lemma lru_Add_hit:
  assumes "lru_inv c" and "lru_m c (Sprint key) = Some e"
  shows "\<exists>c'. lru_Add key v fs c s = Ok (False, c', s) \<and> lru_inv c' \<and>
           lru_abs c' = ref_hit (Sprint key) v (lru_abs c) \<and> lru_capacity c' = lru_capacity c \<and>
           (string_keys c \<longrightarrow> string_keys c')"
proof -
  let ?nd = "\<lparr>node_key = IString (Sprint key), node_value = v\<rparr>"
  let ?c = "c\<lparr>lru_l := (e, ?nd) # list_Remove e (lru_l c)\<rparr>"
  from assms obtain nd where "(e, nd) \<in> set (lru_l c)" by (rule lookup_SomeE)
  then have "e \<in> fst ` set (lru_l c)" by force
  then have "lru_Add key v fs c s = Ok (False, ?c, s)"
    using assms(2) by (simp add: lru_Add_def MoveToFront_SetValue)
  moreover have "lru_inv ?c" using assms by (intro inv_front) auto
  moreover have "lru_abs ?c = ref_hit (Sprint key) v (lru_abs c)"
    using abs_list_Remove [OF assms] by (simp add: lru_abs_def ref_hit_def ref_remove_def entry_def)
  ultimately show ?thesis by (auto simp: string_keys_def list_Remove_def)
qed

text \<open>The case where the key is new and the cache is full: the oldest entry goes.\<close>

lemma last_entry:
  assumes "lru_inv c" and "lru_l c \<noteq> []"
  shows "lru_m c (Sprint (node_key (snd (last (lru_l c))))) = Some (fst (last (lru_l c)))"
  using assms lru_invD(3) [OF assms(1)] last_in_set [OF assms(2)] by (metis prod.collapse)

lemma abs_last: "lru_l c \<noteq> [] \<Longrightarrow> last (lru_abs c) = entry (last (lru_l c))"
  by (simp add: lru_abs_def last_map)

lemma abs_butlast:
  assumes "lru_inv c" and "lru_l c \<noteq> []"
  shows "map entry (list_Remove (fst (last (lru_l c))) (lru_l c)) = butlast (lru_abs c)"
  using assms by (simp add: Remove_last lru_invD(1) lru_abs_def map_butlast)

lemma lru_Add_full:
  assumes "lru_inv c" and "lru_m c (Sprint key) = None" and "length (lru_l c) = lru_cap c"
  shows "\<exists>c'. lru_Add key v fs c s =
             obind (run_evictions fs (snd (last (lru_abs c))) s) (\<lambda>s'. Ok (True, c', s')) \<and>
           lru_inv c' \<and> lru_abs c' = (Sprint key, v) # butlast (lru_abs c) \<and>
           lru_capacity c' = lru_capacity c \<and>
           (string_keys c \<and> (\<exists>t. key = IString t) \<longrightarrow> string_keys c')"
proof -
  obtain e nd where last: "last (lru_l c) = (e, nd)" by force
  let ?k = "Sprint (node_key nd)"
  let ?d = "c\<lparr>lru_l := list_Remove e (lru_l c), lru_m := (lru_m c)(?k := None)\<rparr>"
  let ?c = "lru_push key v ?d"
  have ne: "lru_l c \<noteq> []" using assms(3) lru_cap_pos [OF assms(1)] by auto
  have full: "int (length (lru_l c)) = lru_capacity c"
    using assms(3) lru_invD(5) [OF assms(1)] by (simp add: lru_cap_def)
  have m: "lru_m c ?k = Some e" using last_entry [OF assms(1) ne] last by simp
  have d: "lru_inv ?d" by (rule inv_drop [OF assms(1) m])
  have abs: "lru_abs ?d = butlast (lru_abs c)"
    using abs_butlast [OF assms(1) ne] last by (simp add: lru_abs_def)
  have "length (list_Remove e (lru_l c)) = length (lru_l c) - 1"
    using Remove_last [OF lru_invD(1) [OF assms(1)] ne] last by simp
  then have "int (length (lru_l ?d)) < lru_capacity ?d" using full ne by (cases "lru_l c") auto
  moreover have "lru_m ?d (Sprint key) = None" using assms(2) by simp
  ultimately have "lru_inv ?c" using d by (intro inv_push)
  moreover have "lru_Add key v fs c s =
      obind (run_evictions fs (snd (last (lru_abs c))) s) (\<lambda>s'. Ok (True, ?c, s'))"
    using assms(2) full ne last abs_last [OF ne]
    by (simp add: lru_Add_def list_Len_def list_Back_def entry_def)
  moreover have "string_keys c \<and> (\<exists>t. key = IString t) \<longrightarrow> string_keys ?c"
    by (auto simp: string_keys_def lru_push_def list_PushFront_def list_Remove_def)
  ultimately show ?thesis using abs by (intro exI [of _ ?c]) simp
qed

lemma lru_Add_room:
  assumes "lru_inv c" and "lru_m c (Sprint key) = None" and "length (lru_l c) \<noteq> lru_cap c"
  shows "\<exists>c'. lru_Add key v fs c s = Ok (False, c', s) \<and> lru_inv c' \<and>
           lru_abs c' = (Sprint key, v) # lru_abs c \<and> lru_capacity c' = lru_capacity c \<and>
           (string_keys c \<and> (\<exists>t. key = IString t) \<longrightarrow> string_keys c')"
proof -
  have "int (length (lru_l c)) < lru_capacity c"
    using assms(3) lru_len_bound [OF assms(1)] lru_invD(5) [OF assms(1)] by (simp add: lru_cap_def)
  with assms(1,2) have "lru_inv (lru_push key v c)" by (intro inv_push)
  moreover have "lru_Add key v fs c s = Ok (False, lru_push key v c, s)"
    using assms(2) \<open>int (length (lru_l c)) < lru_capacity c\<close>
    by (simp add: lru_Add_def list_Len_def)
  ultimately show ?thesis
    by (auto simp: string_keys_def lru_push_def list_PushFront_def lru_abs_def entry_def)
qed

text \<open>
  The whole of \<^verbatim>\<open>Add\<close>: the callbacks run exactly when a new key meets a full cache, on the value
  of the oldest entry, and the recency list becomes the reference one.
\<close>

lemma lru_Add_refines:
  assumes "lru_inv c"
  shows "\<exists>c'. lru_Add key v fs c s =
             obind (if ref_full (lru_cap c) (Sprint key) (lru_abs c)
                    then run_evictions fs (snd (last (lru_abs c))) s else Ok s)
               (\<lambda>s'. Ok (ref_full (lru_cap c) (Sprint key) (lru_abs c), c', s')) \<and>
           lru_inv c' \<and> lru_abs c' = ref_add (lru_cap c) (Sprint key) v (lru_abs c) \<and>
           lru_cap c' = lru_cap c \<and>
           (string_keys c \<and> (\<exists>t. key = IString t) \<longrightarrow> string_keys c')"
proof (cases "lru_m c (Sprint key)")
  case (Some e)
  then have "Sprint key \<in> fst ` set (lru_abs c)"
    using lookup_None_iff [OF assms, of "Sprint key"] by simp
  with lru_Add_hit [OF assms Some, of v fs s] show ?thesis
    by (auto simp: ref_full_def ref_add_def lru_cap_def)
next
  case None
  then have "Sprint key \<notin> fst ` set (lru_abs c)" using lookup_None_iff [OF assms] by simp
  with lru_Add_full [OF assms None, of v fs s] lru_Add_room [OF assms None, of v fs s]
  show ?thesis
    by (cases "length (lru_l c) = lru_cap c") (auto simp: ref_full_def ref_add_def lru_cap_def)
qed

lemma abs_Nil_iff: "lru_l c = [] \<longleftrightarrow> lru_abs c = []"
  by (simp add: lru_abs_def)

lemma commonGet_miss:
  "lru_inv c \<Longrightarrow> Sprint key \<notin> fst ` set (lru_abs c) \<Longrightarrow> commonGet key peek c = (None, False, c)"
  using lookup_None_iff [of c "Sprint key"] by (simp add: commonGet_def)

lemma ref_touch_single: "length xs \<le> 1 \<Longrightarrow> ref_touch k xs = xs"
  by (cases xs) (auto simp: ref_touch_def ref_hit_def)

lemma commonGet_hit:
  assumes "lru_inv c" and "Sprint key \<in> fst ` set (lru_abs c)"
  shows "\<exists>c'. commonGet key peek c = (map_of (lru_abs c) (Sprint key), True, c') \<and>
           lru_inv c' \<and>
           lru_abs c' = (if peek then lru_abs c else ref_touch (Sprint key) (lru_abs c)) \<and>
           lru_cap c' = lru_cap c \<and> (string_keys c \<longrightarrow> string_keys c')"
proof -
  from assms obtain e where e: "lru_m c (Sprint key) = Some e"
    using lookup_None_iff [OF assms(1)] by blast
  with assms(1) obtain nd where nd: "(e, nd) \<in> set (lru_l c)" "map_of (lru_l c) e = Some nd"
    "Sprint (node_key nd) = Sprint key" "map_of (lru_abs c) (Sprint key) = Some (node_value nd)"
    by (rule lookup_SomeE)
  have ne: "lru_l c \<noteq> []" using nd(1) by auto
  show ?thesis
  proof (cases "\<not> peek \<and> length (lru_l c) > 1")
    case False
    then have "commonGet key peek c = (Some (node_value nd), True, c)"
      using e nd ne by (auto simp: commonGet_def list_Len_def)
    with False nd assms(1) show ?thesis by (auto simp: ref_touch_single)
  next
    case True
    let ?c = "c\<lparr>lru_l := (e, nd) # list_Remove e (lru_l c)\<rparr>"
    obtain mark where mark: "list_Front (lru_l c) = Some mark"
      using ne by (cases "lru_l c") (auto simp: list_Front_def)
    have "e \<in> fst ` set (lru_l c)" using nd(1) by force
    then have "list_MoveBefore e (fst mark) (lru_l c) = (e, nd) # list_Remove e (lru_l c)"
      using MoveBefore_Front [OF lru_invD(1) [OF assms(1)] _ mark] nd(2)
      by (simp add: list_MoveToFront_def)
    then have "commonGet key peek c = (Some (node_value nd), True, ?c)"
      using True e nd ne mark by (simp add: commonGet_def list_Len_def)
    moreover have "lru_inv ?c" using assms(1) e nd(3) by (rule inv_front)
    moreover have "lru_abs ?c = ref_touch (Sprint key) (lru_abs c)"
      using abs_list_Remove [OF assms(1) e] nd(3,4)
      by (simp add: lru_abs_def ref_touch_def ref_hit_def ref_remove_def entry_def)
    moreover have "string_keys c \<longrightarrow> string_keys ?c"
      using nd(1) by (auto simp: string_keys_def list_Remove_def)
    ultimately show ?thesis using True nd(4) by (auto simp: lru_cap_def)
  qed
qed

lemma commonGet_refines:
  assumes "lru_inv c"
  shows "\<exists>c'. commonGet key peek c =
             (map_of (lru_abs c) (Sprint key), Sprint key \<in> fst ` set (lru_abs c), c') \<and>
           lru_inv c' \<and>
           lru_abs c' = (if peek then lru_abs c else ref_touch (Sprint key) (lru_abs c)) \<and>
           lru_cap c' = lru_cap c \<and> (string_keys c \<longrightarrow> string_keys c')"
proof (cases "Sprint key \<in> fst ` set (lru_abs c)")
  case True
  with commonGet_hit [OF assms True, of peek] show ?thesis by simp
next
  case False
  then have "map_of (lru_abs c) (Sprint key) = None" by (simp add: map_of_eq_None_iff)
  with False assms show ?thesis by (auto simp: commonGet_miss ref_touch_def)
qed

text \<open>\<^verbatim>\<open>Peek\<close> leaves the cache as it is.\<close>

lemma lru_Peek_eq:
  "lru_inv c \<Longrightarrow>
     lru_Peek key c = (map_of (lru_abs c) (Sprint key), Sprint key \<in> fst ` set (lru_abs c), c)"
  using commonGet_refines [of c key True]
  by (auto simp: lru_Peek_def commonGet_def split: option.splits if_splits)

lemma lru_Remove_refines:
  assumes "lru_inv c"
  shows "\<exists>c'. lru_Remove key c = (Sprint key \<in> fst ` set (lru_abs c), c') \<and> lru_inv c' \<and>
           lru_abs c' = ref_remove (Sprint key) (lru_abs c) \<and> lru_cap c' = lru_cap c \<and>
           (string_keys c \<longrightarrow> string_keys c')"
proof (cases "lru_m c (Sprint key)")
  case None
  then have "Sprint key \<notin> fst ` set (lru_abs c)" using lookup_None_iff [OF assms] by simp
  moreover from this have "ref_remove (Sprint key) (lru_abs c) = lru_abs c"
    unfolding ref_remove_def by (intro filter_True) force
  ultimately show ?thesis using None assms by (auto simp: lru_Remove_def)
next
  case (Some e)
  then have k: "Sprint key \<in> fst ` set (lru_abs c)"
    using lookup_None_iff [OF assms, of "Sprint key"] by simp
  then have "lru_l c \<noteq> []" by (auto simp: lru_abs_def)
  with k Some show ?thesis
    using inv_drop [OF assms Some] abs_list_Remove [OF assms Some]
    by (auto simp: lru_Remove_def list_Len_def lru_abs_def lru_cap_def string_keys_def list_Remove_def)
qed

lemma lru_RemoveOldest_refines:
  assumes "lru_inv c"
  shows "\<exists>r c'. lru_RemoveOldest c = (r, c') \<and>
           map_option (\<lambda>(k, v). (Sprint k, v)) r =
             (if lru_abs c = [] then None else Some (last (lru_abs c))) \<and>
           lru_inv c' \<and> lru_abs c' = butlast (lru_abs c) \<and> lru_cap c' = lru_cap c"
proof (cases "lru_l c = []")
  case True
  with assms show ?thesis by (simp add: lru_RemoveOldest_def list_Back_def lru_abs_def)
next
  case False
  obtain e nd where last: "last (lru_l c) = (e, nd)" by force
  have m: "lru_m c (Sprint (node_key nd)) = Some e"
    using last_entry [OF assms False] last by simp
  have swap: "c\<lparr>lru_m := f, lru_l := l\<rparr> = c\<lparr>lru_l := l, lru_m := f\<rparr>" for f l
    by (cases c) simp
  show ?thesis
    using False last abs_last [OF False] abs_butlast [OF assms False] inv_drop [OF assms m]
    by (auto simp: lru_RemoveOldest_def list_Back_def lru_abs_def entry_def lru_cap_def swap)
qed

lemma lru_Purge_refines:
  "lru_inv c \<Longrightarrow> lru_inv (lru_Purge c) \<and> lru_abs (lru_Purge c) = [] \<and> lru_cap (lru_Purge c) = lru_cap c"
  by (auto simp: lru_Purge_def lru_inv_def lru_abs_def lru_cap_def)

lemma filter_loop_strings:
  "\<forall>e \<in> set l. \<exists>s. node_key (snd e) = IString s \<Longrightarrow>
     filter_loop f l ks vs =
       Ok (ks @ map fst (filter (case_prod f) (map entry l)),
           vs @ map snd (filter (case_prod f) (map entry l)))"
  by (induction l arbitrary: ks vs) (auto simp: entry_def)

lemma lru_Filter_eq:
  "string_keys c \<Longrightarrow>
     lru_Filter f c = Ok (map fst (filter (case_prod f) (lru_abs c)),
                          map snd (filter (case_prod f) (lru_abs c)))"
  by (simp add: lru_Filter_def string_keys_def filter_loop_strings lru_abs_def)

lemma keys_loop_Some: "keys_loop n (Some e) res = Ok (res @ replicate n (Some (node_key (snd e))))"
  by (induction n arbitrary: res) (auto simp: replicate_append_same simp flip: append_assoc)

section \<open>The interface of the cache\<close>

text \<open>
  What a client of the cache may rely on, in terms of the recency list.  \<open>strs\<close> says that every
  key was added as a string, which \<^verbatim>\<open>Filter\<close> needs.
\<close>

locale lru_cache =
  fixes inv :: "'c \<Rightarrow> bool"
    and abs :: "'c \<Rightarrow> 'v recency"
    and cap :: "'c \<Rightarrow> nat"
    and strs :: "'c \<Rightarrow> bool"
    and add :: "iface \<Rightarrow> 'v \<Rightarrow> ('v \<Rightarrow> 's \<Rightarrow> 's outcome) list \<Rightarrow> 'c \<Rightarrow> 's \<Rightarrow> (bool \<times> 'c \<times> 's) outcome"
    and get :: "iface \<Rightarrow> 'c \<Rightarrow> 'v option \<times> bool \<times> 'c"
    and peek :: "iface \<Rightarrow> 'c \<Rightarrow> 'v option \<times> bool \<times> 'c"
    and remove :: "iface \<Rightarrow> 'c \<Rightarrow> bool \<times> 'c"
    and filt :: "(string \<Rightarrow> 'v \<Rightarrow> bool) \<Rightarrow> 'c \<Rightarrow> (string list \<times> 'v list) outcome"
  assumes add_law: "inv c \<Longrightarrow>
      \<exists>c'. add key v fs c s =
             obind (if ref_full (cap c) (Sprint key) (abs c)
                    then run_evictions fs (snd (last (abs c))) s else Ok s)
               (\<lambda>s'. Ok (ref_full (cap c) (Sprint key) (abs c), c', s')) \<and>
           inv c' \<and> abs c' = ref_add (cap c) (Sprint key) v (abs c) \<and> cap c' = cap c \<and>
           (strs c \<and> (\<exists>t. key = IString t) \<longrightarrow> strs c')"
    and get_law: "inv c \<Longrightarrow>
      \<exists>c'. get key c = (map_of (abs c) (Sprint key), Sprint key \<in> fst ` set (abs c), c') \<and>
           inv c' \<and> abs c' = ref_touch (Sprint key) (abs c) \<and> cap c' = cap c \<and>
           (strs c \<longrightarrow> strs c')"
    and peek_law: "inv c \<Longrightarrow>
      peek key c = (map_of (abs c) (Sprint key), Sprint key \<in> fst ` set (abs c), c)"
    and remove_law: "inv c \<Longrightarrow>
      \<exists>c'. remove key c = (Sprint key \<in> fst ` set (abs c), c') \<and> inv c' \<and>
           abs c' = ref_remove (Sprint key) (abs c) \<and> cap c' = cap c \<and> (strs c \<longrightarrow> strs c')"
    and filt_law: "strs c \<Longrightarrow>
      filt f c = Ok (map fst (filter (case_prod f) (abs c)), map snd (filter (case_prod f) (abs c)))"
    and inv_distinct: "inv c \<Longrightarrow> distinct (map fst (abs c))"
    and inv_bound: "inv c \<Longrightarrow> 0 < cap c \<and> length (abs c) \<le> cap c"
begin

lemma add_without_callbacks:
  "inv c \<Longrightarrow>
     \<exists>c'. add key v [] c s = Ok (ref_full (cap c) (Sprint key) (abs c), c', s) \<and>
          inv c' \<and> abs c' = ref_add (cap c) (Sprint key) v (abs c) \<and> cap c' = cap c \<and>
          (strs c \<and> (\<exists>t. key = IString t) \<longrightarrow> strs c')"
  using add_law [of c key v "[]" s] by (simp cong: if_cong)

lemma add_one_callback:
  assumes "inv c"
  shows "\<exists>c'. add key v [f] c s =
           obind (if ref_full (cap c) (Sprint key) (abs c) then f (snd (last (abs c))) s else Ok s)
             (\<lambda>s'. Ok (ref_full (cap c) (Sprint key) (abs c), c', s')) \<and>
         inv c' \<and> abs c' = ref_add (cap c) (Sprint key) v (abs c) \<and> cap c' = cap c \<and>
         (strs c \<and> (\<exists>t. key = IString t) \<longrightarrow> strs c')"
  using add_law [OF assms, of key v "[f]" s] by (simp cong: if_cong)

text \<open>The value that was just added is found, and only the oldest entry can be gone.\<close>

lemma map_of_ref_add:
  assumes "inv c"
  shows "map_of (ref_add (cap c) k v (abs c)) =
           (if ref_full (cap c) k (abs c) then (map_of (abs c))(fst (last (abs c)) := None, k \<mapsto> v)
            else (map_of (abs c))(k \<mapsto> v))"
proof -
  have "abs c \<noteq> []" if "length (abs c) = cap c" using inv_bound [OF assms] that by auto
  then show ?thesis
    using inv_distinct [OF assms]
    by (auto simp: ref_add_def ref_full_def ref_hit_def map_of_filter_fst map_of_butlast)
qed

lemma add_survivors:
  assumes "inv c" and "k' \<noteq> k" and "k' \<noteq> fst (last (abs c)) \<or> \<not> ref_full (cap c) k (abs c)"
  shows "map_of (ref_add (cap c) k v (abs c)) k' = map_of (abs c) k'"
  using assms(2,3) by (auto simp: map_of_ref_add [OF assms(1)])

end

interpretation lruc: lru_cache lru_inv lru_abs lru_cap string_keys lru_Add lru_Get lru_Peek lru_Remove lru_Filter
proof (unfold_locales, goal_cases)
  case (1 c key v fs s)
  then show ?case by (rule lru_Add_refines)
next
  case (2 c key)
  then show ?case using commonGet_refines [of c key False] by (simp add: lru_Get_def)
next
  case (3 c key)
  then show ?case by (rule lru_Peek_eq)
next
  case (4 c key)
  then show ?case by (rule lru_Remove_refines)
next
  case (5 c f)
  then show ?case by (rule lru_Filter_eq)
next
  case (6 c)
  then show ?case by (rule lru_invD(2))
next
  case (7 c)
  then show ?case by (simp add: lru_cap_pos lru_len_bound [simplified])
qed

section \<open>Whole runs\<close>

datatype 'v lru_op =
    CallAdd iface 'v | CallGet iface | CallContains iface | CallPeek iface | CallRemove iface
  | CallRemoveOldest | CallLen | CallPurge

datatype 'v lru_res =
    RBool bool | RValue "'v option" bool | REntry "(string \<times> 'v) option" | RNat nat | RUnit

fun lru_call :: "'v lru_op \<Rightarrow> 'v lru \<Rightarrow> ('v lru_res \<times> 'v lru) outcome" where
  "lru_call (CallAdd k v) c = obind (lru_Add k v [] c ()) (\<lambda>(b, c', _). Ok (RBool b, c'))"
| "lru_call (CallGet k) c = (case lru_Get k c of (v, b, c') \<Rightarrow> Ok (RValue v b, c'))"
| "lru_call (CallContains k) c = (case lru_Contains k c of (b, c') \<Rightarrow> Ok (RBool b, c'))"
| "lru_call (CallPeek k) c = (case lru_Peek k c of (v, b, c') \<Rightarrow> Ok (RValue v b, c'))"
| "lru_call (CallRemove k) c = (case lru_Remove k c of (b, c') \<Rightarrow> Ok (RBool b, c'))"
| "lru_call CallRemoveOldest c =
     (case lru_RemoveOldest c of (r, c') \<Rightarrow> Ok (REntry (map_option (\<lambda>(k, v). (Sprint k, v)) r), c'))"
| "lru_call CallLen c = Ok (RNat (lru_Len c), c)"
| "lru_call CallPurge c = Ok (RUnit, lru_Purge c)"

fun ref_call :: "nat \<Rightarrow> 'v lru_op \<Rightarrow> 'v recency \<Rightarrow> 'v lru_res \<times> 'v recency" where
  "ref_call n (CallAdd k v) xs = (RBool (ref_full n (Sprint k) xs), ref_add n (Sprint k) v xs)"
| "ref_call n (CallGet k) xs =
     (RValue (map_of xs (Sprint k)) (Sprint k \<in> fst ` set xs), ref_touch (Sprint k) xs)"
| "ref_call n (CallContains k) xs = (RBool (Sprint k \<in> fst ` set xs), ref_touch (Sprint k) xs)"
| "ref_call n (CallPeek k) xs = (RValue (map_of xs (Sprint k)) (Sprint k \<in> fst ` set xs), xs)"
| "ref_call n (CallRemove k) xs = (RBool (Sprint k \<in> fst ` set xs), ref_remove (Sprint k) xs)"
| "ref_call n CallRemoveOldest xs =
     (REntry (if xs = [] then None else Some (last xs)), butlast xs)"
| "ref_call n CallLen xs = (RNat (length xs), xs)"
| "ref_call n CallPurge xs = (RUnit, [])"

fun lru_run :: "'v lru_op list \<Rightarrow> 'v lru \<Rightarrow> ('v lru_res list \<times> 'v lru) outcome" where
  "lru_run [] c = Ok ([], c)"
| "lru_run (x # xs) c =
     obind (lru_call x c) (\<lambda>(r, c'). obind (lru_run xs c') (\<lambda>(rs, c''). Ok (r # rs, c'')))"

fun ref_run :: "nat \<Rightarrow> 'v lru_op list \<Rightarrow> 'v recency \<Rightarrow> 'v lru_res list \<times> 'v recency" where
  "ref_run n [] xs = ([], xs)"
| "ref_run n (y # ys) xs =
     (case ref_call n y xs of (r, xs') \<Rightarrow> (case ref_run n ys xs' of (rs, xs'') \<Rightarrow> (r # rs, xs'')))"

lemma lru_call_simulates:
  assumes "lru_inv c"
  shows "\<exists>c'. lru_call x c = Ok (fst (ref_call (lru_cap c) x (lru_abs c)), c') \<and> lru_inv c' \<and>
           lru_abs c' = snd (ref_call (lru_cap c) x (lru_abs c)) \<and> lru_cap c' = lru_cap c"
proof (cases x)
  case (CallAdd k v)
  with lruc.add_without_callbacks [OF assms, of k v "()"] show ?thesis by auto
next
  case (CallGet k)
  with lruc.get_law [OF assms, of k] show ?thesis by auto
next
  case (CallContains k)
  with lruc.get_law [OF assms, of k] show ?thesis by (auto simp: lru_Contains_def)
next
  case (CallPeek k)
  with assms show ?thesis by (simp add: lruc.peek_law)
next
  case (CallRemove k)
  with lruc.remove_law [OF assms, of k] show ?thesis by auto
next
  case CallRemoveOldest
  with lru_RemoveOldest_refines [OF assms] show ?thesis by auto
next
  case CallLen
  with assms show ?thesis by (simp add: lru_Len_def list_Len_def)
next
  case CallPurge
  with lru_Purge_refines [OF assms] show ?thesis by simp
qed

lemma lru_run_simulates:
  "lru_inv c \<Longrightarrow>
     \<exists>c'. lru_run xs c = Ok (fst (ref_run (lru_cap c) xs (lru_abs c)), c') \<and> lru_inv c' \<and>
          lru_abs c' = snd (ref_run (lru_cap c) xs (lru_abs c)) \<and> lru_cap c' = lru_cap c"
proof (induction xs arbitrary: c)
  case Nil
  then show ?case by simp
next
  case (Cons x xs)
  from lru_call_simulates [OF Cons.prems, of x] obtain c1 where
    c1: "lru_call x c = Ok (fst (ref_call (lru_cap c) x (lru_abs c)), c1)" "lru_inv c1"
      "lru_abs c1 = snd (ref_call (lru_cap c) x (lru_abs c))" "lru_cap c1 = lru_cap c" by blast
  from Cons.IH [OF c1(2)] c1 show ?case by (auto split: prod.split)
qed

section \<open>Properties of the cache\<close>



text \<open>\<^verbatim>\<open>Add\<close> and its eviction callback. The callback runs exactly when a key that is not in
  the cache is added to a full cache; it is then called once, on the value of the least recently
  used entry, that entry is the only one dropped, and \<^verbatim>\<open>Add\<close> returns true. In every case the new
  entry is in front, the others keep their order, and the callback's own failure is \<^verbatim>\<open>Add\<close>'s.\<close>

theorem lru_Add_evicts_oldest_once:
  assumes "lru_inv c"
  shows "\<exists>c'. lru_Add key v [f] c s =
           (if Sprint key \<notin> fst ` set (lru_abs c) \<and> length (lru_abs c) = lru_cap c
            then obind (f (snd (last (lru_abs c))) s) (\<lambda>s'. Ok (True, c', s'))
            else Ok (False, c', s)) \<and>
         lru_inv c' \<and>
         lru_abs c' = (Sprint key, v) #
           (if Sprint key \<in> fst ` set (lru_abs c) then filter (\<lambda>p. fst p \<noteq> Sprint key) (lru_abs c)
            else if length (lru_abs c) = lru_cap c then butlast (lru_abs c) else lru_abs c)"
proof (cases "Sprint key \<in> fst ` set (lru_abs c)")
  case True
  with lruc.add_one_callback [OF assms, of key v f s] show ?thesis
    by (simp add: ref_full_def ref_add_def ref_hit_def) blast
next
  case False
  with lruc.add_one_callback [OF assms, of key v f s] show ?thesis
    by (simp add: ref_full_def ref_add_def split: if_splits) blast+
qed

definition sample_lru :: "nat lru" where
  "sample_lru = lru_push (IString ''b'') 2 (lru_push (IString ''a'') 1
     \<lparr>lru_m = Map.empty, lru_l = [], lru_capacity = 2, lru_next = 0\<rparr>)"

lemma sample_lru_inv: "lru_inv sample_lru"
  unfolding sample_lru_def
  by (intro inv_push) (auto simp: lru_inv_def lru_abs_def lru_push_def list_PushFront_def)

lemma sample_lru_abs: "lru_abs sample_lru = [(''b'', 2), (''a'', 1)]" "lru_cap sample_lru = 2"
  by (simp_all add: sample_lru_def) (simp_all add: lru_abs_def lru_cap_def lru_push_def)

theorem lru_Add_evicts_oldest_once_witness:
  "\<exists>c'. lru_Add (IString ''c'') 3 [\<lambda>v log. Ok (v # log)] sample_lru [] = Ok (True, c', [1]) \<and>
     lru_abs c' = [(''c'', 3), (''b'', 2)]"
  using lru_Add_evicts_oldest_once [OF sample_lru_inv, of "IString ''c''" 3 "\<lambda>v log. Ok (v # log)" "[]"]
  by (auto simp: sample_lru_abs)

text \<open>\<^verbatim>\<open>Contains\<close> updates the recent-ness of the key it finds, although its comment says that
  it does not: after the call the key is the most recently used one, so the entry that the next
  eviction drops may be a different one.\<close>

theorem lru_Contains_promotes:
  assumes "lru_inv c" and "Sprint key \<in> fst ` set (lru_abs c)"
  shows "\<exists>v c'. lru_Contains key c = (True, c') \<and> map_of (lru_abs c) (Sprint key) = Some v \<and>
           lru_abs c' = (Sprint key, v) # filter (\<lambda>p. fst p \<noteq> Sprint key) (lru_abs c)"
proof -
  obtain v where "map_of (lru_abs c) (Sprint key) = Some v"
    using assms(2) by (metis map_of_eq_None_iff not_Some_eq)
  with lruc.get_law [OF assms(1), of key] assms(2) show ?thesis
    by (auto simp: lru_Contains_def ref_touch_def ref_hit_def)
qed

theorem lru_Contains_promotes_witness:
  "\<exists>c'. lru_Contains (IString ''a'') sample_lru = (True, c') \<and> lru_abs c' = [(''a'', 1), (''b'', 2)]"
  using lru_Contains_promotes [OF sample_lru_inv, of "IString ''a''"] by (auto simp: sample_lru_abs)

text \<open>\<^verbatim>\<open>Keys\<close> does not return the keys from oldest to newest, as its comment promises: on a
  cache with \<open>n > 0\<close> entries it returns \<open>n\<close> nil entries followed by \<open>n\<close> copies of the most
  recently used key.\<close>

theorem lru_Keys_repeats_front:
  assumes "lru_l c = front # rest"
  shows "lru_Keys c = Ok (replicate (length (lru_l c)) None @
                          replicate (length (lru_l c)) (Some (node_key (snd front))))"
  by (simp add: lru_Keys_def assms list_Len_def list_Front_def keys_loop_Some
      del: keys_loop.simps replicate.simps)

theorem lru_Keys_repeats_front_witness:
  "lru_Keys sample_lru = Ok [None, None, Some (IString ''b''), Some (IString ''b'')]"
proof -
  have "lru_l sample_lru = (1, \<lparr>node_key = IString ''b'', node_value = 2\<rparr>)
          # [(0, \<lparr>node_key = IString ''a'', node_value = 1\<rparr>)]"
    by (simp add: sample_lru_def lru_push_def list_PushFront_def)
  from lru_Keys_repeats_front [OF this] show ?thesis
    by (simp add: sample_lru_def lru_push_def list_PushFront_def)
qed

end
