(* ===== verification/Recorder.thy ===== *)
theory Recorder
  imports Lru Json_Strings Etcd
begin

text \<open>
  The command history of one user, \<^verbatim>\<open>recorder/recorder.go\<close> lines 32 to 307: the in-memory
  \<^verbatim>\<open>recorder\<close> on top of the LRU cache, the two storages, and the \<^verbatim>\<open>persistentRecorder\<close> that loads
  its history when it starts and saves it every second and when it stops.  The abstract view of a
  recorder is the list of its commands, the latest first (\<open>records\<close>); \<open>remember n s\<close> is what recording
  a command \<open>s\<close> does to it.  The theory shows that a recorder holds the most recent distinct
  commands, that searching is substring search, and that saving and loading is the identity on
  histories of valid UTF-8.
\<close>

section \<open>The recorder\<close>

record recorder =
  rec_l :: "index lru"

definition NewRecorder :: "int \<Rightarrow> recorder outcome" where
  "NewRecorder capacity = obind (NewLRU capacity) (\<lambda>l. Ok \<lparr>rec_l = l\<rparr>)"

definition recorder_Find :: "string \<Rightarrow> recorder \<Rightarrow> string list outcome" where
  "recorder_Find s r =
     obind (lru_Filter (\<lambda>key value. length (suffixarray_Lookup value s 1) > 0) (rec_l r))
       (\<lambda>(kList, _). Ok kList)"

definition recorder_List :: "recorder \<Rightarrow> string list outcome" where
  "recorder_List r = obind (lru_Filter (\<lambda>key value. True) (rec_l r)) (\<lambda>(kList, _). Ok kList)"

definition recorder_Add :: "string \<Rightarrow> recorder \<Rightarrow> (error option \<times> recorder) outcome" where
  "recorder_Add s r =
     (if s = '''' then Ok (Some (Err ''ERROR: record is empty''), r)
      else (case lru_Peek (IString s) (rec_l r) of (_, ok, l1) \<Rightarrow>
              (if ok then (case lru_Contains (IString s) l1 of (_, l2) \<Rightarrow> Ok (None, r\<lparr>rec_l := l2\<rparr>))
               else obind (lru_Add (IString s) (Index s) [] l1 ())
                      (\<lambda>(_, l2, _). Ok (None, r\<lparr>rec_l := l2\<rparr>)))))"

section \<open>The storages\<close>

text \<open>
  The operating system's files and the etcd client are parameters of the model.  \<open>os_NotExist\<close> is
  the answer of \<^verbatim>\<open>os.IsNotExist\<close> on the error of \<^verbatim>\<open>os.Stat\<close>.
\<close>

record 'w env =
  env_cli :: "'w clientv3"
  os_NotExist :: "string \<Rightarrow> 'w \<Rightarrow> bool"
  os_Create :: "string \<Rightarrow> 'w \<Rightarrow> error option \<times> 'w"
  ioutil_WriteFile :: "string \<Rightarrow> string \<Rightarrow> 'w \<Rightarrow> error option \<times> 'w"
  ioutil_ReadFile :: "string \<Rightarrow> 'w \<Rightarrow> (error + string) \<times> 'w"

datatype storage = EtcdStorage | FileStorage

fun storage_Save :: "'w env \<Rightarrow> storage \<Rightarrow> string \<Rightarrow> string \<Rightarrow> 'w \<Rightarrow> error option \<times> 'w" where
  "storage_Save E EtcdStorage f data w = PutKV (env_cli E) f data w"
| "storage_Save E FileStorage f data w = ioutil_WriteFile E f data w"

fun storage_TryInit :: "'w env \<Rightarrow> storage \<Rightarrow> string \<Rightarrow> 'w \<Rightarrow> error option \<times> 'w" where
  "storage_TryInit E EtcdStorage f w = (None, w)"
| "storage_TryInit E FileStorage f w = (if os_NotExist E f w then os_Create E f w else (None, w))"

fun storage_Load :: "'w env \<Rightarrow> storage \<Rightarrow> string \<Rightarrow> 'w \<Rightarrow> (error + string) \<times> 'w" where
  "storage_Load E EtcdStorage f w = GetKV (env_cli E) f w"
| "storage_Load E FileStorage f w = ioutil_ReadFile E f w"

section \<open>The persistent recorder\<close>

text \<open>\<open>pr_stopCh\<close>: \<^const>\<open>None\<close> is the nil channel, \<open>Some xs\<close> a channel of capacity 1 that holds \<open>xs\<close>.\<close>

record persistentRecorder =
  pr_inited :: bool
  pr_r :: recorder
  pr_f :: string
  pr_stopCh :: "string list option"
  pr_storage :: storage

definition defaultFileStorageDir :: string where
  "defaultFileStorageDir = ''/var/lib/mysh/''"

definition defaultEtcdPrefix :: string where
  "defaultEtcdPrefix = ''/mysh/data/''"

definition NewPersistentRecorder :: "int \<Rightarrow> string \<Rightarrow> storage \<Rightarrow> persistentRecorder outcome" where
  "NewPersistentRecorder capacity f storage =
     obind (NewRecorder capacity)
       (\<lambda>r. Ok \<lparr>pr_inited = False, pr_r = r, pr_f = defaultFileStorageDir @ f, pr_stopCh = None,
                pr_storage = storage\<rparr>)"

definition NewFileRecorder :: "int \<Rightarrow> string \<Rightarrow> persistentRecorder outcome" where
  "NewFileRecorder capacity f =
     obind (NewRecorder capacity)
       (\<lambda>r. Ok \<lparr>pr_inited = False, pr_r = r, pr_f = defaultFileStorageDir @ f, pr_stopCh = None,
                pr_storage = FileStorage\<rparr>)"

definition NewEtcdRecorder :: "int \<Rightarrow> string \<Rightarrow> persistentRecorder outcome" where
  "NewEtcdRecorder capacity f =
     obind (NewRecorder capacity)
       (\<lambda>r. Ok \<lparr>pr_inited = False, pr_r = r, pr_f = filepath_Join [defaultEtcdPrefix, f],
                pr_stopCh = Some [], pr_storage = EtcdStorage\<rparr>)"

datatype StorageType = STORAGE_TYPE_FILE | STORAGE_TYPE_ETCD

fun NewTypedPersistentRecorder :: "int \<Rightarrow> string \<Rightarrow> StorageType \<Rightarrow> persistentRecorder outcome" where
  "NewTypedPersistentRecorder capacity f STORAGE_TYPE_ETCD = NewEtcdRecorder capacity f"
| "NewTypedPersistentRecorder capacity f STORAGE_TYPE_FILE = NewEtcdRecorder capacity f"

definition checkInited :: "persistentRecorder \<Rightarrow> unit outcome" where
  "checkInited p =
     (if pr_inited p then Ok ()
      else Fatal (Sprintf ''record [%v] is not inited or load '' [IString (pr_f p)]))"

definition pr_sync :: "'w env \<Rightarrow> persistentRecorder \<Rightarrow> 'w \<Rightarrow> (error option \<times> 'w) outcome" where
  "pr_sync E p w =
     obind (checkInited p) (\<lambda>_.
     obind (recorder_List (pr_r p)) (\<lambda>xs.
       Ok (storage_Save E (pr_storage p) (pr_f p) (json_Marshal xs) w)))"

definition pr_Add :: "string \<Rightarrow> persistentRecorder \<Rightarrow> (error option \<times> persistentRecorder) outcome" where
  "pr_Add s p =
     obind (checkInited p) (\<lambda>_.
     obind (recorder_Add s (pr_r p)) (\<lambda>(err, r). Ok (err, p\<lparr>pr_r := r\<rparr>)))"

definition pr_Find :: "string \<Rightarrow> persistentRecorder \<Rightarrow> string list outcome" where
  "pr_Find s p = obind (checkInited p) (\<lambda>_. recorder_Find s (pr_r p))"

definition pr_List :: "persistentRecorder \<Rightarrow> string list outcome" where
  "pr_List p = obind (checkInited p) (\<lambda>_. recorder_List (pr_r p))"

text \<open>
  The loading loop of \<^verbatim>\<open>initOrLoad\<close>, which runs from the end of the decoded list to its start
  and stops at the first error.
\<close>

fun load_loop :: "string list \<Rightarrow> recorder \<Rightarrow> (error option \<times> recorder) outcome" where
  "load_loop [] r = Ok (None, r)"
| "load_loop (s # ss) r =
     obind (recorder_Add s r) (\<lambda>(err, r').
       (case err of Some e \<Rightarrow> Ok (Some e, r') | None \<Rightarrow> load_loop ss r'))"

definition initOrLoad ::
  "'w env \<Rightarrow> persistentRecorder \<Rightarrow> 'w \<Rightarrow> (error option \<times> persistentRecorder \<times> 'w) outcome"
where
  "initOrLoad E p w =
     (case storage_TryInit E (pr_storage p) (pr_f p) w of
        (Some e, w1) \<Rightarrow> Ok (Some e, p, w1)
      | (None, w1) \<Rightarrow>
          (let p1 = p\<lparr>pr_inited := True\<rparr> in
           case storage_Load E (pr_storage p) (pr_f p) w1 of
             (Inl e, w2) \<Rightarrow> Ok (Some e, p1, w2)
           | (Inr data, w2) \<Rightarrow>
               (if data = [] then Ok (None, p1, w2)
                else (case json_Unmarshal data of
                        None \<Rightarrow> Ok (Some (Err ''json: cannot unmarshal''), p1, w2)
                      | Some recordObj \<Rightarrow>
                          obind (load_loop (rev recordObj) (pr_r p1))
                            (\<lambda>(err, r). Ok (err, p1\<lparr>pr_r := r\<rparr>, w2))))))"

text \<open>
  \<^verbatim>\<open>Run\<close> without the goroutine it starts: the error of \<^verbatim>\<open>initOrLoad\<close> is dropped.  The goroutine
  (a sync at every tick until a message is on the stop channel) is part of the manager's steps.
\<close>

definition pr_Run :: "'w env \<Rightarrow> persistentRecorder \<Rightarrow> 'w \<Rightarrow> (persistentRecorder \<times> 'w) outcome" where
  "pr_Run E p w = obind (initOrLoad E p w) (\<lambda>(_, p', w'). Ok (p', w'))"

text \<open>A send on the stop channel blocks when the channel is nil or its one place is taken.\<close>

definition send_stop :: "persistentRecorder \<Rightarrow> persistentRecorder outcome" where
  "send_stop p =
     (case pr_stopCh p of
        None \<Rightarrow> Blocked
      | Some buf \<Rightarrow> if length buf < 1 then Ok (p\<lparr>pr_stopCh := Some (buf @ [''Done''])\<rparr>) else Blocked)"

definition pr_Stop :: "'w env \<Rightarrow> persistentRecorder \<Rightarrow> 'w \<Rightarrow> (persistentRecorder \<times> 'w) outcome" where
  "pr_Stop E p w =
     obind (pr_sync E p w) (\<lambda>(_, w').
     obind (send_stop p) (\<lambda>p'. Ok (p', w')))"

section \<open>The abstract history\<close>

text \<open>
  Recording \<open>s\<close> in a history of at most \<open>n\<close> commands: \<open>s\<close> comes first, an earlier occurrence of
  it goes, and a new command drops the oldest one of a full history.
\<close>

definition remember :: "nat \<Rightarrow> string \<Rightarrow> string list \<Rightarrow> string list" where
  "remember n s ks =
     s # (if s \<in> set ks then filter (\<lambda>k. k \<noteq> s) ks
          else if length ks = n then butlast ks else ks)"

definition matches :: "string \<Rightarrow> string \<Rightarrow> bool" where
  "matches s k \<longleftrightarrow> s \<noteq> [] \<and> sublist s k"

definition records :: "recorder \<Rightarrow> string list" where
  "records r = map fst (lru_abs (rec_l r))"

definition rec_cap :: "recorder \<Rightarrow> nat" where
  "rec_cap r = lru_cap (rec_l r)"

definition rec_inv :: "recorder \<Rightarrow> bool" where
  "rec_inv r \<longleftrightarrow> lru_inv (rec_l r) \<and> string_keys (rec_l r) \<and>
     (\<forall>(k, v) \<in> set (lru_abs (rec_l r)). v = Index k \<and> k \<noteq> [])"

section \<open>Histories as recency lists\<close>

text \<open>
  Recording commands one after the other keeps the \<open>n\<close> most recent distinct ones, the latest
  first.
\<close>

lemma remember_take:
  assumes "distinct D" and "0 < n"
  shows "remember n s (take n D) = take n (s # filter (\<lambda>k. k \<noteq> s) D)"
proof -
  obtain m where n: "n = Suc m" using assms(2) by (cases n) auto
  show ?thesis
  proof (cases "s \<in> set (take (Suc m) D)")
    case True
    with assms(1) n show ?thesis by (simp add: remember_def filter_neq_take)
  next
    case False
    have "butlast (take (Suc m) D) = take m D" if "length D > m"
      using that by (simp add: butlast_take)
    moreover have "s \<notin> set (take m D)" using False set_take_subset_set_take [of m "Suc m" D] by auto
    ultimately show ?thesis
      using False n by (cases "length D > m") (auto simp: remember_def take_filter_neq filter_neq_absent min_def)
  qed
qed

lemma remember_recent:
  "0 < n \<Longrightarrow> remember n s (take n (keep_first xs)) = take n (keep_first (s # xs))"
  by (simp add: remember_take)

lemma fold_remember:
  "0 < n \<Longrightarrow> fold (remember n) ss (take n (keep_first xs)) = take n (keep_first (rev ss @ xs))"
proof (induction ss arbitrary: xs)
  case Nil
  then show ?case by simp
next
  case (Cons s ss)
  from Cons.IH [of "s # xs"] Cons.prems show ?case
    by (simp add: remember_recent del: keep_first.simps)
qed

lemma fold_remember_Nil:
  "0 < n \<Longrightarrow> fold (remember n) ss [] = take n (keep_first (rev ss))"
  using fold_remember [of n ss "[]"] by simp

lemma fold_remember_rev:
  "0 < n \<Longrightarrow> distinct xs \<Longrightarrow> length xs \<le> n \<Longrightarrow> fold (remember n) (rev xs) [] = xs"
  by (simp add: fold_remember_Nil keep_first_distinct)

section \<open>The laws of the recorder\<close>

lemma rec_invD:
  assumes "rec_inv r"
  shows "lru_inv (rec_l r)" "string_keys (rec_l r)"
    "\<And>k v. (k, v) \<in> set (lru_abs (rec_l r)) \<Longrightarrow> v = Index k \<and> k \<noteq> []"
  using assms by (auto simp: rec_inv_def)

lemma records_inv:
  assumes "rec_inv r"
  shows "distinct (records r)" "length (records r) \<le> rec_cap r" "0 < rec_cap r"
    "\<And>k. k \<in> set (records r) \<Longrightarrow> k \<noteq> []"
  using rec_invD [OF assms] lruc.inv_distinct lruc.inv_bound
  by (auto simp: records_def rec_cap_def)

lemma NewRecorder_Ok:
  "1 \<le> n \<Longrightarrow> \<exists>r. NewRecorder n = Ok r \<and> rec_inv r \<and> records r = [] \<and> rec_cap r = nat n"
  using NewLRU_Ok [of n] by (auto simp: NewRecorder_def NewLRU_def rec_inv_def records_def rec_cap_def
      lru_cap_def lru_abs_def)

lemma map_fst_ref_add: "map fst (ref_add n s v xs) = remember n s (map fst xs)"
  by (simp add: ref_add_def ref_hit_def remember_def filter_fst_neq_map map_butlast)

lemma map_fst_ref_touch:
  "s \<in> fst ` set xs \<Longrightarrow> map fst (ref_touch s xs) = remember n s (map fst xs)"
  by (auto simp: ref_touch_def ref_hit_def remember_def filter_fst_neq_map map_of_eq_None_iff
      split: option.split)

lemma set_ref_add: "set (ref_add n k v xs) \<subseteq> insert (k, v) (set xs)"
  by (auto simp: ref_add_def ref_hit_def dest: in_set_butlastD)

lemma set_ref_touch: "set (ref_touch k xs) \<subseteq> set xs"
  by (auto simp: ref_touch_def ref_hit_def dest: map_of_SomeD split: option.splits)

lemma recorder_Add_law:
  assumes "rec_inv r" and "s \<noteq> []"
  shows "\<exists>r'. recorder_Add s r = Ok (None, r') \<and> rec_inv r' \<and>
           records r' = remember (rec_cap r) s (records r) \<and> rec_cap r' = rec_cap r"
proof -
  let ?l = "rec_l r"
  note inv = rec_invD [OF assms(1)]
  have peek: "lru_Peek (IString s) ?l = (map_of (lru_abs ?l) s, s \<in> fst ` set (lru_abs ?l), ?l)"
    using lruc.peek_law [OF inv(1)] by simp
  show ?thesis
  proof (cases "s \<in> fst ` set (lru_abs ?l)")
    case True
    obtain l' where l': "lru_Get (IString s) ?l = (map_of (lru_abs ?l) s, True, l')" "lru_inv l'"
      "lru_abs l' = ref_touch s (lru_abs ?l)" "lru_cap l' = lru_cap ?l" "string_keys l'"
      using lruc.get_law [OF inv(1), of "IString s"] inv(2) True by auto
    then have "rec_inv (r\<lparr>rec_l := l'\<rparr>)"
      using inv(3) set_ref_touch [of s "lru_abs ?l"] by (auto simp: rec_inv_def)
    with l' True assms(2) peek show ?thesis
      by (simp add: recorder_Add_def lru_Contains_def records_def rec_cap_def map_fst_ref_touch)
  next
    case False
    obtain b l' where l': "lru_Add (IString s) (Index s) [] ?l () = Ok (b, l', ())" "lru_inv l'"
      "lru_abs l' = ref_add (lru_cap ?l) s (Index s) (lru_abs ?l)" "lru_cap l' = lru_cap ?l"
      "string_keys l'"
      using lruc.add_without_callbacks [OF inv(1), of "IString s" "Index s" "()"] inv(2) by auto
    then have "rec_inv (r\<lparr>rec_l := l'\<rparr>)"
      using inv(3) assms(2) set_ref_add [of "lru_cap ?l" s "Index s" "lru_abs ?l"]
      by (auto simp: rec_inv_def)
    with l' False assms(2) peek show ?thesis
      by (simp add: recorder_Add_def records_def rec_cap_def map_fst_ref_add)
  qed
qed

lemma recorder_List_law: "rec_inv r \<Longrightarrow> recorder_List r = Ok (records r)"
  using lruc.filt_law [of "rec_l r" "\<lambda>_ _. True"]
  by (simp add: recorder_List_def rec_inv_def records_def case_prod_beta)

lemma recorder_Find_law:
  assumes "rec_inv r"
  shows "recorder_Find s r = Ok (filter (matches s) (records r))"
proof -
  let ?f = "\<lambda>(key::string) value. length (suffixarray_Lookup value s 1) > 0"
  have "filter (case_prod ?f) (lru_abs (rec_l r)) = filter (matches s \<circ> fst) (lru_abs (rec_l r))"
  proof (rule filter_cong)
    fix p assume p: "p \<in> set (lru_abs (rec_l r))"
    then have "snd p = Index (fst p)" using rec_invD(3) [OF assms, of "fst p" "snd p"] by simp
    then show "case_prod ?f p = (matches s \<circ> fst) p"
      using suffixarray_Lookup_pos [of "snd p" s] by (simp add: matches_def case_prod_beta)
  qed simp
  with lruc.filt_law [OF rec_invD(2) [OF assms], of ?f] show ?thesis
    by (simp add: recorder_Find_def records_def filter_map)
qed

subsection \<open>The interface of a recorder\<close>

text \<open>
  The Go interface \<^verbatim>\<open>Recorder\<close> and its contract on the abstract history; the in-memory recorder
  and the initialised persistent recorder both provide it.
\<close>

fun add_all :: "(string \<Rightarrow> 'r \<Rightarrow> (error option \<times> 'r) outcome) \<Rightarrow> string list \<Rightarrow> 'r \<Rightarrow> 'r outcome" where
  "add_all add [] r = Ok r"
| "add_all add (s # ss) r = obind (add s r) (\<lambda>(_, r'). add_all add ss r')"

locale recorder_contract =
  fixes inv :: "'r \<Rightarrow> bool"
    and recs :: "'r \<Rightarrow> string list"
    and cap :: "'r \<Rightarrow> nat"
    and add :: "string \<Rightarrow> 'r \<Rightarrow> (error option \<times> 'r) outcome"
    and find :: "string \<Rightarrow> 'r \<Rightarrow> string list outcome"
    and lst :: "'r \<Rightarrow> string list outcome"
  assumes add_contract: "inv r \<Longrightarrow> s \<noteq> [] \<Longrightarrow>
      \<exists>r'. add s r = Ok (None, r') \<and> inv r' \<and> recs r' = remember (cap r) s (recs r) \<and> cap r' = cap r"
    and add_empty: "inv r \<Longrightarrow> add [] r = Ok (Some (Err ''ERROR: record is empty''), r)"
    and find_contract: "inv r \<Longrightarrow> find s r = Ok (filter (matches s) (recs r))"
    and list_contract: "inv r \<Longrightarrow> lst r = Ok (recs r)"
    and cap_pos: "inv r \<Longrightarrow> 0 < cap r"
begin

lemma add_all_contract:
  "inv r \<Longrightarrow>
     \<exists>r'. add_all add ss r = Ok r' \<and> inv r' \<and> cap r' = cap r \<and>
          recs r' = fold (remember (cap r)) (filter (\<lambda>s. s \<noteq> []) ss) (recs r)"
proof (induction ss arbitrary: r)
  case Nil
  then show ?case by simp
next
  case (Cons s ss)
  show ?case
  proof (cases "s = []")
    case True
    with Cons add_empty [OF Cons.prems] show ?thesis by simp
  next
    case False
    from add_contract [OF Cons.prems False] obtain r' where
      "add s r = Ok (None, r')" "inv r'" "recs r' = remember (cap r) s (recs r)" "cap r' = cap r"
      by blast
    with False Cons.IH [of r'] show ?thesis by auto
  qed
qed

text \<open>From an empty recorder: the most recent distinct commands, the latest first.\<close>

lemma add_all_recent:
  assumes "inv r" and "recs r = []"
  shows "\<exists>r'. add_all add ss r = Ok r' \<and> inv r' \<and>
           lst r' = Ok (take (cap r) (keep_first (rev (filter (\<lambda>s. s \<noteq> []) ss)))) \<and>
           find q r' = Ok (filter (matches q) (take (cap r) (keep_first (rev (filter (\<lambda>s. s \<noteq> []) ss)))))"
proof -
  from add_all_contract [OF assms(1), of ss] obtain r' where
    r': "add_all add ss r = Ok r'" "inv r'"
      "recs r' = fold (remember (cap r)) (filter (\<lambda>s. s \<noteq> []) ss) (recs r)" by blast
  then have "recs r' = take (cap r) (keep_first (rev (filter (\<lambda>s. s \<noteq> []) ss)))"
    using assms(2) cap_pos [OF assms(1)] by (simp add: fold_remember_Nil)
  with r' show ?thesis by (simp add: list_contract find_contract)
qed

end

interpretation mem_rec: recorder_contract rec_inv records rec_cap recorder_Add recorder_Find recorder_List
proof (unfold_locales, goal_cases)
  case (1 r s)
  then show ?case by (rule recorder_Add_law)
next
  case (2 r)
  show ?case by (simp add: recorder_Add_def)
next
  case (3 r s)
  then show ?case by (rule recorder_Find_law)
next
  case (4 r)
  then show ?case by (rule recorder_List_law)
next
  case (5 r)
  then show ?case by (rule records_inv(3))
qed

definition pr_inv :: "persistentRecorder \<Rightarrow> bool" where
  "pr_inv p \<longleftrightarrow> pr_inited p \<and> rec_inv (pr_r p)"

interpretation disk_rec: recorder_contract pr_inv "\<lambda>p. records (pr_r p)" "\<lambda>p. rec_cap (pr_r p)" pr_Add pr_Find pr_List
proof (unfold_locales, goal_cases)
  case (1 r s)
  then show ?case
    using mem_rec.add_contract [of "pr_r r" s] by (auto simp: pr_Add_def pr_inv_def checkInited_def)
next
  case (2 r)
  then show ?case by (simp add: pr_Add_def pr_inv_def checkInited_def mem_rec.add_empty)
next
  case (3 r s)
  then show ?case by (simp add: pr_Find_def pr_inv_def checkInited_def mem_rec.find_contract)
next
  case (4 r)
  then show ?case by (simp add: pr_List_def pr_inv_def checkInited_def mem_rec.list_contract)
next
  case (5 r)
  then show ?case by (simp add: pr_inv_def mem_rec.cap_pos)
qed

section \<open>Saving and loading\<close>

text \<open>The histories that survive storage unchanged.\<close>

definition storable :: "nat \<Rightarrow> string list \<Rightarrow> bool" where
  "storable n xs \<longleftrightarrow> distinct xs \<and> length xs \<le> n \<and> (\<forall>x \<in> set xs. x \<noteq> [] \<and> valid_utf8 x)"

lemma length_remember:
  "distinct xs \<Longrightarrow> length xs \<le> n \<Longrightarrow> 0 < n \<Longrightarrow> length (remember n s xs) \<le> n"
  by (auto simp: remember_def Suc_le_eq intro: less_le_trans [OF length_filter_less])

lemma storable_remember:
  "storable n xs \<Longrightarrow> 0 < n \<Longrightarrow> s \<noteq> [] \<Longrightarrow> valid_utf8 s \<Longrightarrow> storable n (remember n s xs)"
  using length_remember [of xs n s] unfolding storable_def
  by (auto simp: remember_def distinct_butlast dest: in_set_butlastD split: if_splits)

lemma load_loop_total:
  "rec_inv r \<Longrightarrow> \<exists>e r'. load_loop ss r = Ok (e, r') \<and> rec_inv r' \<and> rec_cap r' = rec_cap r"
proof (induction ss arbitrary: r)
  case Nil
  then show ?case by simp
next
  case (Cons s ss)
  show ?case
  proof (cases "s = []")
    case True
    with Cons.prems show ?thesis by (simp add: mem_rec.add_empty)
  next
    case False
    from mem_rec.add_contract [OF Cons.prems False] obtain r' where
      "recorder_Add s r = Ok (None, r')" "rec_inv r'" "rec_cap r' = rec_cap r" by blast
    with Cons.IH [of r'] show ?thesis by auto
  qed
qed

lemma load_loop_add_all:
  "rec_inv r \<Longrightarrow> \<forall>s \<in> set ss. s \<noteq> [] \<Longrightarrow>
     load_loop ss r = obind (add_all recorder_Add ss r) (\<lambda>r'. Ok (None, r'))"
proof (induction ss arbitrary: r)
  case Nil
  then show ?case by simp
next
  case (Cons s ss)
  then obtain r' where "recorder_Add s r = Ok (None, r')" "rec_inv r'"
    using mem_rec.add_contract [of r s] by auto
  with Cons show ?case by simp
qed

lemma load_loop_storable:
  assumes "rec_inv r" and "records r = []" and "storable (rec_cap r) xs"
  shows "\<exists>r'. load_loop (rev xs) r = Ok (None, r') \<and> rec_inv r' \<and> records r' = xs \<and> rec_cap r' = rec_cap r"
proof -
  have ne: "\<forall>s \<in> set (rev xs). s \<noteq> []" using assms(3) by (auto simp: storable_def)
  then have fl: "filter (\<lambda>s. s \<noteq> []) (rev xs) = rev xs" by (intro filter_True) auto
  from mem_rec.add_all_contract [OF assms(1), of "rev xs"] obtain r' where
    r': "add_all recorder_Add (rev xs) r = Ok r'" "rec_inv r'" "rec_cap r' = rec_cap r"
      "records r' = fold (remember (rec_cap r)) (rev xs) []" using fl assms(2) by auto
  moreover have "records r' = xs"
    using r'(4) assms(3) mem_rec.cap_pos [OF assms(1)]
    by (simp add: fold_remember_rev storable_def)
  ultimately show ?thesis using load_loop_add_all [OF assms(1) ne] by simp
qed

lemma pr_sync_eq:
  "pr_inv p \<Longrightarrow>
     pr_sync E p w =
       Ok (storage_Save E (pr_storage p) (pr_f p) (json_Marshal (records (pr_r p))) w)"
  by (simp add: pr_sync_def pr_inv_def checkInited_def mem_rec.list_contract)

text \<open>What every start of an etcd recorder keeps, whether etcd answers or not.\<close>

lemma pr_Run_total:
  assumes "rec_inv (pr_r p)" and "pr_storage p = EtcdStorage"
  shows "\<exists>p' w'. pr_Run E p w = Ok (p', w') \<and> pr_inv p' \<and> pr_f p' = pr_f p \<and>
           pr_stopCh p' = pr_stopCh p \<and> pr_storage p' = EtcdStorage \<and>
           rec_cap (pr_r p') = rec_cap (pr_r p)"
proof -
  obtain res w1 where load: "GetKV (env_cli E) (pr_f p) w = (res, w1)" by (rule prod.exhaust)
  show ?thesis
  proof (cases res)
    case (Inl e)
    with assms load show ?thesis by (simp add: pr_Run_def initOrLoad_def pr_inv_def)
  next
    case (Inr data)
    show ?thesis
    proof (cases "data = [] \<or> json_Unmarshal data = None")
      case True
      with Inr assms load show ?thesis by (auto simp: pr_Run_def initOrLoad_def pr_inv_def Let_def)
    next
      case False
      then obtain xs where "json_Unmarshal data = Some xs" by auto
      with False Inr assms load load_loop_total [OF assms(1), of "rev xs"] show ?thesis
        by (auto simp: pr_Run_def initOrLoad_def pr_inv_def)
    qed
  qed
qed

text \<open>The start of a fresh recorder when etcd answers: it holds what is stored.\<close>

definition stored :: "(string \<rightharpoonup> string) \<Rightarrow> nat \<Rightarrow> string \<Rightarrow> string list \<Rightarrow> bool" where
  "stored kv n f xs \<longleftrightarrow> storable n xs \<and> (kv f = Some (json_Marshal xs) \<or> kv f = None \<and> xs = [])"

lemma json_Marshal_not_Nil [simp]: "json_Marshal xs \<noteq> []"
  by (simp add: json_Marshal_def)

lemma pr_Run_loads:
  assumes rel: "kv_reliable (env_cli E) view" and "rec_inv (pr_r p)" and "records (pr_r p) = []"
    and et: "pr_storage p = EtcdStorage" and st: "stored (view w) (rec_cap (pr_r p)) (pr_f p) xs"
  shows "\<exists>p' w'. pr_Run E p w = Ok (p', w') \<and> pr_inv p' \<and> records (pr_r p') = xs \<and>
           pr_f p' = pr_f p \<and> pr_stopCh p' = pr_stopCh p \<and> pr_storage p' = EtcdStorage \<and>
           rec_cap (pr_r p') = rec_cap (pr_r p) \<and> view w' = view w"
proof -
  obtain w' where get: "GetKV (env_cli E) (pr_f p) w =
      (case view w (pr_f p) of None \<Rightarrow> (Inl ErrEmptyValue, w') | Some v \<Rightarrow> (Inr v, w'))"
    and same: "view w' = view w"
    using GetKV_reliable [OF rel] by blast
  show ?thesis
  proof (cases "view w (pr_f p)")
    case None
    with st have "xs = []" by (simp add: stored_def)
    with None get same assms show ?thesis by (simp add: pr_Run_def initOrLoad_def pr_inv_def)
  next
    case (Some v)
    with st have v: "v = json_Marshal xs" and storable: "storable (rec_cap (pr_r p)) xs"
      by (simp_all add: stored_def)
    have "json_Unmarshal v = Some xs"
      using storable by (simp add: v Unmarshal_Marshal map_sanitize_valid storable_def)
    with Some get same assms v load_loop_storable [OF assms(2,3) storable] show ?thesis
      by (auto simp: pr_Run_def initOrLoad_def pr_inv_def)
  qed
qed

lemma NewEtcdRecorder_Ok:
  assumes "1 \<le> n"
  shows "\<exists>p. NewEtcdRecorder n f = Ok p \<and> rec_inv (pr_r p) \<and> records (pr_r p) = [] \<and>
           rec_cap (pr_r p) = nat n \<and> pr_f p = filepath_Join [defaultEtcdPrefix, f] \<and>
           pr_stopCh p = Some [] \<and> pr_storage p = EtcdStorage"
  using NewRecorder_Ok [OF assms] by (auto simp: NewEtcdRecorder_def)

section \<open>Properties of recorders\<close>

text \<open>C28: A recorder of capacity \<open>n\<close> is the list of the \<open>n\<close> most recent distinct commands. After
  adding any sequence of commands to a new recorder (empty commands are refused and change
  nothing), \<^verbatim>\<open>List\<close> returns the \<open>n\<close> latest distinct non-empty commands, the latest first, and
  \<^verbatim>\<open>Find(q)\<close> returns, in the same order, exactly those of them that contain the non-empty string
  \<open>q\<close>; the empty query finds nothing.\<close>

theorem recorder_keeps_most_recent:
  assumes "1 \<le> n"
  shows "\<exists>r0 r. NewRecorder n = Ok r0 \<and> add_all recorder_Add ss r0 = Ok r \<and>
           recorder_List r = Ok (take (nat n) (keep_first (rev (filter (\<lambda>s. s \<noteq> []) ss)))) \<and>
           recorder_Find q r =
             Ok (filter (\<lambda>k. q \<noteq> [] \<and> sublist q k)
                   (take (nat n) (keep_first (rev (filter (\<lambda>s. s \<noteq> []) ss)))))"
proof -
  obtain r0 where r0: "NewRecorder n = Ok r0" "rec_inv r0" "records r0 = []" "rec_cap r0 = nat n"
    using NewRecorder_Ok [OF assms] by blast
  have "matches q = (\<lambda>k. q \<noteq> [] \<and> sublist q k)" by (rule ext) (simp add: matches_def)
  with mem_rec.add_all_recent [OF r0(2,3), of ss q] r0(1,4) show ?thesis by auto
qed

theorem recorder_keeps_most_recent_witness:
  "\<exists>r0 r. NewRecorder 2 = Ok r0 \<and>
     add_all recorder_Add [''ls'', ''pwd'', '''', ''ls'', ''ps''] r0 = Ok r \<and>
     recorder_List r = Ok [''ps'', ''ls''] \<and> recorder_Find ''l'' r = Ok [''ls'']"
proof -
  have one: "(1::int) \<le> 2" by simp
  have l: "take 2 (keep_first (rev (filter (\<lambda>s. s \<noteq> []) [''ls'', ''pwd'', '''', ''ls'', ''ps''])))
      = [''ps'', ''ls'']" by code_simp
  have f: "filter (\<lambda>k. ''l'' \<noteq> [] \<and> sublist ''l'' k) [''ps'', ''ls''] = [''ls'']" by code_simp
  from recorder_keeps_most_recent
    [OF one, of "[''ls'', ''pwd'', '''', ''ls'', ''ps'']" "''l''", unfolded nat_numeral l f]
  show ?thesis .
qed

text \<open>C29: Saving and loading is the identity. When etcd answers, syncing an initialised etcd
  recorder and then running a new recorder for the same user on the resulting store gives a
  recorder with the same history in the same order, provided its commands are valid UTF-8; the
  new recorder is initialised and loading changes no key.\<close>

theorem sync_then_run_restores_history:
  assumes "kv_reliable (env_cli E) view" and "1 \<le> n" and "rec_cap (pr_r p) = nat n"
    and "pr_inv p" and "pr_storage p = EtcdStorage"
    and "pr_f p = filepath_Join [defaultEtcdPrefix, f]"
    and "\<forall>s \<in> set (records (pr_r p)). valid_utf8 s"
  shows "\<exists>w1 p0 p' w2. pr_sync E p w = Ok (None, w1) \<and> NewEtcdRecorder n f = Ok p0 \<and>
           pr_Run E p0 w1 = Ok (p', w2) \<and> pr_inited p' \<and> view w2 = view w1 \<and>
           pr_List p' = pr_List p"
proof -
  let ?xs = "records (pr_r p)"
  obtain p0 where p0: "NewEtcdRecorder n f = Ok p0" "rec_inv (pr_r p0)" "records (pr_r p0) = []"
    "rec_cap (pr_r p0) = nat n" "pr_f p0 = pr_f p" "pr_storage p0 = EtcdStorage"
    using NewEtcdRecorder_Ok [OF assms(2), of f] assms(6) by auto
  obtain w1 where put: "PutKV (env_cli E) (pr_f p) (json_Marshal ?xs) w = (None, w1)"
    "view w1 = (view w)(pr_f p \<mapsto> json_Marshal ?xs)"
    using PutKV_reliable [OF assms(1), of "pr_f p" "json_Marshal ?xs" w] by (metis prod.collapse)
  have "rec_inv (pr_r p)" using assms(4) by (simp add: pr_inv_def)
  then have "storable (nat n) ?xs"
    using records_inv [of "pr_r p"] assms(3,7) by (auto simp: storable_def)
  with put have "stored (view w1) (nat n) (pr_f p) ?xs" by (simp add: stored_def)
  with pr_Run_loads [OF assms(1) p0(2,3,6), of w1 ?xs] p0 obtain p' w2 where
    "pr_Run E p0 w1 = Ok (p', w2)" "pr_inv p'" "records (pr_r p') = ?xs" "view w2 = view w1" by auto
  with p0(1) put assms(4,5) show ?thesis
    by (auto simp: pr_sync_eq disk_rec.list_contract pr_inv_def)
qed

text \<open>A concrete environment: etcd in memory and a file system that fails.\<close>

definition mem_env :: "mem_world env" where
  "mem_env =
     \<lparr>env_cli = mem_cli, os_NotExist = (\<lambda>_ _. True),
      os_Create = (\<lambda>_ w. (Some (Err ''read-only''), w)),
      ioutil_WriteFile = (\<lambda>_ _ w. (Some (Err ''read-only''), w)),
      ioutil_ReadFile = (\<lambda>_ w. (Inl (Err ''read-only''), w))\<rparr>"

lemma mem_env_reliable: "kv_reliable (env_cli mem_env) mem_view"
  by (simp add: mem_env_def mem_reliable)

text \<open>A running recorder of the user \<^verbatim>\<open>u\<close> with two commands.\<close>

definition sample_recorder :: recorder where
  "sample_recorder = \<lparr>rec_l = lru_push (IString ''ps'') (Index ''ps'') (lru_push (IString ''ls'') (Index ''ls'')
     \<lparr>lru_m = Map.empty, lru_l = [], lru_capacity = 2, lru_next = 0\<rparr>)\<rparr>"

definition sample_pr :: persistentRecorder where
  "sample_pr = \<lparr>pr_inited = True, pr_r = sample_recorder, pr_f = ''/mysh/data/u'',
     pr_stopCh = Some [], pr_storage = EtcdStorage\<rparr>"

lemma sample_recorder_inv: "rec_inv sample_recorder"
proof -
  have "lru_inv (rec_l sample_recorder)"
    unfolding sample_recorder_def recorder.simps
    by (intro inv_push) (auto simp: lru_inv_def lru_abs_def lru_push_def list_PushFront_def)
  then show ?thesis
    by (auto simp: rec_inv_def sample_recorder_def string_keys_def lru_push_def list_PushFront_def
        lru_abs_def entry_def)
qed

lemma sample_recorder_records: "records sample_recorder = [''ps'', ''ls'']" "rec_cap sample_recorder = 2"
  by (simp_all add: records_def rec_cap_def sample_recorder_def lru_abs_def lru_cap_def lru_push_def
      list_PushFront_def entry_def)

lemma sample_pr_inv: "pr_inv sample_pr"
  by (simp add: pr_inv_def sample_pr_def sample_recorder_inv)

lemma path_of_u: "filepath_Join [defaultEtcdPrefix, ''u''] = ''/mysh/data/u''"
  by code_simp

theorem sync_then_run_restores_history_witness:
  "\<exists>w1 p0 p' w2. pr_sync mem_env sample_pr mem_empty = Ok (None, w1) \<and> NewEtcdRecorder 2 ''u'' = Ok p0 \<and>
     pr_Run mem_env p0 w1 = Ok (p', w2) \<and> pr_inited p' \<and> mem_view w2 = mem_view w1 \<and>
     pr_List p' = Ok [''ps'', ''ls'']"
proof -
  have "pr_List sample_pr = Ok [''ps'', ''ls'']"
    unfolding disk_rec.list_contract [OF sample_pr_inv]
    by (simp add: sample_recorder_records sample_pr_def)
  moreover have "\<forall>s \<in> set (records (pr_r sample_pr)). valid_utf8 s"
    by (simp add: sample_pr_def sample_recorder_records valid_utf8_ascii)
  ultimately show ?thesis
    using sync_then_run_restores_history
      [OF mem_env_reliable _ _ sample_pr_inv, of 2 "''u''" mem_empty]
    by (simp add: sample_pr_def sample_recorder_records path_of_u)
qed

text \<open>C30: A failed load wipes the stored history. If etcd does not answer when an etcd recorder
  starts (a time-out, say), \<^verbatim>\<open>Run\<close> drops the error and the recorder runs with an empty history;
  its next sync then stores the empty list over whatever the key held.\<close>

theorem failed_load_wipes_history:
  assumes "1 \<le> n" and "GetKV (env_cli E) (filepath_Join [defaultEtcdPrefix, f]) w = (Inl e, w1)"
    and "cli_Put (env_cli E) (filepath_Join [defaultEtcdPrefix, f]) ''[]'' None w2 = (None, w3)"
  shows "\<exists>p p'. NewEtcdRecorder n f = Ok p \<and> pr_Run E p w = Ok (p', w1) \<and> pr_inited p' \<and>
           pr_List p' = Ok [] \<and> pr_sync E p' w2 = Ok (None, w3)"
proof -
  obtain p where p: "NewEtcdRecorder n f = Ok p" "rec_inv (pr_r p)" "records (pr_r p) = []"
    "pr_f p = filepath_Join [defaultEtcdPrefix, f]" "pr_storage p = EtcdStorage"
    using NewEtcdRecorder_Ok [OF assms(1), of f] by blast
  then have "pr_Run E p w = Ok (p\<lparr>pr_inited := True\<rparr>, w1)" "pr_inv (p\<lparr>pr_inited := True\<rparr>)"
    using assms(2) by (simp_all add: pr_Run_def initOrLoad_def pr_inv_def)
  with p assms(3) show ?thesis
    by (simp add: pr_sync_eq disk_rec.list_contract PutKV_def json_Marshal_def)
qed

definition flaky_env :: "mem_world env" where
  "flaky_env = mem_env\<lparr>env_cli := mem_cli\<lparr>cli_Get := (\<lambda>k pre w. (([], Some (Err ''context deadline exceeded'')), w))\<rparr>\<rparr>"

theorem failed_load_wipes_history_witness:
  "\<exists>p p'. NewEtcdRecorder 2 ''u'' = Ok p \<and>
     pr_Run flaky_env p (mem_put ''/mysh/data/u'' ''[\"ls\"]'' None mem_empty)
       = Ok (p', mem_put ''/mysh/data/u'' ''[\"ls\"]'' None mem_empty) \<and>
     pr_inited p' \<and> pr_List p' = Ok [] \<and>
     pr_sync flaky_env p' (mem_put ''/mysh/data/u'' ''[\"ls\"]'' None mem_empty)
       = Ok (None, mem_put ''/mysh/data/u'' ''[]'' None mem_empty)"
proof -
  let ?w = "mem_put ''/mysh/data/u'' ''[\"ls\"]'' None mem_empty"
  have "mem_put ''/mysh/data/u'' ''[]'' None ?w = mem_put ''/mysh/data/u'' ''[]'' None mem_empty"
    by (simp add: mem_put_def mem_empty_def)
  then have "cli_Put (env_cli flaky_env) ''/mysh/data/u'' ''[]'' None ?w
      = (None, mem_put ''/mysh/data/u'' ''[]'' None mem_empty)"
    by (simp add: flaky_env_def mem_env_def mem_cli_def)
  moreover have "GetKV (env_cli flaky_env) ''/mysh/data/u'' ?w = (Inl (Err ''context deadline exceeded''), ?w)"
    by (simp add: flaky_env_def mem_env_def GetKV_def)
  ultimately show ?thesis
    using failed_load_wipes_history [of 2 flaky_env "''u''" ?w _ ?w ?w] by (simp add: path_of_u)
qed

text \<open>A file recorder cannot be stopped. \<^verbatim>\<open>NewFileRecorder\<close> makes no stop channel, so a file
  recorder that runs saves its history in \<^verbatim>\<open>Stop\<close> and then blocks for ever in the send on a nil
  channel.\<close>

theorem file_recorder_Stop_blocks:
  assumes "NewFileRecorder n f = Ok p" and "pr_Run E p w = Ok (p', w')" and "pr_inv p'"
  shows "pr_Stop E p' w2 = Blocked"
proof -
  have "pr_stopCh p = None"
    using assms(1) by (auto simp: NewFileRecorder_def outcome_simps)
  moreover have "pr_stopCh p' = pr_stopCh p"
    using assms(2)
    by (auto simp: pr_Run_def initOrLoad_def outcome_simps Let_def split: prod.splits option.splits sum.splits if_splits)
  ultimately show ?thesis
    using assms(3) by (simp add: pr_Stop_def pr_sync_eq send_stop_def case_prod_beta)
qed

theorem file_recorder_Stop_blocks_witness:
  "\<exists>p p' w'. NewFileRecorder 2 ''x'' = Ok p \<and>
     pr_Run (mem_env\<lparr>os_NotExist := \<lambda>_ _. False\<rparr>) p mem_empty = Ok (p', w') \<and>
     pr_Stop (mem_env\<lparr>os_NotExist := \<lambda>_ _. False\<rparr>) p' w' = Blocked"
proof -
  let ?E = "mem_env\<lparr>os_NotExist := \<lambda>_ _. False\<rparr>"
  obtain r where r: "NewRecorder 2 = Ok r" "rec_inv r" using NewRecorder_Ok [of 2] by auto
  then obtain p where p: "NewFileRecorder 2 ''x'' = Ok p" "pr_r p = r" "pr_storage p = FileStorage"
    by (simp add: NewFileRecorder_def)
  let ?p = "p\<lparr>pr_inited := True\<rparr>"
  have run: "pr_Run ?E p mem_empty = Ok (?p, mem_empty)"
    using p by (simp add: pr_Run_def initOrLoad_def mem_env_def)
  have "pr_inv ?p" using p r by (simp add: pr_inv_def)
  with file_recorder_Stop_blocks [OF p(1) run] p run show ?thesis by blast
qed

end
