(* ===== verification/Runs.thy ===== *)
theory Runs
  imports Mysh_Prelude
begin

text \<open>
  Runs of the stateful components: the events that reach a component are taken one after the other, each by a
  function from the state to an answer and the next state.  The locale states what it takes that a component answers as
  an abstract machine does, one event at a time; that whole runs do so is proved here once for all components.
\<close>

primrec run_steps :: "('e \<Rightarrow> 's \<Rightarrow> ('a \<times> 's) outcome) \<Rightarrow> 'e list \<Rightarrow> 's \<Rightarrow> ('a list \<times> 's) outcome" where
  "run_steps step [] s = Ok ([], s)"
| "run_steps step (ev # evs) s =
     obind (step ev s) (\<lambda>(a, s1). obind (run_steps step evs s1) (\<lambda>(as, s2). Ok (a # as, s2)))"

primrec run_spec :: "('e \<Rightarrow> 't \<Rightarrow> 'a \<times> 't) \<Rightarrow> 'e list \<Rightarrow> 't \<Rightarrow> 'a list" where
  "run_spec spec [] t = []"
| "run_spec spec (ev # evs) t = (case spec ev t of (a, t1) \<Rightarrow> a # run_spec spec evs t1)"

lemma run_steps_append:
  "run_steps step (evs @ evs') s =
     obind (run_steps step evs s) (\<lambda>(as, s1). obind (run_steps step evs' s1) (\<lambda>(bs, s2). Ok (as @ bs, s2)))"
proof (induction evs arbitrary: s)
  case Nil
  then show ?case by (cases "run_steps step evs' s") auto
next
  case (Cons ev evs)
  then show ?case by (cases "step ev s") (auto simp: obind_assoc case_prod_beta)
qed

text \<open>A run whose events are acceptable in the states in which they come.\<close>

primrec run_fair ::
  "('e \<Rightarrow> 's \<Rightarrow> ('a \<times> 's) outcome) \<Rightarrow> ('e \<Rightarrow> 's \<Rightarrow> bool) \<Rightarrow> 'e list \<Rightarrow> 's \<Rightarrow> bool"
where
  "run_fair step fair [] s = True"
| "run_fair step fair (ev # evs) s =
     (fair ev s \<and> (case step ev s of Ok (_, s1) \<Rightarrow> run_fair step fair evs s1 | _ \<Rightarrow> True))"

lemma run_fair_always: "\<forall>ev \<in> set evs. \<forall>s. fair ev s \<Longrightarrow> run_fair step fair evs s"
  by (induction evs arbitrary: s) (auto split: outcome.split)

lemma run_fair_conj:
  "\<forall>ev \<in> set evs. P ev \<Longrightarrow> run_fair step fair evs s \<Longrightarrow> run_fair step (\<lambda>ev s. P ev \<and> fair ev s) evs s"
  by (induction evs arbitrary: s) (auto split: outcome.splits)

locale implements =
  fixes step :: "'e \<Rightarrow> 's \<Rightarrow> ('a \<times> 's) outcome"
    and spec :: "'e \<Rightarrow> 't \<Rightarrow> 'a \<times> 't"
    and inv :: "'s \<Rightarrow> bool"
    and rel :: "'s \<Rightarrow> 't \<Rightarrow> bool"
    and fair :: "'e \<Rightarrow> 's \<Rightarrow> bool"
  assumes one_step: "inv s \<Longrightarrow> \<exists>a s'. step ev s = Ok (a, s') \<and> inv s' \<and>
      (fair ev s \<and> rel s t \<longrightarrow> a = fst (spec ev t) \<and> rel s' (snd (spec ev t)))"
begin

text \<open>The component never fails, whatever the events.\<close>

lemma total: "inv s \<Longrightarrow> \<exists>as s'. run_steps step evs s = Ok (as, s') \<and> inv s'"
proof (induction evs arbitrary: s)
  case Nil
  then show ?case by simp
next
  case (Cons ev evs)
  from one_step [OF Cons.prems, of ev] obtain a s1 where "step ev s = Ok (a, s1)" "inv s1" by blast
  with Cons.IH [of s1] show ?case by auto
qed

text \<open>In a fair run it gives the answers of the abstract machine.\<close>

lemma refines:
  "inv s \<Longrightarrow> rel s t \<Longrightarrow> run_fair step fair evs s \<Longrightarrow>
     \<exists>s'. run_steps step evs s = Ok (run_spec spec evs t, s') \<and> inv s'"
proof (induction evs arbitrary: s t)
  case Nil
  then show ?case by simp
next
  case (Cons ev evs)
  from one_step [OF Cons.prems(1), of ev t] Cons.prems obtain a s1 where
    s: "step ev s = Ok (a, s1)" "inv s1" "a = fst (spec ev t)" "rel s1 (snd (spec ev t))" by auto
  then have "run_fair step fair evs s1" using Cons.prems(3) by simp
  with Cons.IH [OF s(2,4)] s show ?case by (auto simp: case_prod_beta)
qed

end

end
