(* ===== verification/Recorder_Manager.thy ===== *)
theory Recorder_Manager
  imports Recorder Runs
begin

text \<open>
  The recorder manager, \<^verbatim>\<open>recorder/recorder.go\<close> lines 17 to 30 and 309 to 422: an LRU cache of running
  persistent recorders, one per user.  A recorder is started and loaded on the first access of its
  user, saved and stopped when it is evicted or on \<^verbatim>\<open>Stop\<close>, and saved every second by the
  goroutine that \<^verbatim>\<open>Run\<close> starts.  Recorders are shared by the cache and their goroutines, so they
  live in an explicit heap.  The theory shows that the manager never crashes or blocks whatever
  etcd answers, and that, when etcd answers, the manager of bounded capacity is observably the
  unbounded map from users to histories.
\<close>

section \<open>The code\<close>

text \<open>
  The heap of recorders: \<open>h_recs\<close> are the objects, \<open>h_next\<close> is the allocator, \<open>h_loops\<close> lists
  the recorders whose sync goroutine runs, \<open>h_world\<close> is the state of the storages.
\<close>

record 'w rheap =
  h_recs :: "nat \<rightharpoonup> persistentRecorder"
  h_next :: nat
  h_loops :: "nat list"
  h_world :: 'w

record recorderManager =
  rm_recorderNum :: int
  rm_recorderSet :: "nat lru"
  rm_storageType :: StorageType

definition defaultRecorderNum :: int where
  "defaultRecorderNum = 100000"

definition defaultEtcdRecorderSize :: int where
  "defaultEtcdRecorderSize = 10000"

text \<open>A manager whose other fields are the zero values of Go.\<close>

definition manager_of :: "nat lru \<Rightarrow> recorderManager" where
  "manager_of s = \<lparr>rm_recorderNum = 0, rm_recorderSet = s, rm_storageType = STORAGE_TYPE_FILE\<rparr>"

definition DefaultRecorderManager :: "recorderManager outcome" where
  "DefaultRecorderManager = obind (NewLRU defaultRecorderNum) (\<lambda>s. Ok (manager_of s))"

text \<open>The options write the fields \<^verbatim>\<open>recorderNum\<close> and \<^verbatim>\<open>storageType\<close>.\<close>

datatype RMOpts = SetRecorderNum int | SetStorageType StorageType

fun apply_opt :: "RMOpts \<Rightarrow> int \<times> StorageType \<Rightarrow> int \<times> StorageType" where
  "apply_opt (SetRecorderNum n) (num, t) = (n, t)"
| "apply_opt (SetStorageType t') (num, t) = (num, t')"

definition NewRecorderManager :: "RMOpts list \<Rightarrow> recorderManager outcome" where
  "NewRecorderManager opts =
     (case fold apply_opt opts (0, STORAGE_TYPE_FILE) of (num, t) \<Rightarrow>
        (if num = 0 then obind (NewLRU defaultRecorderNum) (\<lambda>s. Ok (manager_of s))
         else obind (NewLRU num) (\<lambda>s. Ok (manager_of s))))"

text \<open>\<^verbatim>\<open>Stop\<close> of the recorder at an address; it is also the eviction callback of \<^verbatim>\<open>tryRun\<close>.\<close>

definition stop_at :: "'w env \<Rightarrow> nat \<Rightarrow> 'w rheap \<Rightarrow> 'w rheap outcome" where
  "stop_at E ref h =
     (case h_recs h ref of
        None \<Rightarrow> Panic ''nil pointer dereference''
      | Some p \<Rightarrow> obind (pr_Stop E p (h_world h)) (\<lambda>(p', w').
          Ok (h\<lparr>h_recs := (h_recs h)(ref \<mapsto> p'), h_world := w'\<rparr>)))"

text \<open>\<^verbatim>\<open>Run\<close> of a new recorder: it is loaded and its goroutine is started.\<close>

definition run_new :: "'w env \<Rightarrow> persistentRecorder \<Rightarrow> 'w rheap \<Rightarrow> (nat \<times> 'w rheap) outcome" where
  "run_new E p h =
     obind (pr_Run E p (h_world h)) (\<lambda>(p', w').
       Ok (h_next h,
           h\<lparr>h_recs := (h_recs h)(h_next h \<mapsto> p'), h_next := Suc (h_next h),
             h_loops := h_next h # h_loops h, h_world := w'\<rparr>))"

text \<open>
  \<^verbatim>\<open>tryRun\<close>.  The constructor never returns nil, so the error return of the source is not taken.
\<close>

definition tryRun ::
  "'w env \<Rightarrow> string \<Rightarrow> recorderManager \<Rightarrow> 'w rheap \<Rightarrow> (recorderManager \<times> 'w rheap) outcome"
where
  "tryRun E uid m h =
     (case lru_Peek (IString uid) (rm_recorderSet m) of (_, ok, _) \<Rightarrow>
        (if ok then Ok (m, h)
         else obind (NewTypedPersistentRecorder defaultEtcdRecorderSize uid (rm_storageType m)) (\<lambda>p.
              obind (run_new E p h) (\<lambda>(ref, h1).
              obind (lru_Add (IString uid) ref [stop_at E] (rm_recorderSet m) h1) (\<lambda>(_, s, h2).
                Ok (m\<lparr>rm_recorderSet := s\<rparr>, h2))))))"

definition rm_Stop ::
  "'w env \<Rightarrow> string \<Rightarrow> recorderManager \<Rightarrow> 'w rheap \<Rightarrow> (recorderManager \<times> 'w rheap) outcome"
where
  "rm_Stop E uid m h =
     (case lru_Peek (IString uid) (rm_recorderSet m) of
        (Some ref, True, _) \<Rightarrow>
          obind (stop_at E ref h) (\<lambda>h1.
            (case lru_Remove (IString uid) (rm_recorderSet m) of (_, s) \<Rightarrow>
               Ok (m\<lparr>rm_recorderSet := s\<rparr>, h1)))
      | (None, True, _) \<Rightarrow> Panic ''interface conversion: interface is nil''
      | (_, False, _) \<Rightarrow> Ok (m, h))"

text \<open>
  \<^verbatim>\<open>recorderSet.Get(id)\<close> followed by the type assertion, which panics on the nil of a missing key.
\<close>

definition get_recorder ::
  "string \<Rightarrow> recorderManager \<Rightarrow> 'w rheap \<Rightarrow> (nat \<times> persistentRecorder \<times> recorderManager) outcome"
where
  "get_recorder uid m h =
     (case lru_Get (IString uid) (rm_recorderSet m) of
        (None, _, _) \<Rightarrow> Panic ''interface conversion: interface is nil''
      | (Some ref, _, s) \<Rightarrow>
          (case h_recs h ref of
             None \<Rightarrow> Panic ''nil pointer dereference''
           | Some p \<Rightarrow> Ok (ref, p, m\<lparr>rm_recorderSet := s\<rparr>)))"

definition rm_Add ::
  "'w env \<Rightarrow> string \<Rightarrow> string \<Rightarrow> recorderManager \<Rightarrow> 'w rheap \<Rightarrow>
     (error option \<times> recorderManager \<times> 'w rheap) outcome"
where
  "rm_Add E uid s m h =
     obind (tryRun E uid m h) (\<lambda>(m1, h1).
     obind (get_recorder uid m1 h1) (\<lambda>(ref, p, m2).
     obind (pr_Add s p) (\<lambda>(err, p').
       Ok (err, m2, h1\<lparr>h_recs := (h_recs h1)(ref \<mapsto> p')\<rparr>))))"

definition rm_Find ::
  "'w env \<Rightarrow> string \<Rightarrow> string \<Rightarrow> recorderManager \<Rightarrow> 'w rheap \<Rightarrow>
     (string list \<times> recorderManager \<times> 'w rheap) outcome"
where
  "rm_Find E uid s m h =
     (if uid = '''' \<and> s = '''' then Ok ([], m, h)
      else obind (tryRun E uid m h) (\<lambda>(m1, h1).
           obind (get_recorder uid m1 h1) (\<lambda>(ref, p, m2).
           obind (pr_Find s p) (\<lambda>res. Ok (res, m2, h1)))))"

text \<open>
  The two branches of the \<^verbatim>\<open>select\<close> in the goroutine of \<^verbatim>\<open>Run\<close>: at a tick the recorder is
  synced (its error is dropped); a message on the stop channel is received and ends the loop.
\<close>

definition loop_tick :: "'w env \<Rightarrow> nat \<Rightarrow> 'w rheap \<Rightarrow> 'w rheap outcome" where
  "loop_tick E ref h =
     (case h_recs h ref of
        Some p \<Rightarrow> if ref \<in> set (h_loops h)
                  then obind (pr_sync E p (h_world h)) (\<lambda>(_, w'). Ok (h\<lparr>h_world := w'\<rparr>))
                  else Ok h
      | None \<Rightarrow> Ok h)"

definition loop_exit :: "nat \<Rightarrow> 'w rheap \<Rightarrow> 'w rheap" where
  "loop_exit ref h =
     (case h_recs h ref of
        Some p \<Rightarrow>
          (case pr_stopCh p of
             Some (msg # buf) \<Rightarrow>
               (if ref \<in> set (h_loops h)
                then h\<lparr>h_recs := (h_recs h)(ref \<mapsto> p\<lparr>pr_stopCh := Some buf\<rparr>),
                       h_loops := remove1 ref (h_loops h)\<rparr>
                else h)
           | _ \<Rightarrow> h)
      | None \<Rightarrow> h)"

text \<open>
  The manager's mutex makes each call one step; ticks and exits of the goroutines interleave
  with them in any order.
\<close>

datatype rm_event =
    CallAdd string string
  | CallFind string string
  | CallStop string
  | Tick nat
  | Exit nat

datatype rm_answer = AddRet "error option" | FindRet "string list" | NoAnswer

type_synonym 'w rm_state = "recorderManager \<times> 'w rheap"

fun rm_step :: "'w env \<Rightarrow> rm_event \<Rightarrow> 'w rm_state \<Rightarrow> (rm_answer \<times> 'w rm_state) outcome" where
  "rm_step E (CallAdd uid s) (m, h) =
     obind (rm_Add E uid s m h) (\<lambda>(err, m', h'). Ok (AddRet err, m', h'))"
| "rm_step E (CallFind uid s) (m, h) =
     obind (rm_Find E uid s m h) (\<lambda>(res, m', h'). Ok (FindRet res, m', h'))"
| "rm_step E (CallStop uid) (m, h) =
     obind (rm_Stop E uid m h) (\<lambda>(m', h'). Ok (NoAnswer, m', h'))"
| "rm_step E (Tick ref) (m, h) = obind (loop_tick E ref h) (\<lambda>h'. Ok (NoAnswer, m, h'))"
| "rm_step E (Exit ref) (m, h) = Ok (NoAnswer, m, loop_exit ref h)"

abbreviation rm_run :: "'w env \<Rightarrow> rm_event list \<Rightarrow> 'w rm_state \<Rightarrow> (rm_answer list \<times> 'w rm_state) outcome" where
  "rm_run E \<equiv> run_steps (rm_step E)"

definition rheap_empty :: "'w \<Rightarrow> 'w rheap" where
  "rheap_empty w = \<lparr>h_recs = Map.empty, h_next = 0, h_loops = [], h_world = w\<rparr>"

section \<open>The heap invariant\<close>

text \<open>
  \<open>A\<close> is the content of the cache: pairs of a user and the address of his recorder.  Every
  recorder is initialised and has capacity 10000; a cached recorder has an empty stop channel
  and a running goroutine; a running goroutine belongs to a cached recorder, or has its stop
  message waiting.
\<close>

definition user_path :: "string \<Rightarrow> string" where
  "user_path uid = filepath_Join [defaultEtcdPrefix, uid]"

definition rec_ok :: "persistentRecorder \<Rightarrow> bool" where
  "rec_ok p \<longleftrightarrow> pr_inv p \<and> pr_storage p = EtcdStorage \<and> rec_cap (pr_r p) = 10000"

definition heap_ok :: "(string \<times> nat) set \<Rightarrow> 'w rheap \<Rightarrow> bool" where
  "heap_ok A h \<longleftrightarrow>
     inj_on snd A \<and> inj_on fst A \<and> distinct (h_loops h) \<and>
     (\<forall>(uid, ref) \<in> A. ref \<in> set (h_loops h) \<and>
        (\<exists>p. h_recs h ref = Some p \<and> pr_stopCh p = Some [] \<and> pr_f p = user_path uid)) \<and>
     (\<forall>ref p. h_recs h ref = Some p \<longrightarrow> ref < h_next h \<and> rec_ok p) \<and>
     (\<forall>ref \<in> set (h_loops h). \<exists>p. h_recs h ref = Some p \<and>
        (ref \<in> snd ` A \<or> pr_stopCh p = Some [''Done'']))"

lemma heap_okI:
  assumes "inj_on snd A" and "inj_on fst A" and "distinct (h_loops h)"
    and "\<And>uid ref. (uid, ref) \<in> A \<Longrightarrow> ref \<in> set (h_loops h) \<and>
        (\<exists>p. h_recs h ref = Some p \<and> pr_stopCh p = Some [] \<and> pr_f p = user_path uid)"
    and "\<And>ref p. h_recs h ref = Some p \<Longrightarrow> ref < h_next h \<and> rec_ok p"
    and "\<And>ref. ref \<in> set (h_loops h) \<Longrightarrow> \<exists>p. h_recs h ref = Some p \<and>
        (ref \<in> snd ` A \<or> pr_stopCh p = Some [''Done''])"
  shows "heap_ok A h"
  using assms by (auto simp: heap_ok_def)

lemma heap_okD:
  assumes "heap_ok A h"
  shows "inj_on snd A" "inj_on fst A" "distinct (h_loops h)"
    "\<And>ref p. h_recs h ref = Some p \<Longrightarrow> ref < h_next h"
    "\<And>ref p. h_recs h ref = Some p \<Longrightarrow> rec_ok p"
    "\<And>ref. ref \<in> set (h_loops h) \<Longrightarrow> \<exists>p. h_recs h ref = Some p \<and>
        (ref \<in> snd ` A \<or> pr_stopCh p = Some [''Done''])"
  using assms by (simp_all add: heap_ok_def)

lemma heap_ok_cached:
  assumes "heap_ok A h" and "(uid, ref) \<in> A"
  shows "\<exists>p. h_recs h ref = Some p \<and> pr_stopCh p = Some [] \<and> pr_f p = user_path uid \<and>
           rec_ok p \<and> ref \<in> set (h_loops h)"
proof -
  from assms obtain p where "h_recs h ref = Some p" "pr_stopCh p = Some []" "pr_f p = user_path uid"
    "ref \<in> set (h_loops h)" unfolding heap_ok_def by blast
  with heap_okD(5) [OF assms(1)] show ?thesis by blast
qed

lemma only_ref: "heap_ok A h \<Longrightarrow> (uid, ref) \<in> A \<Longrightarrow> (i, ref) \<in> A \<longleftrightarrow> i = uid"
  using inj_onD [OF heap_okD(1), of A h "(i, ref)" "(uid, ref)"] by auto

lemma drop_user:
  assumes "heap_ok A h" and "(uid, ref) \<in> A"
  shows "{q \<in> A. fst q \<noteq> uid} = A - {(uid, ref)}"
proof -
  have "fst (uid, ref) = uid" by simp
  moreover have "q = (uid, ref)" if "q \<in> A" "fst q = uid" for q
    using inj_onD [OF heap_okD(2) [OF assms(1)], of q "(uid, ref)"] assms(2) that by simp
  ultimately show ?thesis by blast
qed

lemma heap_ok_empty: "heap_ok {} (rheap_empty w)"
  by (simp add: heap_ok_def rheap_empty_def)

text \<open>
  A change of one recorder that keeps the others: it stays in the cache with an empty stop
  channel, or leaves it with the stop message in the channel.
\<close>

lemma heap_ok_update:
  assumes ok: "heap_ok A h" and p: "h_recs h ref = Some p" and "rec_ok p'"
    and sub: "A' \<subseteq> A" and gone: "\<And>uid r. (uid, r) \<in> A - A' \<Longrightarrow> r = ref \<and> pr_stopCh p' = Some [''Done'']"
    and kept: "\<And>uid. (uid, ref) \<in> A' \<Longrightarrow> pr_stopCh p' = Some [] \<and> pr_f p' = pr_f p"
    and other: "pr_stopCh p = Some [''Done''] \<Longrightarrow> pr_stopCh p' = Some [''Done'']"
  shows "heap_ok A' (h\<lparr>h_recs := (h_recs h)(ref \<mapsto> p')\<rparr>)"
proof (rule heap_okI, goal_cases)
  case 1
  then show ?case using heap_okD(1) [OF ok] sub by (rule inj_on_subset)
next
  case 2
  then show ?case using heap_okD(2) [OF ok] sub by (rule inj_on_subset)
next
  case 3
  then show ?case using heap_okD(3) [OF ok] by simp
next
  case (4 uid r)
  with sub have "(uid, r) \<in> A" by blast
  with heap_ok_cached [OF ok this] 4 kept p show ?case by (cases "r = ref") auto
next
  case (5 r q)
  with heap_okD(4,5) [OF ok] p assms(3) show ?case by (auto split: if_splits)
next
  case (6 r)
  then obtain q where q: "h_recs h r = Some q" "r \<in> snd ` A \<or> pr_stopCh q = Some [''Done'']"
    using heap_okD(6) [OF ok, of r] by auto
  show ?case
  proof (cases "r = ref")
    case True
    with q p other gone show ?thesis by force
  next
    case False
    with q gone show ?thesis by force
  qed
qed

lemma stop_at_eq:
  assumes "heap_ok A h" and "(uid, ref) \<in> A" and "h_recs h ref = Some p"
  shows "stop_at E ref h =
      Ok (h\<lparr>h_recs := (h_recs h)(ref \<mapsto> p\<lparr>pr_stopCh := Some [''Done'']\<rparr>),
            h_world := snd (PutKV (env_cli E) (user_path uid) (json_Marshal (records (pr_r p))) (h_world h))\<rparr>)"
  using heap_ok_cached [OF assms(1,2)] assms(3)
  by (auto simp: stop_at_def pr_Stop_def send_stop_def rec_ok_def pr_sync_eq case_prod_beta)

lemma stop_at_ok:
  assumes ok: "heap_ok A h" and a: "(uid, ref) \<in> A" and p: "h_recs h ref = Some p"
  shows "heap_ok (A - {(uid, ref)}) (h\<lparr>h_recs := (h_recs h)(ref \<mapsto> p\<lparr>pr_stopCh := Some [''Done'']\<rparr>)\<rparr>)"
proof (rule heap_ok_update [OF ok p], goal_cases)
  case 1
  then show ?case using heap_okD(5) [OF ok p] by (simp add: rec_ok_def pr_inv_def)
next
  case (4 i)
  then show ?case using a inj_onD [OF heap_okD(1) [OF ok], of "(i, ref)" "(uid, ref)"] by auto
qed auto

lemma heap_ok_new:
  assumes ok: "heap_ok A h" and "uid \<notin> fst ` A" and "rec_ok p" and "pr_f p = user_path uid"
    and "pr_stopCh p = Some []"
  shows "heap_ok (insert (uid, h_next h) A)
           (h\<lparr>h_recs := (h_recs h)(h_next h \<mapsto> p), h_next := Suc (h_next h),
              h_loops := h_next h # h_loops h, h_world := w\<rparr>)"
proof -
  have fresh: "h_recs h (h_next h) = None"
    using heap_okD(4) [OF ok, of "h_next h"] by (cases "h_recs h (h_next h)") auto
  have loops: "h_next h \<notin> set (h_loops h)" using heap_okD(6) [OF ok, of "h_next h"] fresh by auto
  have snd: "h_next h \<notin> snd ` A" using fresh by (auto dest: heap_ok_cached [OF ok])
  show ?thesis
  proof (rule heap_okI, goal_cases)
    case (4 i r)
    then consider "(i, r) = (uid, h_next h)" | "(i, r) \<in> A" "r \<noteq> h_next h" using snd by force
    then show ?case
    proof cases
      case 1
      with assms show ?thesis by simp
    next
      case 2
      with heap_ok_cached [OF ok 2(1)] show ?thesis by auto
    qed
  next
    case (5 r q)
    then show ?case using heap_okD(4,5) [OF ok, of r q] assms(3) by (auto split: if_splits)
  next
    case (6 r)
    then show ?case using heap_okD(6) [OF ok, of r] loops by auto
  qed (use loops snd assms(2) heap_okD(1-3) [OF ok] in auto)
qed

text \<open>Replacing the history of a cached recorder, and changes of the storage alone.\<close>

lemma heap_ok_set:
  assumes ok: "heap_ok A h" and p: "h_recs h ref = Some p" and "rec_ok p'" and "pr_f p' = pr_f p"
    and "pr_stopCh p' = pr_stopCh p"
  shows "heap_ok A (h\<lparr>h_recs := (h_recs h)(ref \<mapsto> p')\<rparr>)"
  using assms heap_ok_cached [OF ok] by (intro heap_ok_update [OF ok p]) force+

lemma heap_ok_world [simp]: "heap_ok A (h\<lparr>h_world := w\<rparr>) = heap_ok A h"
  by (simp add: heap_ok_def)

lemma loop_tick_eq:
  assumes "heap_ok A h"
  shows "loop_tick E ref h =
     (case h_recs h ref of
        Some p \<Rightarrow> if ref \<in> set (h_loops h)
                  then Ok (h\<lparr>h_world := snd (PutKV (env_cli E) (pr_f p) (json_Marshal (records (pr_r p))) (h_world h))\<rparr>)
                  else Ok h
      | None \<Rightarrow> Ok h)"
  using heap_okD(5) [OF assms, of ref]
  by (auto simp: loop_tick_def rec_ok_def pr_sync_eq case_prod_beta split: option.split)

lemma loop_exit_ok:
  assumes ok: "heap_ok A h"
  shows "heap_ok A (loop_exit ref h)" and "h_world (loop_exit ref h) = h_world h"
    and "(uid, r) \<in> A \<Longrightarrow> h_recs (loop_exit ref h) r = h_recs h r"
proof -
  show "h_world (loop_exit ref h) = h_world h"
    by (simp add: loop_exit_def split: option.split list.split)
  show same: "h_recs (loop_exit ref h) r = h_recs h r" if "(uid, r) \<in> A" for uid r
    using heap_ok_cached [OF ok that] by (auto simp: loop_exit_def split: option.split list.split)
  show "heap_ok A (loop_exit ref h)"
  proof (cases "\<exists>p msg buf. h_recs h ref = Some p \<and> pr_stopCh p = Some (msg # buf) \<and> ref \<in> set (h_loops h)")
    case False
    then have "loop_exit ref h = h" by (auto simp: loop_exit_def split: option.split list.split)
    with ok show ?thesis by simp
  next
    case True
    then obtain p msg buf where p: "h_recs h ref = Some p" "pr_stopCh p = Some (msg # buf)"
      "ref \<in> set (h_loops h)" by blast
    have ne: "r \<noteq> ref" if "(i, r) \<in> A" for i r
      using heap_ok_cached [OF ok that] p by fastforce
    have "rec_ok (p\<lparr>pr_stopCh := Some buf\<rparr>)"
      using heap_okD(5) [OF ok p(1)] by (simp add: rec_ok_def pr_inv_def)
    note q = this
    have eq: "loop_exit ref h = h\<lparr>h_recs := (h_recs h)(ref \<mapsto> p\<lparr>pr_stopCh := Some buf\<rparr>),
        h_loops := remove1 ref (h_loops h)\<rparr>" using p by (simp add: loop_exit_def)
    show ?thesis
      unfolding eq
    proof (rule heap_okI, goal_cases)
      case (4 i r)
      with ne [OF 4] heap_ok_cached [OF ok 4] show ?case by auto
    next
      case (5 r p')
      then show ?case using q heap_okD(4,5) [OF ok] p(1) by (auto split: if_splits)
    next
      case (6 r)
      then show ?case using heap_okD(3) [OF ok] heap_okD(6) [OF ok, of r] by auto
    qed (use heap_okD(1-3) [OF ok] in auto)
  qed
qed

section \<open>Histories kept by the manager\<close>

text \<open>
  \<open>hist\<close> is the abstract state: the history of every user.  The manager represents it when a
  cached user's recorder holds his history and any other user's history is in the storage.
\<close>

text \<open>
  A manager is responsible for the users \<open>U\<close>, alone or beside other processes; the keys of the store that belong to none
  of them keep the values \<open>V\<close>.
\<close>

definition hist_on ::
  "(string \<Rightarrow> bool) \<Rightarrow> (string \<rightharpoonup> string) \<Rightarrow> ('w \<Rightarrow> string \<rightharpoonup> string) \<Rightarrow> (string \<times> nat) set \<Rightarrow> 'w rheap \<Rightarrow>
     (string \<Rightarrow> string list) \<Rightarrow> bool"
where
  "hist_on U V view A h hist \<longleftrightarrow>
     (\<forall>uid. U uid \<longrightarrow> plain_name uid \<and> storable 10000 (hist uid)) \<and>
     (\<forall>(uid, ref) \<in> A. U uid \<and> (\<exists>p. h_recs h ref = Some p \<and> records (pr_r p) = hist uid)) \<and>
     (\<forall>uid. U uid \<and> uid \<notin> fst ` A \<longrightarrow> stored (view (h_world h)) 10000 (user_path uid) (hist uid)) \<and>
     (\<forall>k. k \<notin> user_path ` Collect U \<longrightarrow> view (h_world h) k = V k)"

text \<open>The only process: all users are its own, and the other keys of the store do not matter.\<close>

definition hist_ok ::
  "('w \<Rightarrow> string \<rightharpoonup> string) \<Rightarrow> (string \<times> nat) set \<Rightarrow> 'w rheap \<Rightarrow> (string \<Rightarrow> string list) \<Rightarrow> bool"
where
  "hist_ok view A h hist \<longleftrightarrow> hist_on plain_name (view (h_world h)) view A h hist"

lemma hist_ok_on: "hist_ok view A h hist \<longleftrightarrow> (\<exists>V. hist_on plain_name V view A h hist)"
  by (auto simp: hist_ok_def hist_on_def)

lemma user_path_inject:
  "plain_name uid \<Longrightarrow> plain_name uid' \<Longrightarrow> user_path uid = user_path uid' \<longleftrightarrow> uid = uid'"
  by (simp add: user_path_def defaultEtcdPrefix_def join_plain_name)

lemma hist_onD:
  assumes "hist_on U V view A h hist"
  shows "\<And>uid ref. (uid, ref) \<in> A \<Longrightarrow>
      U uid \<and> (\<exists>p. h_recs h ref = Some p \<and> records (pr_r p) = hist uid)"
    "\<And>uid. U uid \<Longrightarrow> storable 10000 (hist uid)"
    "\<And>uid. U uid \<Longrightarrow> uid \<notin> fst ` A \<Longrightarrow>
      stored (view (h_world h)) 10000 (user_path uid) (hist uid)"
    "\<And>uid. U uid \<Longrightarrow> plain_name uid"
    "\<And>k. k \<notin> user_path ` Collect U \<Longrightarrow> view (h_world h) k = V k"
  using assms by (fastforce simp: hist_on_def)+

lemma hist_onI:
  assumes "\<And>uid ref. (uid, ref) \<in> A \<Longrightarrow>
      U uid \<and> (\<exists>p. h_recs h ref = Some p \<and> records (pr_r p) = hist uid)"
    and "\<And>uid. U uid \<Longrightarrow> plain_name uid \<and> storable 10000 (hist uid)"
    and "\<And>uid. U uid \<Longrightarrow> uid \<notin> fst ` A \<Longrightarrow>
      stored (view (h_world h)) 10000 (user_path uid) (hist uid)"
    and "\<And>k. k \<notin> user_path ` Collect U \<Longrightarrow> view (h_world h) k = V k"
  shows "hist_on U V view A h hist"
  using assms by (auto simp: hist_on_def)

text \<open>Saving the history of a cached user keeps the representation, whether he stays cached or not.\<close>

lemma hist_on_save:
  assumes rel: "kv_reliable (env_cli E) view" and hk: "hist_on U V view A h hist" and a: "(uid, ref) \<in> A"
    and p: "h_recs h ref = Some p" and A': "A - {(uid, ref)} \<subseteq> A'" "A' \<subseteq> A"
    and h': "\<And>i r. (i, r) \<in> A' \<Longrightarrow> h_recs h' r = h_recs h r"
    and w: "h_world h' = snd (PutKV (env_cli E) (user_path uid) (json_Marshal (records (pr_r p))) (h_world h))"
  shows "hist_on U V view A' h' hist"
proof -
  have u: "U uid" "records (pr_r p) = hist uid" using hist_onD(1) [OF hk a] p by auto
  have view: "view (h_world h') = (view (h_world h))(user_path uid \<mapsto> json_Marshal (hist uid))"
    using PutKV_reliable [OF rel] w u(2) by simp
  show ?thesis
  proof (rule hist_onI, goal_cases)
    case (1 i r)
    with A' have "(i, r) \<in> A" by blast
    with hist_onD(1) [OF hk this] h' 1 show ?case by auto
  next
    case (2 i)
    then show ?case using hist_onD(2,4) [OF hk] by blast
  next
    case (3 i)
    show ?case
    proof (cases "i = uid")
      case True
      then show ?thesis using view hist_onD(2) [OF hk u(1)] by (simp add: stored_def)
    next
      case False
      then have "i \<notin> fst ` A" using 3(2) A' by force
      then have "stored (view (h_world h)) 10000 (user_path i) (hist i)" using hist_onD(3) [OF hk 3(1)] by simp
      then show ?thesis
        using False view user_path_inject hist_onD(4) [OF hk] 3(1) u(1) by (simp add: stored_def)
    qed
  next
    case (4 k)
    then show ?case using u(1) view hist_onD(5) [OF hk 4] by auto
  qed
qed

lemma hist_on_stop:
  assumes rel: "kv_reliable (env_cli E) view" and ok: "heap_ok A h" and hk: "hist_on U V view A h hist"
    and a: "(uid, ref) \<in> A" and p: "h_recs h ref = Some p"
  shows "hist_on U V view (A - {(uid, ref)})
     (h\<lparr>h_recs := (h_recs h)(ref \<mapsto> p\<lparr>pr_stopCh := Some [''Done'']\<rparr>),
        h_world := snd (PutKV (env_cli E) (user_path uid) (json_Marshal (records (pr_r p))) (h_world h))\<rparr>) hist"
proof (rule hist_on_save [OF rel hk a p], goal_cases)
  case (3 i r)
  then have "r \<noteq> ref" using only_ref [OF ok a, of i] by blast
  then show ?case by simp
qed simp_all

section \<open>The manager's invariant\<close>

definition rm_users :: "recorderManager \<Rightarrow> (string \<times> nat) set" where
  "rm_users m = set (lru_abs (rm_recorderSet m))"

definition rm_inv :: "recorderManager \<Rightarrow> 'w rheap \<Rightarrow> bool" where
  "rm_inv m h \<longleftrightarrow> lru_inv (rm_recorderSet m) \<and> heap_ok (rm_users m) h"

text \<open>A recorder that is created and run for a user, whatever etcd answers and when it answers.\<close>

lemma fresh_run:
  "\<exists>p p' w'. NewTypedPersistentRecorder defaultEtcdRecorderSize uid t = Ok p \<and>
     pr_Run E p w = Ok (p', w') \<and> rec_ok p' \<and> pr_f p' = user_path uid \<and> pr_stopCh p' = Some [] \<and>
     (kv_reliable (env_cli E) view \<and> stored (view w) 10000 (user_path uid) xs \<longrightarrow>
        records (pr_r p') = xs \<and> view w' = view w)"
proof -
  have "(1::int) \<le> 10000" by simp
  from NewEtcdRecorder_Ok [OF this, of uid] obtain p where
    p: "NewEtcdRecorder 10000 uid = Ok p" "rec_inv (pr_r p)" "records (pr_r p) = []"
      "rec_cap (pr_r p) = 10000" "pr_f p = user_path uid" "pr_stopCh p = Some []" "pr_storage p = EtcdStorage"
    by (auto simp: user_path_def)
  have new: "NewTypedPersistentRecorder defaultEtcdRecorderSize uid t = Ok p"
    using p(1) by (cases t) (simp_all add: defaultEtcdRecorderSize_def)
  from pr_Run_total [OF p(2,7), of E w] p obtain p' w' where
    run: "pr_Run E p w = Ok (p', w')" "rec_ok p'" "pr_f p' = user_path uid" "pr_stopCh p' = Some []"
    by (auto simp: rec_ok_def)
  moreover have "records (pr_r p') = xs \<and> view w' = view w"
    if "kv_reliable (env_cli E) view" "stored (view w) 10000 (user_path uid) xs"
    using pr_Run_loads [OF that(1) p(2,3,7), of w xs] that(2) p run(1) by auto
  ultimately show ?thesis using new by blast
qed

lemma hist_on_new:
  assumes ok: "heap_ok A h" and hk: "hist_on U V view A h hist" and "U uid"
    and "records (pr_r p) = hist uid" and "view w = view (h_world h)"
  shows "hist_on U V view (insert (uid, h_next h) A)
           (h\<lparr>h_recs := (h_recs h)(h_next h \<mapsto> p), h_next := Suc (h_next h),
              h_loops := h_next h # h_loops h, h_world := w\<rparr>) hist"
proof (rule hist_onI, goal_cases)
  case (1 i r)
  show ?case
  proof (cases "(i, r) \<in> A")
    case True
    then have "r < h_next h" using heap_ok_cached [OF ok True] heap_okD(4) [OF ok] by blast
    with hist_onD(1) [OF hk True] show ?thesis by auto
  next
    case False
    with 1 assms show ?thesis by simp
  qed
qed (use hist_onD [OF hk] assms(5) in auto)

lemma set_ref_add_new:
  assumes "distinct (map fst xs)" and "k \<notin> fst ` set xs" and "0 < n"
  shows "set (ref_add n k v xs) = insert (k, v) (if ref_full n k xs then set xs - {last xs} else set xs)"
proof -
  have "set (butlast xs) = set xs - {last xs}" if "xs \<noteq> []"
  proof -
    have "distinct (butlast xs @ [last xs])" using assms(1) that by (simp add: distinct_map)
    moreover have "set xs = set (butlast xs @ [last xs])" using that by simp
    ultimately show ?thesis by auto
  qed
  with assms(2,3) show ?thesis by (auto simp: ref_add_def ref_full_def)
qed

text \<open>
  Putting a running recorder into the cache: if the cache is full, the least recently used
  recorder is saved and stopped.
\<close>

lemma cache_insert_law:
  assumes S: "lru_inv S" and new: "uid \<notin> fst ` set (lru_abs S)"
    and ok: "heap_ok (insert (uid, ref) (set (lru_abs S))) h" (is "heap_ok ?A h")
  shows "\<exists>b S' h'. lru_Add (IString uid) ref [stop_at E] S h = Ok (b, S', h') \<and> lru_inv S' \<and>
      heap_ok (set (lru_abs S')) h' \<and> uid \<in> fst ` set (lru_abs S') \<and> lru_cap S' = lru_cap S \<and>
      (kv_reliable (env_cli E) view \<and> hist_on U V view ?A h hist \<longrightarrow> hist_on U V view (set (lru_abs S')) h' hist)"
proof -
  let ?full = "ref_full (lru_cap S) uid (lru_abs S)"
  from lruc.add_one_callback [OF S, of "IString uid" ref "stop_at E" h] obtain S' where
    add: "lru_Add (IString uid) ref [stop_at E] S h =
       obind (if ?full then stop_at E (snd (last (lru_abs S))) h else Ok h) (\<lambda>s'. Ok (?full, S', s'))"
      "lru_inv S'" "lru_abs S' = ref_add (lru_cap S) uid ref (lru_abs S)" "lru_cap S' = lru_cap S"
    by auto
  have abs: "set (lru_abs S') =
      insert (uid, ref) (if ?full then set (lru_abs S) - {last (lru_abs S)} else set (lru_abs S))"
    using set_ref_add_new [OF lruc.inv_distinct [OF S] new] lruc.inv_bound [OF S] add(3) by simp
  show ?thesis
  proof (cases ?full)
    case False
    with add abs ok show ?thesis by auto
  next
    case True
    then have "0 < length (lru_abs S)" using lruc.inv_bound [OF S] by (simp add: ref_full_def)
    then have last: "last (lru_abs S) \<in> set (lru_abs S)" by (simp only: length_greater_0_conv last_in_set simp_thms)
    obtain old r where old: "last (lru_abs S) = (old, r)" by (rule prod.exhaust)
    with last have a: "(old, r) \<in> ?A" by simp
    from heap_ok_cached [OF ok a] obtain q where q: "h_recs h r = Some q" by blast
    let ?h = "h\<lparr>h_recs := (h_recs h)(r \<mapsto> q\<lparr>pr_stopCh := Some [''Done'']\<rparr>),
       h_world := snd (PutKV (env_cli E) (user_path old) (json_Marshal (records (pr_r q))) (h_world h))\<rparr>"
    have "(uid, ref) \<noteq> (old, r)" using last old new by force
    then have abs': "set (lru_abs S') = ?A - {(old, r)}" using abs True old by auto
    moreover have "heap_ok (?A - {(old, r)}) ?h" using stop_at_ok [OF ok a q] by simp
    moreover have "hist_on U V view (?A - {(old, r)}) ?h hist"
      if "kv_reliable (env_cli E) view" "hist_on U V view ?A h hist"
      by (rule hist_on_stop [OF that(1) ok that(2) a q])
    moreover have "uid \<in> fst ` (?A - {(old, r)})" using \<open>(uid, ref) \<noteq> (old, r)\<close> by force
    ultimately show ?thesis using add True stop_at_eq [OF ok a q, of E] old by simp blast
  qed
qed

lemma tryRun_law:
  assumes inv: "rm_inv m h"
  shows "\<exists>m' h'. tryRun E uid m h = Ok (m', h') \<and> rm_inv m' h' \<and> uid \<in> fst ` rm_users m' \<and>
      lru_cap (rm_recorderSet m') = lru_cap (rm_recorderSet m) \<and>
      (kv_reliable (env_cli E) view \<and> U uid \<and> hist_on U V view (rm_users m) h hist \<longrightarrow>
         hist_on U V view (rm_users m') h' hist)"
proof -
  let ?S = "rm_recorderSet m"
  let ?A = "set (lru_abs ?S)"
  have S: "lru_inv ?S" and ok: "heap_ok ?A h" using inv by (simp_all add: rm_inv_def rm_users_def)
  have peek: "lru_Peek (IString uid) ?S = (map_of (lru_abs ?S) uid, uid \<in> fst ` ?A, ?S)"
    using lruc.peek_law [OF S] by simp
  show ?thesis
  proof (cases "uid \<in> fst ` ?A")
    case True
    with peek inv show ?thesis by (simp add: tryRun_def rm_users_def)
  next
    case False
    from fresh_run [of uid "rm_storageType m" E "h_world h" view "hist uid"] obtain p p' w' where
      p: "NewTypedPersistentRecorder defaultEtcdRecorderSize uid (rm_storageType m) = Ok p"
        "pr_Run E p (h_world h) = Ok (p', w')" "rec_ok p'" "pr_f p' = user_path uid" "pr_stopCh p' = Some []"
      and load: "kv_reliable (env_cli E) view \<and> stored (view (h_world h)) 10000 (user_path uid) (hist uid) \<longrightarrow>
        records (pr_r p') = hist uid \<and> view w' = view (h_world h)" by blast
    let ?h1 = "h\<lparr>h_recs := (h_recs h)(h_next h \<mapsto> p'), h_next := Suc (h_next h),
              h_loops := h_next h # h_loops h, h_world := w'\<rparr>"
    have hk1: "hist_on U V view (insert (uid, h_next h) ?A) ?h1 hist"
      if "kv_reliable (env_cli E) view" "U uid" "hist_on U V view ?A h hist"
      using that load hist_onD(3) [OF that(3,2) False] by (intro hist_on_new [OF ok that(3,2)]) auto
    from cache_insert_law [OF S False heap_ok_new [OF ok False p(3-5)], of E w' view U V hist]
    obtain b S' h' where "lru_Add (IString uid) (h_next h) [stop_at E] ?S ?h1 = Ok (b, S', h')"
      "lru_inv S'" "heap_ok (set (lru_abs S')) h'" "uid \<in> fst ` set (lru_abs S')" "lru_cap S' = lru_cap ?S"
      "kv_reliable (env_cli E) view \<and> hist_on U V view (insert (uid, h_next h) ?A) ?h1 hist \<longrightarrow>
         hist_on U V view (set (lru_abs S')) h' hist" by blast
    moreover from this(1) have "tryRun E uid m h = Ok (m\<lparr>rm_recorderSet := S'\<rparr>, h')"
      using False peek p by (simp add: tryRun_def run_new_def)
    ultimately show ?thesis using hk1 by (simp add: rm_inv_def rm_users_def)
  qed
qed

lemma set_ref_touch_eq: "distinct (map fst xs) \<Longrightarrow> set (ref_touch k xs) = set xs"
  by (auto simp: ref_touch_def ref_hit_def dest: map_of_SomeD split: option.splits)
    (metis map_of_is_SomeI option.inject option.distinct(1))+

lemma get_recorder_law:
  assumes inv: "rm_inv m h" and u: "uid \<in> fst ` rm_users m"
  shows "\<exists>ref p m'. get_recorder uid m h = Ok (ref, p, m') \<and> (uid, ref) \<in> rm_users m \<and>
      h_recs h ref = Some p \<and> rec_ok p \<and> rm_inv m' h \<and> rm_users m' = rm_users m \<and>
      lru_cap (rm_recorderSet m') = lru_cap (rm_recorderSet m)"
proof -
  let ?S = "rm_recorderSet m"
  have S: "lru_inv ?S" and ok: "heap_ok (rm_users m) h" using inv by (simp_all add: rm_inv_def)
  have dist: "distinct (map fst (lru_abs ?S))" using lruc.inv_distinct [OF S] .
  obtain ref where ref: "(uid, ref) \<in> rm_users m" using u by auto
  then have "map_of (lru_abs ?S) uid = Some ref" using dist by (simp add: rm_users_def)
  moreover obtain S' where "lru_Get (IString uid) ?S = (map_of (lru_abs ?S) uid, uid \<in> fst ` set (lru_abs ?S), S')"
    "lru_inv S'" "lru_abs S' = ref_touch uid (lru_abs ?S)" "lru_cap S' = lru_cap ?S"
    using lruc.get_law [OF S, of "IString uid"] by auto
  moreover obtain p where "h_recs h ref = Some p" "rec_ok p" using heap_ok_cached [OF ok ref] by blast
  ultimately show ?thesis
    using ref ok set_ref_touch_eq [OF dist] by (simp add: get_recorder_def rm_inv_def rm_users_def)
qed

section \<open>Every operation of the manager\<close>

text \<open>Recording in the history of one user only.\<close>

lemma hist_on_set:
  assumes ok: "heap_ok A h" and hk: "hist_on U V view A h hist" and a: "(uid, ref) \<in> A"
    and st: "storable 10000 (records (pr_r p'))"
  shows "hist_on U V view A (h\<lparr>h_recs := (h_recs h)(ref \<mapsto> p')\<rparr>) (hist(uid := records (pr_r p')))"
proof (rule hist_onI, goal_cases)
  case (1 i r)
  show ?case
  proof (cases "r = ref")
    case True
    with 1 a only_ref [OF ok a] hist_onD(1) [OF hk a] show ?thesis by auto
  next
    case False
    moreover have "i \<noteq> uid" using False 1 a inj_onD [OF heap_okD(2) [OF ok], of "(i, r)" "(uid, ref)"] by auto
    ultimately show ?thesis using hist_onD(1) [OF hk 1] by auto
  qed
next
  case (2 i)
  then show ?case using st hist_onD(2,4) [OF hk] by simp
next
  case (3 i)
  then have "i \<noteq> uid" using a by force
  with 3 hist_onD(3) [OF hk] show ?case by simp
next
  case (4 k)
  then show ?case using hist_onD(5) [OF hk] by simp
qed

definition spec_add :: "string \<Rightarrow> string \<Rightarrow> (string \<Rightarrow> string list) \<Rightarrow> string \<Rightarrow> string list" where
  "spec_add uid s hist = (if s = [] then hist else hist(uid := remember 10000 s (hist uid)))"

lemma rm_Add_law:
  assumes inv: "rm_inv m h"
  shows "\<exists>m' h'. rm_Add E uid s m h =
        Ok (if s = [] then Some (Err ''ERROR: record is empty'') else None, m', h') \<and> rm_inv m' h' \<and>
      lru_cap (rm_recorderSet m') = lru_cap (rm_recorderSet m) \<and>
      (kv_reliable (env_cli E) view \<and> U uid \<and> valid_utf8 s \<and> hist_on U V view (rm_users m) h hist \<longrightarrow>
         hist_on U V view (rm_users m') h' (spec_add uid s hist))"
proof -
  from tryRun_law [OF inv, of E uid view U V hist] obtain m1 h1 where
    t: "tryRun E uid m h = Ok (m1, h1)" "rm_inv m1 h1" "uid \<in> fst ` rm_users m1"
      "lru_cap (rm_recorderSet m1) = lru_cap (rm_recorderSet m)"
    and hk1: "kv_reliable (env_cli E) view \<and> U uid \<and> hist_on U V view (rm_users m) h hist \<longrightarrow>
        hist_on U V view (rm_users m1) h1 hist" by blast
  from get_recorder_law [OF t(2,3)] obtain ref p m2 where
    g: "get_recorder uid m1 h1 = Ok (ref, p, m2)" "(uid, ref) \<in> rm_users m1" "h_recs h1 ref = Some p"
      "rec_ok p" "rm_inv m2 h1" "rm_users m2 = rm_users m1"
      "lru_cap (rm_recorderSet m2) = lru_cap (rm_recorderSet m1)" by blast
  have ok: "heap_ok (rm_users m2) h1" using g(5) by (simp add: rm_inv_def)
  have p: "pr_inv p" "rec_cap (pr_r p) = 10000" using g(4) by (simp_all add: rec_ok_def)
  show ?thesis
  proof (cases "s = []")
    case True
    moreover have "h1\<lparr>h_recs := (h_recs h1)(ref \<mapsto> p)\<rparr> = h1" using g(3) by (simp add: fun_upd_idem)
    ultimately show ?thesis
      using t g hk1 disk_rec.add_empty [OF p(1)] by (simp add: rm_Add_def spec_add_def)
  next
    case False
    from disk_rec.add_contract [OF p(1) False] p(2) obtain p' where
      p': "pr_Add s p = Ok (None, p')" "pr_inv p'" "records (pr_r p') = remember 10000 s (records (pr_r p))"
        "rec_cap (pr_r p') = 10000" by auto
    then have keep: "pr_f p' = pr_f p" "pr_stopCh p' = pr_stopCh p" "pr_storage p' = pr_storage p"
      by (auto simp: pr_Add_def outcome_simps)
    with p' g(4) have "rec_ok p'" by (simp add: rec_ok_def)
    then have ok': "heap_ok (rm_users m2) (h1\<lparr>h_recs := (h_recs h1)(ref \<mapsto> p')\<rparr>)"
      using keep by (intro heap_ok_set [OF ok g(3)]) auto
    have "hist_on U V view (rm_users m2) (h1\<lparr>h_recs := (h_recs h1)(ref \<mapsto> p')\<rparr>) (spec_add uid s hist)"
      if "hist_on U V view (rm_users m2) h1 hist" "valid_utf8 s"
    proof -
      have u: "U uid" "records (pr_r p) = hist uid" using hist_onD(1) [OF that(1)] g by force+
      have "storable 10000 (records (pr_r p'))"
        using storable_remember [OF hist_onD(2) [OF that(1) u(1)]] that(2) False u p'(3) by simp
      from hist_on_set [OF ok that(1) _ this, of uid ref] g u p'(3) False show ?thesis
        by (simp add: spec_add_def)
    qed
    with t g p' ok' hk1 False show ?thesis by (simp add: rm_Add_def rm_inv_def)
  qed
qed

lemma rm_Find_law:
  assumes inv: "rm_inv m h"
  shows "\<exists>res m' h'. rm_Find E uid s m h = Ok (res, m', h') \<and> rm_inv m' h' \<and>
      lru_cap (rm_recorderSet m') = lru_cap (rm_recorderSet m) \<and>
      (kv_reliable (env_cli E) view \<and> U uid \<and> hist_on U V view (rm_users m) h hist \<longrightarrow>
         res = filter (matches s) (hist uid) \<and> hist_on U V view (rm_users m') h' hist)"
proof (cases "uid = '''' \<and> s = ''''")
  case True
  with inv show ?thesis using hist_onD(4) [of U V view "rm_users m" h hist "''''"]
    by (auto simp: rm_Find_def plain_name_def)
next
  case False
  from tryRun_law [OF inv, of E uid view U V hist] obtain m1 h1 where
    t: "tryRun E uid m h = Ok (m1, h1)" "rm_inv m1 h1" "uid \<in> fst ` rm_users m1"
      "lru_cap (rm_recorderSet m1) = lru_cap (rm_recorderSet m)"
    and hk1: "kv_reliable (env_cli E) view \<and> U uid \<and> hist_on U V view (rm_users m) h hist \<longrightarrow>
        hist_on U V view (rm_users m1) h1 hist" by blast
  from get_recorder_law [OF t(2,3)] obtain ref p m2 where
    g: "get_recorder uid m1 h1 = Ok (ref, p, m2)" "(uid, ref) \<in> rm_users m1" "h_recs h1 ref = Some p"
      "rec_ok p" "rm_inv m2 h1" "rm_users m2 = rm_users m1"
      "lru_cap (rm_recorderSet m2) = lru_cap (rm_recorderSet m1)" by blast
  have "pr_Find s p = Ok (filter (matches s) (records (pr_r p)))"
    using g(4) by (simp add: rec_ok_def disk_rec.find_contract)
  moreover have "records (pr_r p) = hist uid" if "hist_on U V view (rm_users m1) h1 hist"
    using hist_onD(1) [OF that g(2)] g(3) by simp
  moreover have "rm_Find E uid s m h = obind (pr_Find s p) (\<lambda>res. Ok (res, m2, h1))"
    using t(1) g(1) False by (auto simp: rm_Find_def)
  ultimately show ?thesis using t g hk1 by simp
qed

text \<open>A search leaves its user with a recorder, and answers from the one that he has.\<close>

lemma rm_Find_caches:
  assumes "rm_inv m h" and "rm_Find E uid s m h = Ok (res, m', h')" and "uid \<noteq> [] \<or> s \<noteq> []"
  shows "uid \<in> fst ` rm_users m'"
proof -
  from tryRun_law [OF assms(1), of E uid "\<lambda>_. Map.empty" "\<lambda>_. True" Map.empty "\<lambda>_. []"] obtain m1 h1 where
    t: "tryRun E uid m h = Ok (m1, h1)" "rm_inv m1 h1" "uid \<in> fst ` rm_users m1" by blast
  from get_recorder_law [OF t(2,3)] obtain ref p m2 where
    "get_recorder uid m1 h1 = Ok (ref, p, m2)" "rm_users m2 = rm_users m1" by blast
  with t assms(2,3) show ?thesis by (auto simp: rm_Find_def outcome_simps split: if_splits)
qed

lemma rm_Find_cached:
  assumes inv: "rm_inv m h" and a: "(uid, ref) \<in> rm_users m" and p: "h_recs h ref = Some p" and "uid \<noteq> [] \<or> s \<noteq> []"
  shows "\<exists>m'. rm_Find E uid s m h = Ok (filter (matches s) (records (pr_r p)), m', h)"
proof -
  have u: "uid \<in> fst ` rm_users m" using a by force
  have "lru_inv (rm_recorderSet m)" using inv by (simp add: rm_inv_def)
  from lruc.peek_law [OF this, of "IString uid"] u have run: "tryRun E uid m h = Ok (m, h)"
    by (simp add: tryRun_def rm_users_def)
  from get_recorder_law [OF inv u] obtain ref' p' m2 where
    g: "get_recorder uid m h = Ok (ref', p', m2)" "(uid, ref') \<in> rm_users m" "h_recs h ref' = Some p'" "rec_ok p'" by blast
  have "ref' = ref"
    using inj_onD [OF heap_okD(2), of "rm_users m" h "(uid, ref)" "(uid, ref')"] inv a g(2) by (simp add: rm_inv_def)
  then have "p' = p" using g(3) p by simp
  then have "pr_Find s p = Ok (filter (matches s) (records (pr_r p)))"
    using g(4) by (simp add: rec_ok_def disk_rec.find_contract)
  moreover have "rm_Find E uid s m h = obind (pr_Find s p) (\<lambda>res. Ok (res, m2, h))"
    using run g(1) \<open>p' = p\<close> assms(4) by (auto simp: rm_Find_def)
  ultimately show ?thesis by simp
qed

lemma rm_Stop_law:
  assumes inv: "rm_inv m h"
  shows "\<exists>m' h'. rm_Stop E uid m h = Ok (m', h') \<and> rm_inv m' h' \<and> uid \<notin> fst ` rm_users m' \<and>
      lru_cap (rm_recorderSet m') = lru_cap (rm_recorderSet m) \<and>
      (kv_reliable (env_cli E) view \<and> hist_on U V view (rm_users m) h hist \<longrightarrow>
         hist_on U V view (rm_users m') h' hist)"
proof -
  let ?S = "rm_recorderSet m"
  have S: "lru_inv ?S" and ok: "heap_ok (rm_users m) h" using inv by (simp_all add: rm_inv_def)
  have dist: "distinct (map fst (lru_abs ?S))" using lruc.inv_distinct [OF S] .
  have peek: "lru_Peek (IString uid) ?S = (map_of (lru_abs ?S) uid, uid \<in> fst ` rm_users m, ?S)"
    using lruc.peek_law [OF S] by (simp add: rm_users_def)
  show ?thesis
  proof (cases "uid \<in> fst ` rm_users m")
    case False
    with peek inv show ?thesis by (simp add: rm_Stop_def split: option.split)
  next
    case True
    then obtain ref where a: "(uid, ref) \<in> rm_users m" by auto
    then have ref: "map_of (lru_abs ?S) uid = Some ref" using dist by (simp add: rm_users_def)
    obtain p where p: "h_recs h ref = Some p" using heap_ok_cached [OF ok a] by blast
    obtain b S' where S': "lru_Remove (IString uid) ?S = (b, S')" "lru_inv S'"
      "lru_abs S' = ref_remove uid (lru_abs ?S)" "lru_cap S' = lru_cap ?S"
      using lruc.remove_law [OF S, of "IString uid"] by auto
    have users: "rm_users (m\<lparr>rm_recorderSet := S'\<rparr>) = rm_users m - {(uid, ref)}"
      using S'(3) drop_user [OF ok a] by (simp add: rm_users_def ref_remove_def)
    have gone: "uid \<notin> fst ` (rm_users m - {(uid, ref)})"
      unfolding drop_user [OF ok a, symmetric] by auto
    let ?h = "h\<lparr>h_recs := (h_recs h)(ref \<mapsto> p\<lparr>pr_stopCh := Some [''Done'']\<rparr>),
       h_world := snd (PutKV (env_cli E) (user_path uid) (json_Marshal (records (pr_r p))) (h_world h))\<rparr>"
    have hk: "hist_on U V view (rm_users m - {(uid, ref)}) ?h hist"
      if "kv_reliable (env_cli E) view" "hist_on U V view (rm_users m) h hist"
      by (rule hist_on_stop [OF that(1) ok that(2) a p])
    have "rm_Stop E uid m h = Ok (m\<lparr>rm_recorderSet := S'\<rparr>, ?h)"
      using True peek ref S'(1) stop_at_eq [OF ok a p, of E] by (simp add: rm_Stop_def)
    then show ?thesis using S' stop_at_ok [OF ok a p] gone hk users by (simp add: rm_inv_def)
  qed
qed

definition stale :: "nat \<Rightarrow> 'w rheap \<Rightarrow> bool" where
  "stale ref h = (case h_recs h ref of Some p \<Rightarrow> pr_stopCh p \<noteq> Some [] | None \<Rightarrow> False)"

lemma loop_tick_law:
  assumes inv: "rm_inv m h"
  shows "\<exists>h'. loop_tick E ref h = Ok h' \<and> rm_inv m h' \<and>
      (kv_reliable (env_cli E) view \<and> \<not> stale ref h \<and> hist_on U V view (rm_users m) h hist \<longrightarrow>
         hist_on U V view (rm_users m) h' hist)"
proof (cases "ref \<in> set (h_loops h)")
  case False
  have ok: "heap_ok (rm_users m) h" using inv by (simp add: rm_inv_def)
  show ?thesis using False inv by (simp add: loop_tick_eq [OF ok] split: option.split)
next
  case True
  have ok: "heap_ok (rm_users m) h" using inv by (simp add: rm_inv_def)
  from heap_okD(6) [OF ok True] obtain p where p: "h_recs h ref = Some p"
    "ref \<in> snd ` rm_users m \<or> pr_stopCh p = Some [''Done'']" by blast
  let ?h = "h\<lparr>h_world := snd (PutKV (env_cli E) (pr_f p) (json_Marshal (records (pr_r p))) (h_world h))\<rparr>"
  have "loop_tick E ref h = Ok ?h" using True p(1) by (simp add: loop_tick_eq [OF ok])
  moreover have "hist_on U V view (rm_users m) ?h hist"
    if rel: "kv_reliable (env_cli E) view" and fresh: "\<not> stale ref h" and hk: "hist_on U V view (rm_users m) h hist"
  proof -
    obtain uid where a: "(uid, ref) \<in> rm_users m" using p fresh by (auto simp: stale_def)
    with heap_ok_cached [OF ok a] p have "pr_f p = user_path uid" by simp
    then show ?thesis by (intro hist_on_save [OF rel hk a p(1)]) auto
  qed
  ultimately show ?thesis using ok inv by (simp add: rm_inv_def)
qed

lemma loop_exit_law:
  "rm_inv m h \<Longrightarrow> rm_inv m (loop_exit ref h)"
  "rm_inv m h \<Longrightarrow> hist_on U V view (rm_users m) h hist \<Longrightarrow> hist_on U V view (rm_users m) (loop_exit ref h) hist"
  using loop_exit_ok by (simp add: rm_inv_def, blast)
    (auto simp: rm_inv_def loop_exit_ok intro!: hist_onI dest: hist_onD)

section \<open>The abstract manager\<close>

text \<open>
  What the manager promises: a history per user, that only \<^verbatim>\<open>Add\<close> changes.
\<close>

fun spec_step :: "rm_event \<Rightarrow> (string \<Rightarrow> string list) \<Rightarrow> rm_answer \<times> (string \<Rightarrow> string list)" where
  "spec_step (CallAdd uid s) hist =
     (AddRet (if s = [] then Some (Err ''ERROR: record is empty'') else None), spec_add uid s hist)"
| "spec_step (CallFind uid s) hist = (FindRet (filter (matches s) (hist uid)), hist)"
| "spec_step (CallStop uid) hist = (NoAnswer, hist)"
| "spec_step (Tick ref) hist = (NoAnswer, hist)"
| "spec_step (Exit ref) hist = (NoAnswer, hist)"

abbreviation spec_run :: "rm_event list \<Rightarrow> (string \<Rightarrow> string list) \<Rightarrow> rm_answer list" where
  "spec_run \<equiv> run_spec spec_step"

text \<open>Requests for plain user names with valid UTF-8, and no tick of a goroutine that was told to stop.\<close>

fun plain_event :: "rm_event \<Rightarrow> bool" where
  "plain_event (CallAdd uid s) = (plain_name uid \<and> valid_utf8 s)"
| "plain_event (CallFind uid s) = plain_name uid"
| "plain_event (CallStop uid) = plain_name uid"
| "plain_event (Tick ref) = True"
| "plain_event (Exit ref) = True"

fun prompt :: "rm_event \<Rightarrow> 'w rheap \<Rightarrow> bool" where
  "prompt (Tick ref) h = (\<not> stale ref h)"
| "prompt _ h = True"

abbreviation no_stale_tick :: "'w env \<Rightarrow> rm_event list \<Rightarrow> 'w rm_state \<Rightarrow> bool" where
  "no_stale_tick E \<equiv> run_fair (rm_step E) (\<lambda>ev st. prompt ev (snd st))"

lemma rm_step_law:
  assumes inv: "rm_inv m h"
  shows "\<exists>a m' h'. rm_step E ev (m, h) = Ok (a, m', h') \<and> rm_inv m' h' \<and>
      lru_cap (rm_recorderSet m') = lru_cap (rm_recorderSet m) \<and>
      (kv_reliable (env_cli E) view \<and> plain_event ev \<and> hist_on plain_name V view (rm_users m) h hist \<and>
       prompt ev h \<longrightarrow>
         a = fst (spec_step ev hist) \<and> hist_on plain_name V view (rm_users m') h' (snd (spec_step ev hist)))"
proof (cases ev)
  case (CallAdd uid s)
  with rm_Add_law [OF inv, of E uid s view plain_name V hist] show ?thesis by auto
next
  case (CallFind uid s)
  with rm_Find_law [OF inv, of E uid s view plain_name V hist] show ?thesis by auto
next
  case (CallStop uid)
  with rm_Stop_law [OF inv, of E uid view plain_name V hist] show ?thesis by auto
next
  case (Tick ref)
  with loop_tick_law [OF inv, of E ref view plain_name V hist] show ?thesis by auto
next
  case (Exit ref)
  with loop_exit_law [OF inv] show ?thesis by auto
qed

interpretation manager: implements "rm_step E" spec_step
    "\<lambda>(m, h). rm_inv m h \<and> lru_cap (rm_recorderSet m) = n"
    "\<lambda>(m, h) hist. hist_on plain_name V view (rm_users m) h hist"
    "\<lambda>ev st. (kv_reliable (env_cli E) view \<and> plain_event ev) \<and> prompt ev (snd st)" for E n V view
proof (unfold_locales, goal_cases)
  case (1 st ev hist)
  then obtain m h where st: "st = (m, h)" "rm_inv m h" "lru_cap (rm_recorderSet m) = n" by auto
  from rm_step_law [OF st(2), of E ev view V hist] st show ?case by auto
qed

lemma rm_run_total:
  assumes "rm_inv m h"
  shows "\<exists>as m' h'. rm_run E evs (m, h) = Ok (as, m', h') \<and> rm_inv m' h' \<and>
      lru_cap (rm_recorderSet m') = lru_cap (rm_recorderSet m)"
  using manager.total [of "lru_cap (rm_recorderSet m)" "(m, h)" E evs] assms by auto

lemma rm_run_refines:
  assumes "rm_inv m h" and "kv_reliable (env_cli E) view" and "hist_on plain_name V view (rm_users m) h hist"
    and "\<forall>ev \<in> set evs. plain_event ev" and "no_stale_tick E evs (m, h)"
  shows "\<exists>st. rm_run E evs (m, h) = Ok (spec_run evs hist, st)"
proof -
  have "run_fair (rm_step E) (\<lambda>ev st. (kv_reliable (env_cli E) view \<and> plain_event ev) \<and> prompt ev (snd st)) evs (m, h)"
    using assms(2,4,5) by (intro run_fair_conj) auto
  from manager.refines [OF _ _ this, of "lru_cap (rm_recorderSet m)" V hist] assms(1,3) show ?thesis by auto
qed

text \<open>The managers that the constructors return.\<close>

lemma manager_of_inv:
  assumes "1 \<le> n"
  shows "\<exists>s. NewLRU n = Ok s \<and> rm_inv (manager_of s) (rheap_empty w) \<and> rm_users (manager_of s) = {} \<and>
    lru_cap s = nat n"
  using assms NewLRU_Ok [of n]
  by (auto simp: NewLRU_def rm_inv_def rm_users_def manager_of_def lru_abs_def heap_ok_empty lru_cap_def)

lemma hist_on_fresh:
  "(\<And>uid. U uid \<Longrightarrow> plain_name uid) \<Longrightarrow> hist_on U V view {} (rheap_empty w) hist \<longleftrightarrow>
     (\<forall>uid. U uid \<longrightarrow> stored (view w) 10000 (user_path uid) (hist uid)) \<and>
     (\<forall>k. k \<notin> user_path ` Collect U \<longrightarrow> view w k = V k)"
  by (auto simp: hist_on_def rheap_empty_def stored_def)

lemma hist_ok_fresh:
  "hist_ok view {} (rheap_empty w) hist \<longleftrightarrow>
     (\<forall>uid. plain_name uid \<longrightarrow> stored (view w) 10000 (user_path uid) (hist uid))"
  by (auto simp: hist_ok_def hist_on_fresh) (simp add: rheap_empty_def)

section \<open>Properties of the manager\<close>

text \<open>C8: The recorder manager never fails. Whatever etcd answers (errors, time-outs, garbage),
  and however calls of \<^verbatim>\<open>Add\<close>, \<^verbatim>\<open>Find\<close> and \<^verbatim>\<open>Stop\<close> for any users interleave with the ticks and
  exits of the sync goroutines, a manager for at most \<open>n\<close> recorders returns from every call: no nil
  dereference, no failed type assertion, no \<^verbatim>\<open>log.Fatal\<close> of an uninitialised recorder and no send that
  blocks on a stop channel. It holds at most \<open>n\<close> recorders, and at most \<open>n\<close> goroutines run that were
  not told to stop.\<close>

theorem manager_never_fails:
  assumes "1 \<le> n"
  shows "\<exists>m as m' h'. NewRecorderManager [SetRecorderNum n] = Ok m \<and>
           rm_run E evs (m, rheap_empty w) = Ok (as, m', h') \<and>
           lru_Len (rm_recorderSet m') \<le> nat n \<and>
           length (filter (\<lambda>ref. \<not> stale ref h') (h_loops h')) \<le> nat n"
proof -
  from manager_of_inv [OF assms, of w] obtain s where s: "NewLRU n = Ok s"
    "rm_inv (manager_of s) (rheap_empty w)" "lru_cap s = nat n" by blast
  from rm_run_total [OF s(2), of E evs] obtain as m' h' where
    run: "rm_run E evs (manager_of s, rheap_empty w) = Ok (as, m', h')" "rm_inv m' h'"
      "lru_cap (rm_recorderSet m') = nat n" using s(3) by (auto simp: manager_of_def)
  from run(2) have inv: "lru_inv (rm_recorderSet m')" "heap_ok (rm_users m') h'"
    by (simp_all add: rm_inv_def)
  have len: "length (lru_abs (rm_recorderSet m')) \<le> nat n" using lruc.inv_bound [OF inv(1)] run(3) by simp
  have "set (filter (\<lambda>ref. \<not> stale ref h') (h_loops h')) \<subseteq> snd ` rm_users m'"
    using heap_okD(6) [OF inv(2)] by (force simp: stale_def)
  then have "card (set (filter (\<lambda>ref. \<not> stale ref h') (h_loops h'))) \<le> card (snd ` rm_users m')"
    by (intro card_mono) (auto simp: rm_users_def)
  also have "\<dots> \<le> length (lru_abs (rm_recorderSet m'))"
    using card_image_le [of "rm_users m'" snd] card_length [of "lru_abs (rm_recorderSet m')"]
    by (simp add: rm_users_def)
  finally have "length (filter (\<lambda>ref. \<not> stale ref h') (h_loops h')) \<le> nat n"
    using len distinct_card [of "filter (\<lambda>ref. \<not> stale ref h') (h_loops h')"] heap_okD(3) [OF inv(2)]
    by (simp del: set_filter)
  moreover have "NewRecorderManager [SetRecorderNum n] = Ok (manager_of s)"
    using assms s(1) by (simp add: NewRecorderManager_def)
  ultimately show ?thesis using run(1) len by (auto simp: lru_Len_def list_Len_def)
qed

theorem manager_never_fails_witness:
  "\<exists>m as m' h'. NewRecorderManager [SetRecorderNum 1] = Ok m \<and>
     rm_run flaky_env [CallAdd ''u'' ''ls'', CallAdd ''v'' ''ps'', Tick 0, CallStop ''u'', Exit 0, CallFind ''v'' ''p'']
       (m, rheap_empty mem_empty) = Ok (as, m', h') \<and>
     lru_Len (rm_recorderSet m') \<le> 1 \<and> length (filter (\<lambda>ref. \<not> stale ref h') (h_loops h')) \<le> 1"
  using manager_never_fails [of 1 flaky_env
      "[CallAdd ''u'' ''ls'', CallAdd ''v'' ''ps'', Tick 0, CallStop ''u'', Exit 0, CallFind ''v'' ''p'']" mem_empty]
  by simp


lemma no_ticks: "\<forall>ev \<in> set evs. \<forall>r. ev \<noteq> Tick r \<Longrightarrow> no_stale_tick E evs st"
proof (rule run_fair_always, intro ballI allI)
  fix ev st
  assume "\<forall>ev \<in> set evs. \<forall>r. ev \<noteq> Tick r" and "ev \<in> set evs"
  then show "prompt ev (snd st)" by (cases ev) auto
qed

text \<open>A run on two users of a manager with room for one recorder.\<close>

definition sample_events :: "rm_event list" where
  "sample_events = [CallAdd ''u'' ''ls'', CallAdd ''v'' ''ps'', Exit 0, CallAdd ''u'' ''ls -l'', Exit 1,
     CallFind ''u'' ''l'', CallFind ''v'' ''l'', Exit 2, CallStop ''v'', CallFind ''u'' ''-'']"


text \<open>
  A run in which the goroutine of the first recorder of \<^verbatim>\<open>u\<close> takes one more tick after it was
  told to stop: its \<^verbatim>\<open>select\<close> has both branches ready and may take either.
\<close>

definition stale_events :: "rm_event list" where
  "stale_events = [CallAdd ''u'' ''ls'', CallStop ''u'', CallAdd ''u'' ''ps'', CallStop ''u'', Tick 0,
     CallFind ''u'' ''ps'']"

definition answers :: "(rm_answer list \<times> 'w rm_state) outcome \<Rightarrow> rm_answer list outcome" where
  "answers r = obind r (\<lambda>(as, _). Ok as)"


text \<open>User names are not separated in the store. The key of a recorder is the cleaned path
  of its user name, so for plain names \<open>a\<close> and \<open>b\<close> the user name \<open>a/../b\<close> gives the recorder of
  the user \<open>b\<close>.\<close>

theorem user_name_escapes:
  assumes "plain_name a" and "plain_name b"
  shows "NewEtcdRecorder n (a @ ''/../'' @ b) = NewEtcdRecorder n b"
proof -
  have "split_on (CHR ''/'') (''/mysh/data//'' @ a @ ''/../'' @ b) = [[], ''mysh'', ''data'', [], a, ''..'', b]"
    using assms split_on_append_sep [of "CHR ''/''" "''/mysh/data/''" "a @ ''/../'' @ b"]
      split_on_append_sep [of "CHR ''/''" a "''../'' @ b"] split_on_append_sep [of "CHR ''/''" "''..''" b]
    by (simp add: plain_name_def split_on_absent)
  with assms have "filepath_Join [defaultEtcdPrefix, a @ ''/../'' @ b] = ''/mysh/data/'' @ b"
    by (simp add: filepath_Join_def filepath_Clean_def plain_name_def defaultEtcdPrefix_def)
  then show ?thesis
    using join_plain_name [OF assms(2)] by (simp add: NewEtcdRecorder_def defaultEtcdPrefix_def)
qed

theorem user_name_escapes_witness:
  "NewEtcdRecorder 10000 ''eve/../bob'' = NewEtcdRecorder 10000 ''bob''"
  using user_name_escapes [of "''eve''" "''bob''" 10000] by (simp add: plain_name_def)

end
