(* ===== verification/Auth.thy ===== *)
theory Auth
  imports Go_Digest
begin

text \<open>
  Authentication, \<^verbatim>\<open>auth/auth.go\<close>: the cache of login tokens, token generation, the salted
  password hash and the login check.  The rows of the user table (\<^verbatim>\<open>db/db.go\<close>, a MySQL query) and the
  source of random bytes are parameters.  The theory shows that the nested maps of the cache are one
  table of sessions, that a login succeeds exactly with the password that was stored, and what the
  construction of tokens and hashes does not distinguish.
\<close>

section \<open>The token cache\<close>

type_synonym loginCache = "string \<rightharpoonup> (string \<rightharpoonup> string)"

text \<open>The loop that every function starts with: the extra strings are concatenated.\<close>

definition loginInfo :: "string list \<Rightarrow> string" where
  "loginInfo extra = foldl (\<lambda>s e. s @ e) '''' extra"

definition CheckLoginState :: "string \<Rightarrow> string \<Rightarrow> string list \<Rightarrow> loginCache \<Rightarrow> bool" where
  "CheckLoginState uid token extra c =
     (case c uid of
        None \<Rightarrow> False
      | Some entry \<Rightarrow> (case entry (loginInfo extra) of None \<Rightarrow> False | Some t \<Rightarrow> t = token))"

definition RemoveTokenCache :: "string \<Rightarrow> string list \<Rightarrow> loginCache \<Rightarrow> loginCache" where
  "RemoveTokenCache uid extra c =
     (if loginInfo extra = '''' then c(uid := None)
      else (case c uid of None \<Rightarrow> c | Some entry \<Rightarrow> c(uid \<mapsto> entry(loginInfo extra := None))))"

definition UpdateTokenCache :: "string \<Rightarrow> string \<Rightarrow> string list \<Rightarrow> loginCache \<Rightarrow> loginCache" where
  "UpdateTokenCache uid token extra c =
     (if loginInfo extra \<noteq> '''' then
        (let c1 = (case c uid of None \<Rightarrow> c(uid \<mapsto> Map.empty) | Some _ \<Rightarrow> c) in
         case c1 uid of
           None \<Rightarrow> c1
         | Some entry \<Rightarrow> c1(uid \<mapsto> entry(loginInfo extra \<mapsto> token)))
      else c)"

section \<open>Tokens and passwords\<close>

definition genToken :: "string \<Rightarrow> string list \<Rightarrow> string" where
  "genToken uid extra =
     (let data = foldl (\<lambda>d s. Sprintf ''%v%v'' [IString d, IString s]) uid extra in
      foldl (\<lambda>token b. token @ itoa (int b)) '''' (md5_Sum data))"

text \<open>The modulus is the length of the salt; Go panics on an integer division by zero.\<close>

definition EncryptPassword :: "string \<Rightarrow> string \<Rightarrow> string \<Rightarrow> string outcome" where
  "EncryptPassword uid salt password =
     (if length salt = 0 then Panic ''runtime error: integer divide by zero''
      else (let index = length uid mod length salt;
                catStr = take index salt @ password @ drop index salt
            in Ok (Sprintf_x (sha256_Sum256 catStr))))"

definition checkPassword :: "string \<Rightarrow> string \<Rightarrow> string \<Rightarrow> string \<Rightarrow> bool outcome" where
  "checkPassword uid salt saltPassword password =
     obind (EncryptPassword uid salt password) (\<lambda>h. Ok (h = saltPassword))"

text \<open>
  \<open>getter\<close> is the package variable \<^verbatim>\<open>saltPasswordGetter\<close>, \<^const>\<open>None\<close> for nil: the row of a user in the
  user table, or the error of the query.
\<close>

definition Login ::
  "(string \<Rightarrow> error + string \<times> string) option \<Rightarrow> string \<Rightarrow> string \<Rightarrow> string list \<Rightarrow> (string \<times> bool) outcome"
where
  "Login getter uid password extra =
     (case getter of
        None \<Rightarrow> Ok ('''', False)
      | Some get \<Rightarrow>
          (case get uid of
             Inl err \<Rightarrow> Ok ('''', False)
           | Inr (s, p) \<Rightarrow>
               obind (checkPassword uid s p password) (\<lambda>ok.
                 (let loginState = ok;
                      token = (if loginState then genToken uid extra else '''')
                  in Ok (token, loginState)))))"

text \<open>\<open>rand_Read n\<close> fills a buffer of \<open>n\<close> bytes.\<close>

definition SaltGenerator :: "(nat \<Rightarrow> error + string) \<Rightarrow> error + string" where
  "SaltGenerator rand_Read = (case rand_Read 16 of Inl err \<Rightarrow> Inl err | Inr b \<Rightarrow> Inr b)"

definition Crt :: string where
  "Crt = ''/var/lib/mysh/cert/www.myshell.top.crt''"

definition GetCert :: "(string \<Rightarrow> error + string) \<Rightarrow> string \<times> error option" where
  "GetCert readFile =
     (case readFile Crt of Inl err \<Rightarrow> ('''', Some err) | Inr data \<Rightarrow> (data, None))"

section \<open>The cache is a table of sessions\<close>

text \<open>\<open>session c uid info\<close> is the token of the client \<open>info\<close> of a user.\<close>

definition session :: "loginCache \<Rightarrow> string \<Rightarrow> string \<Rightarrow> string option" where
  "session c uid info = (case c uid of None \<Rightarrow> None | Some entry \<Rightarrow> entry info)"

definition cache_inv :: "loginCache \<Rightarrow> bool" where
  "cache_inv c \<longleftrightarrow> (\<forall>uid. session c uid [] = None)"

lemma loginInfo_concat: "loginInfo extra = concat extra"
proof -
  have "foldl (@) xs extra = xs @ concat extra" for xs :: string
    by (induction extra arbitrary: xs) auto
  then show ?thesis by (simp add: loginInfo_def)
qed

text \<open>
  The contract that the server relies on: sessions are changed by exactly the operation that
  names them, and a removal without a client name ends every session of the user.
\<close>

locale session_store =
  fixes inv :: "'c \<Rightarrow> bool"
    and sess :: "'c \<Rightarrow> string \<Rightarrow> string \<Rightarrow> string option"
    and check :: "string \<Rightarrow> string \<Rightarrow> string list \<Rightarrow> 'c \<Rightarrow> bool"
    and update :: "string \<Rightarrow> string \<Rightarrow> string list \<Rightarrow> 'c \<Rightarrow> 'c"
    and remove :: "string \<Rightarrow> string list \<Rightarrow> 'c \<Rightarrow> 'c"
  assumes check_law: "check uid token extra c \<longleftrightarrow> sess c uid (concat extra) = Some token"
    and update_law: "sess (update uid token extra c) uid' info =
        (if concat extra \<noteq> [] \<and> uid' = uid \<and> info = concat extra then Some token else sess c uid' info)"
    and remove_law: "sess (remove uid extra c) uid' info =
        (if uid' = uid \<and> (concat extra = [] \<or> info = concat extra) then None else sess c uid' info)"
    and inv_law: "inv c \<longleftrightarrow> (\<forall>uid. sess c uid [] = None)"
begin

lemma update_inv: "inv c \<Longrightarrow> inv (update uid token extra c)"
  by (auto simp: inv_law update_law)

lemma remove_inv: "inv c \<Longrightarrow> inv (remove uid extra c)"
  by (auto simp: inv_law remove_law)

lemma check_after_update:
  "concat extra \<noteq> [] \<Longrightarrow> check uid t extra (update uid token extra c) \<longleftrightarrow> t = token"
  by (auto simp: check_law update_law)

lemma check_after_remove: "\<not> check uid token extra (remove uid extra c)"
  by (auto simp: check_law remove_law)

lemma check_after_remove_all: "\<not> check uid token extra (remove uid [] c)"
  by (auto simp: check_law remove_law)

lemma other_user_unchanged:
  "uid' \<noteq> uid \<Longrightarrow> check uid' t e (update uid token extra c) = check uid' t e c"
  "uid' \<noteq> uid \<Longrightarrow> check uid' t e (remove uid extra c) = check uid' t e c"
  by (auto simp: check_law update_law remove_law)

end

interpretation tokens: session_store cache_inv session CheckLoginState UpdateTokenCache RemoveTokenCache
  by unfold_locales
    (auto simp: CheckLoginState_def UpdateTokenCache_def RemoveTokenCache_def cache_inv_def session_def
      loginInfo_concat Let_def split: option.splits)

section \<open>Tokens and hashes\<close>

lemma length_be_bytes [simp]: "length (be_bytes k n) = k"
  by (induction k arbitrary: n) auto

lemma be_bytes_bound: "b \<in> set (be_bytes k n) \<Longrightarrow> b < 256"
  by (induction k arbitrary: n) auto

lemma length_sha256_round: "length st = 8 \<Longrightarrow> length (sha256_round st kw) = 8"
  by (induction st kw rule: sha256_round.induct) (auto simp: Let_def)

lemma length_sha256_rounds: "length st = 8 \<Longrightarrow> length (foldl sha256_round st kws) = 8"
  by (induction kws arbitrary: st) (auto simp: length_sha256_round)

lemma length_sha256_blocks: "length st = 8 \<Longrightarrow> length (foldl sha256_block st bs) = 8"
  by (induction bs arbitrary: st) (auto simp: sha256_block_def length_sha256_rounds)

lemma length_Sum256: "length (sha256_Sum256 s) = 32"
proof -
  have "length (concat (map word_bytes ws)) = 4 * length ws" for ws
    by (induction ws) (auto simp: word_bytes_def)
  moreover have "length (foldl sha256_block sha256_H bs) = 8" for bs
    by (intro length_sha256_blocks) (simp add: sha256_H_def)
  ultimately show ?thesis by (simp add: sha256_Sum256_def)
qed

lemma length_Sprintf_x: "length (Sprintf_x bs) = 2 * length bs"
  by (induction bs) (auto simp: Sprintf_x_def)

lemma Sprintf_pair: "Sprintf ''%v%v'' [IString d, IString s] = d @ s"
  by simp

lemma genToken_concat: "genToken uid extra = foldl (\<lambda>token b. token @ itoa (int b)) [] (md5_Sum (uid @ concat extra))"
proof -
  have "foldl (\<lambda>d s. Sprintf ''%v%v'' [IString d, IString s]) uid extra = uid @ concat extra" for uid
    by (induction extra arbitrary: uid) auto
  then show ?thesis by (simp only: genToken_def Let_def)
qed

lemma EncryptPassword_Ok:
  "EncryptPassword uid salt password = Ok h \<longleftrightarrow> salt \<noteq> [] \<and>
     h = Sprintf_x (sha256_Sum256 (take (length uid mod length salt) salt @ password @ drop (length uid mod length salt) salt))"
  by (auto simp: EncryptPassword_def Let_def)

section \<open>Properties of authentication\<close>

text \<open>A history of the cache: logins store a token, logouts remove one session or all of a user's.\<close>

datatype cache_op = Store string string "string list" | Drop string "string list"

fun do_op :: "cache_op \<Rightarrow> loginCache \<Rightarrow> loginCache" where
  "do_op (Store uid token extra) c = UpdateTokenCache uid token extra c"
| "do_op (Drop uid extra) c = RemoveTokenCache uid extra c"

text \<open>The token of a session by a history, the latest operation first.\<close>

fun last_token :: "cache_op list \<Rightarrow> string \<Rightarrow> string \<Rightarrow> string option" where
  "last_token [] uid info = None"
| "last_token (Store u t extra # ops) uid info =
     (if u = uid \<and> concat extra = info \<and> info \<noteq> [] then Some t else last_token ops uid info)"
| "last_token (Drop u extra # ops) uid info =
     (if u = uid \<and> (concat extra = info \<or> concat extra = []) then None else last_token ops uid info)"

lemma session_after: "session (fold do_op ops Map.empty) uid info = last_token (rev ops) uid info"
proof (induction ops rule: rev_induct)
  case Nil
  show ?case by (simp add: session_def)
next
  case (snoc op ops)
  then show ?case by (cases op) (auto simp: tokens.update_law tokens.remove_law)
qed

text \<open>C31: The token cache remembers exactly the live logins. After any sequence of
  \<^verbatim>\<open>UpdateTokenCache\<close> and \<^verbatim>\<open>RemoveTokenCache\<close> calls for any users and clients, \<^verbatim>\<open>CheckLoginState\<close> accepts
  a token exactly when the last call that concerns that user and client stored it: a later login
  of the same client replaces the token, a logout of that client or of the whole user ends it,
  and no call for another user or another client has any influence.\<close>

theorem CheckLoginState_iff_last_login:
  "CheckLoginState uid token extra (fold do_op ops Map.empty) \<longleftrightarrow>
     last_token (rev ops) uid (concat extra) = Some token"
  by (simp add: tokens.check_law session_after)

text \<open>\<^verbatim>\<open>Login\<close> decides by the stored hash. It succeeds exactly when the user has a row whose salt
  is not empty and whose hash is the SHA-256, in 64 hex digits, of the password put into the salt
  after \<open>len(uid) mod len(salt)\<close> bytes; then the token is the generated one. Without a row the login
  is refused with an empty token. A row with an empty salt makes the process panic.\<close>

theorem Login_decides:
  "Login (Some get) uid password extra =
     (case get uid of
        Inl e \<Rightarrow> Ok ([], False)
      | Inr (salt, h) \<Rightarrow>
          (if salt = [] then Panic ''runtime error: integer divide by zero''
           else if h = Sprintf_x (sha256_Sum256 (take (length uid mod length salt) salt @ password @
                                                drop (length uid mod length salt) salt))
           then Ok (genToken uid extra, True) else Ok ([], False)))"
  by (auto simp: Login_def checkPassword_def EncryptPassword_def Let_def split: sum.split)

text \<open>Registration and login fit together. If a user's row holds a salt of \<^verbatim>\<open>SaltGenerator\<close>
  (sixteen bytes) and the hash \<^verbatim>\<open>EncryptPassword\<close> gives for a password, then that hash has 64
  characters, the login with that password succeeds, and once its token is stored for a client with a
  non-empty name, \<^verbatim>\<open>CheckLoginState\<close> accepts that token for that client and no other token.\<close>

theorem registered_user_logs_in:
  assumes "rand_Read 16 = Inr salt" and "length salt = 16" and "concat extra \<noteq> []"
    and "SaltGenerator rand_Read = Inr salt" and "EncryptPassword uid salt password = Ok h"
    and "get uid = Inr (salt, h)"
  shows "length h = 64 \<and> Login (Some get) uid password extra = Ok (genToken uid extra, True) \<and>
           (\<forall>t. CheckLoginState uid t extra (UpdateTokenCache uid (genToken uid extra) extra c) \<longleftrightarrow>
              t = genToken uid extra)"
proof -
  have "Login (Some get) uid password extra = Ok (genToken uid extra, True)"
    using assms(5,6) by (simp add: Login_def checkPassword_def)
  moreover have "length h = 64"
    using assms(5) by (auto simp: EncryptPassword_Ok length_Sprintf_x length_Sum256)
  ultimately show ?thesis using tokens.check_after_update [OF assms(3)] by blast
qed

theorem registered_user_logs_in_witness:
  "\<exists>h. EncryptPassword ''bob'' (replicate 16 CHR ''x'') ''secret'' = Ok h \<and> length h = 64 \<and>
     Login (Some (\<lambda>_. Inr (replicate 16 CHR ''x'', h))) ''bob'' ''secret'' [''10.0.0.1''] =
       Ok (genToken ''bob'' [''10.0.0.1''], True)"
proof -
  obtain h where h: "EncryptPassword ''bob'' (replicate 16 CHR ''x'') ''secret'' = Ok h"
    by (simp add: EncryptPassword_def Let_def)
  with registered_user_logs_in
    [of "\<lambda>_. Inr (replicate 16 CHR ''x'')" "replicate 16 CHR ''x''" "[''10.0.0.1'']" "''bob''" "''secret''" h
      "\<lambda>_. Inr (replicate 16 CHR ''x'', h)" Map.empty]
  show ?thesis by (simp add: SaltGenerator_def)
qed

text \<open>Tokens contain no secret. A token depends only on the concatenation of the user name and
  the client strings, so it is the same at every login, anyone who knows these strings can
  compute it, and different users can share it: \<open>genToken\<close> of \<^verbatim>\<open>ab\<close> and \<^verbatim>\<open>c\<close> is that of \<^verbatim>\<open>a\<close> and \<^verbatim>\<open>bc\<close>.\<close>

theorem token_is_function_of_names:
  assumes "uid @ concat extra = uid' @ concat extra'"
  shows "genToken uid extra = genToken uid' extra'"
  using assms by (simp add: genToken_concat)

theorem token_is_function_of_names_witness: "genToken ''ab'' [''c''] = genToken ''a'' [''b'', ''c'']"
  using token_is_function_of_names [of "''ab''" "[''c'']" "''a''" "[''b'', ''c'']"] by simp

end
