(* ===== verification/Server.thy ===== *)
theory Server
  imports Recorder_Manager Auth Proto
begin

text \<open>
  The search server process, \<^verbatim>\<open>server/server.go\<close> lines 94 to 267: the gRPC handlers of
  \<^verbatim>\<open>SearchServer\<close> and \<^verbatim>\<open>SearchController\<close> over the process's token cache and default recorder
  manager, and the certificate server.  The theory shows that a server process implements the abstract
  service (a table of sessions and a map of histories) for every sequence of requests and background
  steps, and what the handlers do and do not check.
\<close>

section \<open>The code\<close>

text \<open>
  The state of the process: the package variables \<^verbatim>\<open>auth.loginCache\<close> and
  \<^verbatim>\<open>recorder.defaultRecorderManager\<close> with the recorders it manages.
\<close>

record 'w server =
  sv_tokens :: loginCache
  sv_manager :: recorderManager
  sv_heap :: "'w rheap"

text \<open>What the process talks to: the storages and the user table.\<close>

record 'w server_env =
  se_env :: "'w env"
  se_getter :: "(string \<Rightarrow> error + string \<times> string) option"

definition sc_Check :: "HealthCheckRequest \<Rightarrow> HealthCheckResponse \<times> error option" where
  "sc_Check req = (\<lparr>hcr_Status = SERVING\<rparr>, None)"

text \<open>\<^verbatim>\<open>UidLogout\<close>; neither \<^verbatim>\<open>RemoveTokenCache\<close> nor \<^verbatim>\<open>Stop\<close> ever returns an error.\<close>

definition sc_UidLogout ::
  "'w server_env \<Rightarrow> UidLogoutRequest \<Rightarrow> 'w server \<Rightarrow> ((UidLogoutResponse \<times> error option) \<times> 'w server) outcome"
where
  "sc_UidLogout G req sv =
     (let sv1 = sv\<lparr>sv_tokens := RemoveTokenCache (ulq_Uid req) [] (sv_tokens sv)\<rparr> in
      obind (rm_Stop (se_env G) (ulq_Uid req) (sv_manager sv1) (sv_heap sv1)) (\<lambda>(m, h).
        Ok ((\<lparr>ulr_ResponseCode = 200\<rparr>, None), sv1\<lparr>sv_manager := m, sv_heap := h\<rparr>)))"

definition ss_Search ::
  "'w server_env \<Rightarrow> SearchRequest \<Rightarrow> 'w server \<Rightarrow> ((SearchResponse \<times> error option) \<times> 'w server) outcome"
where
  "ss_Search G req sv =
     (if srq_Uid req \<noteq> '''' \<and> srq_SearchString req = '''' \<and>
         \<not> CheckLoginState (srq_Uid req) (srq_Token req) [srq_CliAddr req] (sv_tokens sv)
      then Ok ((\<lparr>srr_Response = [], srr_ResponseCode = 403\<rparr>, None), sv)
      else obind (rm_Find (se_env G) (srq_Uid req) (srq_SearchString req) (sv_manager sv) (sv_heap sv))
             (\<lambda>(res, m, h).
               Ok ((\<lparr>srr_Response = res, srr_ResponseCode = 200\<rparr>, None),
                   sv\<lparr>sv_manager := m, sv_heap := h\<rparr>)))"

definition ss_Upload ::
  "'w server_env \<Rightarrow> UploadRequest \<Rightarrow> 'w server \<Rightarrow> ((UploadResponse \<times> error option) \<times> 'w server) outcome"
where
  "ss_Upload G req sv =
     (if \<not> CheckLoginState (upq_Uid req) (upq_Token req) [upq_CliAddr req] (sv_tokens sv)
      then Ok ((\<lparr>upr_ErrorMsg = ''Invalid token'', upr_ResponseCode = 403\<rparr>, None), sv)
      else obind (rm_Add (se_env G) (upq_Uid req) (upq_Record req) (sv_manager sv) (sv_heap sv))
             (\<lambda>(err, m, h).
               (let sv1 = sv\<lparr>sv_manager := m, sv_heap := h\<rparr> in
                case err of
                  Some e \<Rightarrow> Ok ((\<lparr>upr_ErrorMsg = error_msg e, upr_ResponseCode = 503\<rparr>, Some e), sv1)
                | None \<Rightarrow> Ok ((\<lparr>upr_ErrorMsg = '''', upr_ResponseCode = 200\<rparr>, None), sv1))))"

definition ss_Login ::
  "'w server_env \<Rightarrow> LoginRequest \<Rightarrow> 'w server \<Rightarrow> ((LoginResponse \<times> error option) \<times> 'w server) outcome"
where
  "ss_Login G req sv =
     obind (Login (se_getter G) (liq_Uid req) (liq_Password req) [liq_CliAddr req]) (\<lambda>(token, ok).
       (if ok then
          Ok ((\<lparr>lir_ResponseCode = 200, lir_Token = token\<rparr>, None),
              sv\<lparr>sv_tokens := UpdateTokenCache (liq_Uid req) token [liq_CliAddr req] (sv_tokens sv)\<rparr>)
        else
          Ok ((\<lparr>lir_ResponseCode = 403, lir_Token = ''''\<rparr>, Some (Err ''Incorrect username or password.'')), sv)))"

text \<open>\<^verbatim>\<open>RemoveTokenCache\<close> returns no error, so the response code is always 200.\<close>

definition ss_Logout :: "LogoutRequest \<Rightarrow> 'w server \<Rightarrow> (LogoutResponse \<times> error option) \<times> 'w server" where
  "ss_Logout req sv =
     ((\<lparr>lor_ResponseCode = 200\<rparr>, None),
      sv\<lparr>sv_tokens := RemoveTokenCache (loq_Uid req) [loq_CliAddr req] (sv_tokens sv)\<rparr>)"

text \<open>
  The certificate server: the status that is written (\<^const>\<open>None\<close> for the implicit 200) and the
  body.
\<close>

definition cert_ServeHTTP :: "(string \<Rightarrow> error + string) \<Rightarrow> int option \<times> string" where
  "cert_ServeHTTP readFile =
     (case GetCert readFile of
        (cert, None) \<Rightarrow> (None, cert)
      | (_, Some err) \<Rightarrow> (Some 503, ''load crt error''))"

section \<open>Runs of a server process\<close>

text \<open>
  The requests a process serves and the steps of its recorder goroutines.  The managers of the
  token cache and of the recorders are locked by each call, so a handler is treated as one step.
\<close>

datatype server_event =
    ReqLogin LoginRequest
  | ReqLogout LogoutRequest
  | ReqUpload UploadRequest
  | ReqSearch SearchRequest
  | ReqUidLogout UidLogoutRequest
  | RecTick nat
  | RecExit nat

datatype server_answer =
    LoginAns LoginResponse "error option"
  | LogoutAns LogoutResponse "error option"
  | UploadAns UploadResponse "error option"
  | SearchAns SearchResponse "error option"
  | UidLogoutAns UidLogoutResponse "error option"
  | Quiet

fun sv_step :: "'w server_env \<Rightarrow> server_event \<Rightarrow> 'w server \<Rightarrow> (server_answer \<times> 'w server) outcome" where
  "sv_step G (ReqLogin req) sv = obind (ss_Login G req sv) (\<lambda>((r, e), sv'). Ok (LoginAns r e, sv'))"
| "sv_step G (ReqLogout req) sv = (case ss_Logout req sv of ((r, e), sv') \<Rightarrow> Ok (LogoutAns r e, sv'))"
| "sv_step G (ReqUpload req) sv = obind (ss_Upload G req sv) (\<lambda>((r, e), sv'). Ok (UploadAns r e, sv'))"
| "sv_step G (ReqSearch req) sv = obind (ss_Search G req sv) (\<lambda>((r, e), sv'). Ok (SearchAns r e, sv'))"
| "sv_step G (ReqUidLogout req) sv = obind (sc_UidLogout G req sv) (\<lambda>((r, e), sv'). Ok (UidLogoutAns r e, sv'))"
| "sv_step G (RecTick ref) sv =
     obind (loop_tick (se_env G) ref (sv_heap sv)) (\<lambda>h. Ok (Quiet, sv\<lparr>sv_heap := h\<rparr>))"
| "sv_step G (RecExit ref) sv = Ok (Quiet, sv\<lparr>sv_heap := loop_exit ref (sv_heap sv)\<rparr>)"

abbreviation sv_run :: "'w server_env \<Rightarrow> server_event list \<Rightarrow> 'w server \<Rightarrow> (server_answer list \<times> 'w server) outcome" where
  "sv_run G \<equiv> run_steps (sv_step G)"

text \<open>A process that starts on a state of the store.\<close>

definition sv_boot :: "'w \<Rightarrow> 'w server outcome" where
  "sv_boot w = obind DefaultRecorderManager (\<lambda>m.
     Ok \<lparr>sv_tokens = Map.empty, sv_manager = m, sv_heap = rheap_empty w\<rparr>)"

section \<open>The abstract service\<close>

text \<open>
  The service as its users see it: live sessions (user and client address to token) and a history
  per user.
\<close>

record service =
  sp_sess :: "string \<Rightarrow> string \<Rightarrow> string option"
  sp_hist :: "string \<Rightarrow> string list"

definition password_ok :: "'w server_env \<Rightarrow> string \<Rightarrow> string \<Rightarrow> bool" where
  "password_ok G uid password =
     (case se_getter G of
        None \<Rightarrow> False
      | Some get \<Rightarrow> (case get uid of Inl _ \<Rightarrow> False | Inr (salt, h) \<Rightarrow> EncryptPassword uid salt password = Ok h))"

definition logged_in :: "service \<Rightarrow> string \<Rightarrow> string \<Rightarrow> string \<Rightarrow> bool" where
  "logged_in S uid cli token \<longleftrightarrow> sp_sess S uid cli = Some token"

definition put_session :: "string \<Rightarrow> string \<Rightarrow> string option \<Rightarrow> service \<Rightarrow> service" where
  "put_session uid cli t S =
     S\<lparr>sp_sess := (\<lambda>u c. if u = uid \<and> c = cli \<and> c \<noteq> [] then t else sp_sess S u c)\<rparr>"

definition drop_sessions :: "string \<Rightarrow> service \<Rightarrow> service" where
  "drop_sessions uid S = S\<lparr>sp_sess := (\<lambda>u c. if u = uid then None else sp_sess S u c)\<rparr>"

fun service_step :: "'w server_env \<Rightarrow> server_event \<Rightarrow> service \<Rightarrow> server_answer \<times> service" where
  "service_step G (ReqLogin r) S =
     (if password_ok G (liq_Uid r) (liq_Password r)
      then (let t = genToken (liq_Uid r) [liq_CliAddr r] in
            (LoginAns \<lparr>lir_ResponseCode = 200, lir_Token = t\<rparr> None,
             put_session (liq_Uid r) (liq_CliAddr r) (Some t) S))
      else (LoginAns \<lparr>lir_ResponseCode = 403, lir_Token = []\<rparr> (Some (Err ''Incorrect username or password.'')), S))"
| "service_step G (ReqLogout r) S =
     (LogoutAns \<lparr>lor_ResponseCode = 200\<rparr> None,
      if loq_CliAddr r = [] then drop_sessions (loq_Uid r) S
      else put_session (loq_Uid r) (loq_CliAddr r) None S)"
| "service_step G (ReqUpload r) S =
     (if \<not> logged_in S (upq_Uid r) (upq_CliAddr r) (upq_Token r)
      then (UploadAns \<lparr>upr_ErrorMsg = ''Invalid token'', upr_ResponseCode = 403\<rparr> None, S)
      else if upq_Record r = []
      then (UploadAns \<lparr>upr_ErrorMsg = ''ERROR: record is empty'', upr_ResponseCode = 503\<rparr>
              (Some (Err ''ERROR: record is empty'')), S)
      else (UploadAns \<lparr>upr_ErrorMsg = [], upr_ResponseCode = 200\<rparr> None,
            S\<lparr>sp_hist := (sp_hist S)(upq_Uid r := remember 10000 (upq_Record r) (sp_hist S (upq_Uid r)))\<rparr>))"
| "service_step G (ReqSearch r) S =
     (if srq_SearchString r = [] \<and> \<not> logged_in S (srq_Uid r) (srq_CliAddr r) (srq_Token r)
      then (SearchAns \<lparr>srr_Response = [], srr_ResponseCode = 403\<rparr> None, S)
      else (SearchAns \<lparr>srr_Response = filter (matches (srq_SearchString r)) (sp_hist S (srq_Uid r)),
                      srr_ResponseCode = 200\<rparr> None, S))"
| "service_step G (ReqUidLogout r) S =
     (UidLogoutAns \<lparr>ulr_ResponseCode = 200\<rparr> None, drop_sessions (ulq_Uid r) S)"
| "service_step G (RecTick ref) S = (Quiet, S)"
| "service_step G (RecExit ref) S = (Quiet, S)"

abbreviation service_run :: "'w server_env \<Rightarrow> server_event list \<Rightarrow> service \<Rightarrow> server_answer list" where
  "service_run G \<equiv> run_spec (service_step G)"

section \<open>The process implements the service\<close>

definition sv_inv :: "'w server \<Rightarrow> bool" where
  "sv_inv sv \<longleftrightarrow> rm_inv (sv_manager sv) (sv_heap sv)"

definition represents :: "('w \<Rightarrow> string \<rightharpoonup> string) \<Rightarrow> 'w server \<Rightarrow> service \<Rightarrow> bool" where
  "represents view sv S \<longleftrightarrow>
     hist_ok view (rm_users (sv_manager sv)) (sv_heap sv) (sp_hist S) \<and> session (sv_tokens sv) = sp_sess S"

text \<open>One of several processes, which serves the users \<open>U\<close> and leaves the other keys of the store at \<open>V\<close>.\<close>

definition represents_on ::
  "(string \<Rightarrow> bool) \<Rightarrow> (string \<rightharpoonup> string) \<Rightarrow> ('w \<Rightarrow> string \<rightharpoonup> string) \<Rightarrow> 'w server \<Rightarrow> service \<Rightarrow> bool"
where
  "represents_on U V view sv S \<longleftrightarrow>
     hist_on U V view (rm_users (sv_manager sv)) (sv_heap sv) (sp_hist S) \<and> session (sv_tokens sv) = sp_sess S"

lemma represents_iff: "represents view sv S \<longleftrightarrow> (\<exists>V. represents_on plain_name V view sv S)"
  by (simp add: represents_def represents_on_def hist_ok_on)

text \<open>The user table never holds an empty salt (a row with one makes \<^verbatim>\<open>Login\<close> panic).\<close>

definition salted :: "'w server_env \<Rightarrow> bool" where
  "salted G \<longleftrightarrow> (\<forall>get uid salt h. se_getter G = Some get \<and> get uid = Inr (salt, h) \<longrightarrow> salt \<noteq> [])"

fun plain_request :: "server_event \<Rightarrow> bool" where
  "plain_request (ReqUpload r) = (plain_name (upq_Uid r) \<and> valid_utf8 (upq_Record r))"
| "plain_request (ReqSearch r) = plain_name (srq_Uid r)"
| "plain_request _ = True"

text \<open>The requests that concern the history of a user are those of \<open>U\<close>.\<close>

fun request_of :: "(string \<Rightarrow> bool) \<Rightarrow> server_event \<Rightarrow> bool" where
  "request_of U (ReqUpload r) = (U (upq_Uid r) \<and> valid_utf8 (upq_Record r))"
| "request_of U (ReqSearch r) = U (srq_Uid r)"
| "request_of U _ = True"

lemma request_of_plain [simp]: "request_of plain_name = plain_request"
proof
  show "request_of plain_name ev = plain_request ev" for ev by (cases ev) simp_all
qed

fun timely :: "server_event \<Rightarrow> 'w server \<Rightarrow> bool" where
  "timely (RecTick ref) sv = (\<not> stale ref (sv_heap sv))"
| "timely _ sv = True"

lemma Login_eq:
  assumes "salted G"
  shows "Login (se_getter G) uid password extra =
     Ok (if password_ok G uid password then (genToken uid extra, True) else ([], False))"
proof (cases "se_getter G")
  case None
  then show ?thesis by (simp add: Login_def password_ok_def)
next
  case (Some get)
  show ?thesis
  proof (cases "get uid")
    case (Inl e)
    with Some show ?thesis by (simp add: Login_def password_ok_def)
  next
    case (Inr row)
    obtain salt h where row: "row = (salt, h)" by (rule prod.exhaust)
    then have "salt \<noteq> []" using assms Some Inr by (auto simp: salted_def)
    then obtain h' where "EncryptPassword uid salt password = Ok h'" by (simp add: EncryptPassword_def Let_def)
    with Some Inr row show ?thesis by (auto simp: Login_def password_ok_def checkPassword_def)
  qed
qed

lemma CheckLoginState_session:
  "CheckLoginState uid token [cli] c \<longleftrightarrow> session c uid cli = Some token"
  using tokens.check_law [of uid token "[cli]" c] by simp

lemma session_update:
  "session (UpdateTokenCache uid token [cli] c) =
     (\<lambda>u k. if u = uid \<and> k = cli \<and> k \<noteq> [] then Some token else session c u k)"
  by (intro ext) (auto simp: tokens.update_law)

lemma session_remove:
  "session (RemoveTokenCache uid [cli] c) =
     (\<lambda>u k. if u = uid \<and> (cli = [] \<or> k = cli) then None else session c u k)"
  "session (RemoveTokenCache uid [] c) = (\<lambda>u k. if u = uid then None else session c u k)"
  by (intro ext; auto simp: tokens.remove_law)+

lemma ss_Login_on:
  assumes "salted G" and "sv_inv sv"
  shows "\<exists>a sv'. sv_step G (ReqLogin r) sv = Ok (a, sv') \<and> sv_inv sv' \<and>
     (represents_on U V view sv S \<longrightarrow> a = fst (service_step G (ReqLogin r) S) \<and>
        represents_on U V view sv' (snd (service_step G (ReqLogin r) S)))"
  using assms(2)
  by (auto simp: ss_Login_def Login_eq [OF assms(1)] sv_inv_def represents_on_def session_update put_session_def Let_def
      intro!: ext)

lemma ss_Logout_on:
  assumes "sv_inv sv"
  shows "\<exists>a sv'. sv_step G (ReqLogout r) sv = Ok (a, sv') \<and> sv_inv sv' \<and>
     (represents_on U V view sv S \<longrightarrow> a = fst (service_step G (ReqLogout r) S) \<and>
        represents_on U V view sv' (snd (service_step G (ReqLogout r) S)))"
proof -
  have "session (RemoveTokenCache uid [cli] c) u k = (if u = uid \<and> k = cli \<and> k \<noteq> [] then None else session c u k)"
    if "cli \<noteq> []" for uid cli c u k using that by (simp add: session_remove)
  then show ?thesis
    using assms
    by (auto simp: ss_Logout_def sv_inv_def represents_on_def session_remove(1) put_session_def drop_sessions_def
        intro!: ext)
qed

lemma sc_UidLogout_on:
  assumes "sv_inv sv"
  shows "\<exists>a sv'. sv_step G (ReqUidLogout r) sv = Ok (a, sv') \<and> sv_inv sv' \<and>
     (kv_reliable (env_cli (se_env G)) view \<and> represents_on U V view sv S \<longrightarrow>
        a = fst (service_step G (ReqUidLogout r) S) \<and>
        represents_on U V view sv' (snd (service_step G (ReqUidLogout r) S)))"
proof -
  from rm_Stop_law [of "sv_manager sv" "sv_heap sv" "se_env G" "ulq_Uid r" view U V "sp_hist S"] assms
  obtain m h where "rm_Stop (se_env G) (ulq_Uid r) (sv_manager sv) (sv_heap sv) = Ok (m, h)" "rm_inv m h"
    "kv_reliable (env_cli (se_env G)) view \<and> hist_on U V view (rm_users (sv_manager sv)) (sv_heap sv) (sp_hist S) \<longrightarrow>
       hist_on U V view (rm_users m) h (sp_hist S)" by (auto simp: sv_inv_def)
  then show ?thesis
    by (auto simp: sc_UidLogout_def sv_inv_def represents_on_def session_remove drop_sessions_def intro!: ext)
qed

lemma ss_Upload_on:
  assumes "sv_inv sv"
  shows "\<exists>a sv'. sv_step G (ReqUpload r) sv = Ok (a, sv') \<and> sv_inv sv' \<and>
     (kv_reliable (env_cli (se_env G)) view \<and> represents_on U V view sv S \<and> request_of U (ReqUpload r) \<longrightarrow>
        a = fst (service_step G (ReqUpload r) S) \<and>
        represents_on U V view sv' (snd (service_step G (ReqUpload r) S)))"
proof (cases "CheckLoginState (upq_Uid r) (upq_Token r) [upq_CliAddr r] (sv_tokens sv)")
  case False
  with assms show ?thesis
    by (auto simp: ss_Upload_def CheckLoginState_session represents_on_def logged_in_def)
next
  case True
  from rm_Add_law [of "sv_manager sv" "sv_heap sv" "se_env G" "upq_Uid r" "upq_Record r" view U V "sp_hist S"] assms
  obtain m h where "rm_Add (se_env G) (upq_Uid r) (upq_Record r) (sv_manager sv) (sv_heap sv) =
      Ok (if upq_Record r = [] then Some (Err ''ERROR: record is empty'') else None, m, h)" "rm_inv m h"
    "kv_reliable (env_cli (se_env G)) view \<and> U (upq_Uid r) \<and> valid_utf8 (upq_Record r) \<and>
     hist_on U V view (rm_users (sv_manager sv)) (sv_heap sv) (sp_hist S) \<longrightarrow>
       hist_on U V view (rm_users m) h (spec_add (upq_Uid r) (upq_Record r) (sp_hist S))" by (auto simp: sv_inv_def)
  with True show ?thesis
    by (auto simp: ss_Upload_def CheckLoginState_session represents_on_def logged_in_def sv_inv_def spec_add_def)
qed

lemma ss_Search_on:
  assumes "sv_inv sv"
  shows "\<exists>a sv'. sv_step G (ReqSearch r) sv = Ok (a, sv') \<and> sv_inv sv' \<and>
     (kv_reliable (env_cli (se_env G)) view \<and> represents_on U V view sv S \<and> request_of U (ReqSearch r) \<longrightarrow>
        a = fst (service_step G (ReqSearch r) S) \<and>
        represents_on U V view sv' (snd (service_step G (ReqSearch r) S)))"
proof (cases "srq_Uid r \<noteq> [] \<and> srq_SearchString r = [] \<and>
    \<not> CheckLoginState (srq_Uid r) (srq_Token r) [srq_CliAddr r] (sv_tokens sv)")
  case True
  with assms show ?thesis
    by (auto simp: ss_Search_def CheckLoginState_session represents_on_def logged_in_def)
next
  case False
  from rm_Find_law [of "sv_manager sv" "sv_heap sv" "se_env G" "srq_Uid r" "srq_SearchString r" view U V "sp_hist S"] assms
  obtain res m h where
    "rm_Find (se_env G) (srq_Uid r) (srq_SearchString r) (sv_manager sv) (sv_heap sv) = Ok (res, m, h)" "rm_inv m h"
    "kv_reliable (env_cli (se_env G)) view \<and> U (srq_Uid r) \<and>
     hist_on U V view (rm_users (sv_manager sv)) (sv_heap sv) (sp_hist S) \<longrightarrow>
       res = filter (matches (srq_SearchString r)) (sp_hist S (srq_Uid r)) \<and>
       hist_on U V view (rm_users m) h (sp_hist S)" by (auto simp: sv_inv_def)
  moreover have "srq_Uid r \<noteq> []" if "hist_on U V view (rm_users (sv_manager sv)) (sv_heap sv) (sp_hist S)" "U (srq_Uid r)"
    using hist_onD(4) [OF that] by (simp add: plain_name_def)
  ultimately show ?thesis
    using False
    by (auto simp: ss_Search_def CheckLoginState_session represents_on_def logged_in_def sv_inv_def)
qed

lemma sv_step_on:
  assumes "salted G" and "sv_inv sv"
  shows "\<exists>a sv'. sv_step G ev sv = Ok (a, sv') \<and> sv_inv sv' \<and>
     (kv_reliable (env_cli (se_env G)) view \<and> represents_on U V view sv S \<and> request_of U ev \<and> timely ev sv \<longrightarrow>
        a = fst (service_step G ev S) \<and> represents_on U V view sv' (snd (service_step G ev S)))"
proof (cases ev)
  case (ReqLogin r)
  with ss_Login_on [OF assms] show ?thesis by blast
next
  case (ReqLogout r)
  with ss_Logout_on [OF assms(2)] show ?thesis by blast
next
  case (ReqUpload r)
  with ss_Upload_on [OF assms(2)] show ?thesis by blast
next
  case (ReqSearch r)
  with ss_Search_on [OF assms(2)] show ?thesis by blast
next
  case (ReqUidLogout r)
  with sc_UidLogout_on [OF assms(2)] show ?thesis by blast
next
  case (RecTick ref)
  from loop_tick_law [of "sv_manager sv" "sv_heap sv" "se_env G" ref view U V "sp_hist S"] assms(2)
  obtain h where "loop_tick (se_env G) ref (sv_heap sv) = Ok h" "rm_inv (sv_manager sv) h"
    "kv_reliable (env_cli (se_env G)) view \<and> \<not> stale ref (sv_heap sv) \<and>
       hist_on U V view (rm_users (sv_manager sv)) (sv_heap sv) (sp_hist S) \<longrightarrow>
       hist_on U V view (rm_users (sv_manager sv)) h (sp_hist S)" by (auto simp: sv_inv_def)
  with RecTick show ?thesis by (auto simp: sv_inv_def represents_on_def)
next
  case (RecExit ref)
  with loop_exit_law [of "sv_manager sv" "sv_heap sv"] assms(2) show ?thesis
    by (auto simp: sv_inv_def represents_on_def)
qed

text \<open>The only process.\<close>

lemma only_process:
  assumes "\<And>V. \<exists>a sv'. st = Ok (a, sv') \<and> I sv' \<and> (P \<and> represents_on plain_name V view sv S \<and> Q \<longrightarrow>
      a = x \<and> represents_on plain_name V view sv' S')"
  shows "\<exists>a sv'. st = Ok (a, sv') \<and> I sv' \<and> (P \<and> represents view sv S \<and> Q \<longrightarrow> a = x \<and> represents view sv' S')"
  using assms unfolding represents_iff by (metis outcome.inject(1) prod.inject)

lemma ss_Upload_law:
  assumes "sv_inv sv"
  shows "\<exists>a sv'. sv_step G (ReqUpload r) sv = Ok (a, sv') \<and> sv_inv sv' \<and>
     (kv_reliable (env_cli (se_env G)) view \<and> represents view sv S \<and> plain_request (ReqUpload r) \<longrightarrow>
        a = fst (service_step G (ReqUpload r) S) \<and>
        represents view sv' (snd (service_step G (ReqUpload r) S)))"
  by (rule only_process) (rule ss_Upload_on [OF assms, where U = plain_name, unfolded request_of_plain])

lemma ss_Search_law:
  assumes "sv_inv sv"
  shows "\<exists>a sv'. sv_step G (ReqSearch r) sv = Ok (a, sv') \<and> sv_inv sv' \<and>
     (kv_reliable (env_cli (se_env G)) view \<and> represents view sv S \<and> plain_request (ReqSearch r) \<longrightarrow>
        a = fst (service_step G (ReqSearch r) S) \<and>
        represents view sv' (snd (service_step G (ReqSearch r) S)))"
  by (rule only_process) (rule ss_Search_on [OF assms, where U = plain_name, unfolded request_of_plain])

lemma sv_step_law:
  assumes "salted G" and "sv_inv sv"
  shows "\<exists>a sv'. sv_step G ev sv = Ok (a, sv') \<and> sv_inv sv' \<and>
     (kv_reliable (env_cli (se_env G)) view \<and> represents view sv S \<and> plain_request ev \<and> timely ev sv \<longrightarrow>
        a = fst (service_step G ev S) \<and> represents view sv' (snd (service_step G ev S)))"
  by (rule only_process) (rule sv_step_on [OF assms, where U = plain_name, unfolded request_of_plain])

text \<open>A run in which no goroutine ticks after it was told to stop.\<close>

abbreviation timely_run :: "'w server_env \<Rightarrow> server_event list \<Rightarrow> 'w server \<Rightarrow> bool" where
  "timely_run G \<equiv> run_fair (sv_step G) timely"

interpretation process: implements "sv_step G" "service_step G" "\<lambda>sv. salted G \<and> sv_inv sv" "represents view"
    "\<lambda>ev sv. (kv_reliable (env_cli (se_env G)) view \<and> plain_request ev) \<and> timely ev sv" for G view
proof (unfold_locales, goal_cases)
  case (1 sv ev S)
  then have "salted G" "sv_inv sv" by simp_all
  from sv_step_law [OF this, of ev view S] \<open>salted G\<close> show ?case by blast
qed

lemma sv_run_refines:
  assumes "salted G" and "sv_inv sv" and "kv_reliable (env_cli (se_env G)) view" and "represents view sv S"
    and "\<forall>ev \<in> set evs. plain_request ev" and "timely_run G evs sv"
  shows "\<exists>sv'. sv_run G evs sv = Ok (service_run G evs S, sv') \<and> sv_inv sv'"
proof -
  have "run_fair (sv_step G)
      (\<lambda>ev sv. (kv_reliable (env_cli (se_env G)) view \<and> plain_request ev) \<and> timely ev sv) evs sv"
    using assms(3,5,6) by (intro run_fair_conj) auto
  from process.refines [OF _ assms(4) this] assms(1,2) show ?thesis by blast
qed

lemma sv_run_total:
  "salted G \<Longrightarrow> sv_inv sv \<Longrightarrow> \<exists>as sv'. sv_run G evs sv = Ok (as, sv') \<and> sv_inv sv'"
  using process.total [of G sv evs] by blast

lemma sv_boot_inv:
  "\<exists>sv. sv_boot w = Ok sv \<and> sv_inv sv \<and> sv_tokens sv = Map.empty \<and>
     rm_users (sv_manager sv) = {} \<and> sv_heap sv = rheap_empty w"
  using manager_of_inv [of defaultRecorderNum w]
  by (auto simp: sv_boot_def DefaultRecorderManager_def sv_inv_def defaultRecorderNum_def)

section \<open>Properties of the server process\<close>


text \<open>One registered user \<^verbatim>\<open>bob\<close>, who logs in, uploads, searches, logs out and uploads again.\<close>

definition bob_row :: "string \<times> string" where
  "bob_row = (''0123456789abcdef'',
     case EncryptPassword ''bob'' ''0123456789abcdef'' ''pw'' of Ok h \<Rightarrow> h | _ \<Rightarrow> [])"

definition sample_env :: "mem_world server_env" where
  "sample_env = \<lparr>se_env = mem_env,
     se_getter = Some (\<lambda>uid. if uid = ''bob'' then Inr bob_row else Inl (Err ''no rows''))\<rparr>"

definition bob_token :: string where
  "bob_token = genToken ''bob'' [''c1'']"

definition after_login :: "server_event list" where
  "after_login =
     [ReqUpload \<lparr>upq_Uid = ''bob'', upq_Record = ''ls -l'', upq_Token = bob_token, upq_CliAddr = ''c1''\<rparr>,
      ReqUpload \<lparr>upq_Uid = ''bob'', upq_Record = ''rm'', upq_Token = bob_token, upq_CliAddr = ''c2''\<rparr>,
      ReqUidLogout \<lparr>ulq_Uid = ''bob''\<rparr>,
      ReqSearch \<lparr>srq_Uid = ''bob'', srq_SearchString = ''l'', srq_Token = [], srq_CliAddr = ''c3''\<rparr>]"

definition sample_requests :: "server_event list" where
  "sample_requests =
     ReqLogin \<lparr>liq_Uid = ''bob'', liq_Password = ''pw'', liq_CliAddr = ''c1''\<rparr> # after_login"

lemma sample_reliable: "kv_reliable (env_cli (se_env sample_env)) mem_view"
  by (simp only: sample_env_def server_env.simps mem_env_reliable)

lemma sample_salted: "salted sample_env"
  by (auto simp: salted_def sample_env_def bob_row_def split: if_splits)

lemma sample_password: "password_ok sample_env ''bob'' ''pw''"
  by (simp add: password_ok_def sample_env_def bob_row_def EncryptPassword_def Let_def)

lemma no_ticks_timely: "\<forall>ev \<in> set evs. \<forall>r. ev \<noteq> RecTick r \<Longrightarrow> timely_run G evs sv"
proof (rule run_fair_always, intro ballI allI)
  fix ev sv
  assume "\<forall>ev \<in> set evs. \<forall>r. ev \<noteq> RecTick r" and "ev \<in> set evs"
  then show "timely ev sv" by (cases ev) auto
qed

lemma empty_store: "stored (mem_view mem_empty) 10000 (user_path uid) []"
  by (simp add: stored_def storable_def mem_view_def mem_empty_def)

lemma sample_login:
  "service_step sample_env (ReqLogin \<lparr>liq_Uid = ''bob'', liq_Password = ''pw'', liq_CliAddr = ''c1''\<rparr>) S =
     (LoginAns \<lparr>lir_ResponseCode = 200, lir_Token = bob_token\<rparr> None, put_session ''bob'' ''c1'' (Some bob_token) S)"
  by (simp add: sample_password Let_def bob_token_def)

lemma sample_match: "matches ''l'' ''ls -l''"
  by (simp add: matches_def sublist_Cons_right)

lemma sample_rest:
  "service_run sample_env after_login
      (put_session ''bob'' ''c1'' (Some bob_token) \<lparr>sp_sess = (\<lambda>_ _. None), sp_hist = (\<lambda>_. [])\<rparr>) =
     [UploadAns \<lparr>upr_ErrorMsg = [], upr_ResponseCode = 200\<rparr> None,
      UploadAns \<lparr>upr_ErrorMsg = ''Invalid token'', upr_ResponseCode = 403\<rparr> None,
      UidLogoutAns \<lparr>ulr_ResponseCode = 200\<rparr> None,
      SearchAns \<lparr>srr_Response = [''ls -l''], srr_ResponseCode = 200\<rparr> None]"
  unfolding after_login_def
  by (simp add: sample_match logged_in_def put_session_def drop_sessions_def remember_def)

lemma sample_run:
  "service_run sample_env sample_requests \<lparr>sp_sess = (\<lambda>_ _. None), sp_hist = (\<lambda>_. [])\<rparr> =
     [LoginAns \<lparr>lir_ResponseCode = 200, lir_Token = bob_token\<rparr> None,
      UploadAns \<lparr>upr_ErrorMsg = [], upr_ResponseCode = 200\<rparr> None,
      UploadAns \<lparr>upr_ErrorMsg = ''Invalid token'', upr_ResponseCode = 403\<rparr> None,
      UidLogoutAns \<lparr>ulr_ResponseCode = 200\<rparr> None,
      SearchAns \<lparr>srr_Response = [''ls -l''], srr_ResponseCode = 200\<rparr> None]"
  unfolding sample_requests_def run_spec.simps(2) [of _ "ReqLogin _"] sample_login prod.case sample_rest
  by (rule refl)


text \<open>A server process survives everything. Whatever etcd answers, and for every sequence of
  requests for any user names and background steps, a process whose user table has no empty salt answers
  every request: no handler panics, exits the process or blocks for ever.\<close>

theorem server_never_fails:
  assumes "salted G"
  shows "\<exists>sv as sv'. sv_boot w = Ok sv \<and> sv_run G evs sv = Ok (as, sv')"
  using sv_boot_inv [of w] sv_run_total [OF assms] by blast

theorem server_never_fails_witness:
  "\<exists>sv as sv'. sv_boot mem_empty = Ok sv \<and>
     sv_run (sample_env\<lparr>se_env := flaky_env\<rparr>) sample_requests sv = Ok (as, sv')"
  using server_never_fails [of "sample_env\<lparr>se_env := flaky_env\<rparr>" mem_empty sample_requests] sample_salted
  by (simp add: salted_def)

text \<open>Reading a history needs no login. \<^verbatim>\<open>Search\<close> checks the token only for the empty search string, whose
  answer is empty anyway; for every other search string it answers 200 with all matching commands of
  the named user, whatever the token and the client address are and even if nobody is logged in.\<close>

theorem search_needs_no_login:
  assumes "kv_reliable (env_cli (se_env G)) view" and "sv_inv sv" and "represents view sv S"
    and "plain_name uid" and "s \<noteq> []"
  shows "\<exists>sv'. ss_Search G \<lparr>srq_Uid = uid, srq_SearchString = s, srq_Token = token, srq_CliAddr = cli\<rparr> sv =
           Ok ((\<lparr>srr_Response = filter (\<lambda>c. sublist s c) (sp_hist S uid), srr_ResponseCode = 200\<rparr>, None), sv')"
proof -
  let ?r = "\<lparr>srq_Uid = uid, srq_SearchString = s, srq_Token = token, srq_CliAddr = cli\<rparr>"
  from ss_Search_law [OF assms(2), of G ?r view S] assms obtain sv' where
    "sv_step G (ReqSearch ?r) sv = Ok (fst (service_step G (ReqSearch ?r) S), sv')" by auto
  moreover have "matches s = (\<lambda>c. sublist s c)" using assms(5) by (intro ext) (simp add: matches_def)
  ultimately show ?thesis using assms(5) by (auto simp: outcome_simps)
qed

theorem search_needs_no_login_witness:
  "\<exists>sv sv'. sv_boot (mem_put ''/mysh/data/bob'' ''[\"ls\"]'' None mem_empty) = Ok sv \<and>
     ss_Search sample_env \<lparr>srq_Uid = ''bob'', srq_SearchString = ''l'', srq_Token = [], srq_CliAddr = []\<rparr> sv =
       Ok ((\<lparr>srr_Response = [''ls''], srr_ResponseCode = 200\<rparr>, None), sv')"
proof -
  let ?w = "mem_put ''/mysh/data/bob'' ''[\"ls\"]'' None mem_empty"
  let ?S = "\<lparr>sp_sess = (\<lambda>_ _. None), sp_hist = (\<lambda>uid. if uid = ''bob'' then [''ls''] else [])\<rparr>"
  obtain sv where sv: "sv_boot ?w = Ok sv" "sv_inv sv" "sv_tokens sv = Map.empty"
    "rm_users (sv_manager sv) = {}" "sv_heap sv = rheap_empty ?w" using sv_boot_inv [of ?w] by blast
  have path: "user_path uid = ''/mysh/data/'' @ uid" if "plain_name uid" for uid
    using join_plain_name [OF that] by (simp add: user_path_def defaultEtcdPrefix_def)
  have marshal: "json_Marshal [''ls''] = ''[\"ls\"]''" by code_simp
  have bob: "plain_name ''bob''" by (simp add: plain_name_def)
  have "stored (mem_view ?w) 10000 (user_path uid) (sp_hist ?S uid)" if "plain_name uid" for uid
    by (auto simp: stored_def storable_def path [OF that] mem_view_put marshal valid_utf8_ascii)
      (simp_all add: mem_view_def mem_empty_def)
  then have "represents mem_view sv ?S"
    using sv hist_ok_fresh [of mem_view ?w] by (auto simp: represents_def session_def intro!: ext)
  moreover have "sublist ''l'' ''ls''" by (simp add: sublist_Cons_right)
  ultimately show ?thesis
    using search_needs_no_login [OF sample_reliable, of sv ?S "''bob''" "''l''" "[]" "[]"] sv(1,2) bob by auto
qed

end
