(* ===== verification/Cluster.thy ===== *)
theory Cluster
  imports Server
begin

text \<open>
  Several search servers beside each other.  They share one etcd and nothing else: every process has its own tokens
  and its own cache of recorders, and the dash assigns every user to one of them and, when the assignment changes,
  logs the user out of the process that he leaves (\<^verbatim>\<open>move_user\<close> of the theory \<^verbatim>\<open>Dash\<close>).  The theory shows that the
  servers together are one service with one history per user, as long as the requests of a user reach the server that he
  is assigned to, and what happens otherwise.
\<close>

section \<open>The cluster\<close>

text \<open>
  \<open>cl_procs\<close> are the running processes by their addresses, \<open>cl_home\<close> is the assignment of the dash and
  \<open>cl_store\<close> is the world with etcd.  A process takes its steps on the shared world, which replaces the one in its own
  record.
\<close>

record 'w cluster =
  cl_procs :: "string \<rightharpoonup> 'w server"
  cl_home :: "string \<Rightarrow> string"
  cl_store :: 'w

definition on_store :: "'w \<Rightarrow> 'w server \<Rightarrow> 'w server" where
  "on_store w sv = sv\<lparr>sv_heap := (sv_heap sv)\<lparr>h_world := w\<rparr>\<rparr>"

datatype cluster_event =
    Serve string server_event
  | Move string string
  | Start string

text \<open>A request to an address at which no process runs gets no answer.\<close>

definition serve ::
  "'w server_env \<Rightarrow> string \<Rightarrow> server_event \<Rightarrow> 'w cluster \<Rightarrow> (server_answer option \<times> 'w cluster) outcome"
where
  "serve G ep ev c =
     (case cl_procs c ep of
        None \<Rightarrow> Ok (None, c)
      | Some sv \<Rightarrow> obind (sv_step G ev (on_store (cl_store c) sv)) (\<lambda>(a, sv').
          Ok (Some a, c\<lparr>cl_procs := (cl_procs c)(ep \<mapsto> sv'), cl_store := h_world (sv_heap sv')\<rparr>)))"

fun cl_step :: "'w server_env \<Rightarrow> cluster_event \<Rightarrow> 'w cluster \<Rightarrow> (server_answer option \<times> 'w cluster) outcome" where
  "cl_step G (Serve ep ev) c = serve G ep ev c"
| "cl_step G (Move uid new) c =
     obind (serve G (cl_home c uid) (ReqUidLogout \<lparr>ulq_Uid = uid\<rparr>) c) (\<lambda>(_, c1).
       Ok (None, c1\<lparr>cl_home := (cl_home c1)(uid := new)\<rparr>))"
| "cl_step G (Start ep) c =
     (if cl_procs c ep \<noteq> None then Ok (None, c)
      else obind (sv_boot (cl_store c)) (\<lambda>sv. Ok (None, c\<lparr>cl_procs := (cl_procs c)(ep \<mapsto> sv)\<rparr>)))"

abbreviation cl_run :: "'w server_env \<Rightarrow> cluster_event list \<Rightarrow> 'w cluster \<Rightarrow> (server_answer option list \<times> 'w cluster) outcome" where
  "cl_run G \<equiv> run_steps (cl_step G)"

definition empty_cluster :: "(string \<Rightarrow> string) \<Rightarrow> 'w \<Rightarrow> 'w cluster" where
  "empty_cluster home w = \<lparr>cl_procs = Map.empty, cl_home = home, cl_store = w\<rparr>"

section \<open>The service of the cluster\<close>

text \<open>One history per user, and the sessions at every server.\<close>

record cservice =
  cs_up :: "string \<Rightarrow> bool"
  cs_home :: "string \<Rightarrow> string"
  cs_sess :: "string \<Rightarrow> string \<Rightarrow> string \<Rightarrow> string option"
  cs_hist :: "string \<Rightarrow> string list"

definition at_node :: "string \<Rightarrow> cservice \<Rightarrow> service" where
  "at_node ep T = \<lparr>sp_sess = cs_sess T ep, sp_hist = cs_hist T\<rparr>"

definition put_node :: "string \<Rightarrow> service \<Rightarrow> cservice \<Rightarrow> cservice" where
  "put_node ep S T = T\<lparr>cs_sess := (cs_sess T)(ep := sp_sess S), cs_hist := sp_hist S\<rparr>"

definition cs_serve :: "'w server_env \<Rightarrow> string \<Rightarrow> server_event \<Rightarrow> cservice \<Rightarrow> server_answer option \<times> cservice" where
  "cs_serve G ep ev T =
     (if cs_up T ep then (case service_step G ev (at_node ep T) of (a, S) \<Rightarrow> (Some a, put_node ep S T)) else (None, T))"

fun cs_step :: "'w server_env \<Rightarrow> cluster_event \<Rightarrow> cservice \<Rightarrow> server_answer option \<times> cservice" where
  "cs_step G (Serve ep ev) T = cs_serve G ep ev T"
| "cs_step G (Move uid new) T =
     (case cs_serve G (cs_home T uid) (ReqUidLogout \<lparr>ulq_Uid = uid\<rparr>) T of (_, T1) \<Rightarrow>
        (None, T1\<lparr>cs_home := (cs_home T1)(uid := new)\<rparr>))"
| "cs_step G (Start ep) T =
     (None, if cs_up T ep then T
            else T\<lparr>cs_up := (cs_up T)(ep := True), cs_sess := (cs_sess T)(ep := (\<lambda>_ _. None))\<rparr>)"

section \<open>Shares of the users\<close>

text \<open>The users that are assigned to a server.\<close>

definition share :: "(string \<Rightarrow> string) \<Rightarrow> string \<Rightarrow> string \<Rightarrow> bool" where
  "share home ep uid \<longleftrightarrow> plain_name uid \<and> home uid = ep"

text \<open>A server does not notice what the others do to the histories of their users.\<close>

lemma hist_on_elsewhere:
  assumes hk: "hist_on U V view A h hist" and "\<And>k. k \<in> user_path ` Collect U \<Longrightarrow> view w k = view (h_world h) k"
    and "\<And>uid. U uid \<Longrightarrow> hist' uid = hist uid"
  shows "hist_on U (view w) view A (h\<lparr>h_world := w\<rparr>) hist'"
proof (rule hist_onI, goal_cases)
  case (1 uid ref)
  then show ?case using hist_onD(1) [OF hk 1] assms(3) by auto
next
  case (2 uid)
  then show ?case using hist_onD(2,4) [OF hk 2] assms(3) by auto
next
  case (3 uid)
  then have "view w (user_path uid) = view (h_world h) (user_path uid)" by (intro assms(2)) auto
  then show ?case using hist_onD(3) [OF hk 3] assms(3) 3(1) by (simp add: stored_def)
qed simp

text \<open>A user is given up, or taken over with the history that is stored.\<close>

lemma hist_on_share:
  assumes hk: "hist_on U (view (h_world h)) view A h hist" and "\<And>uid. U' uid \<Longrightarrow> plain_name uid"
    and "\<And>uid. uid \<in> fst ` A \<Longrightarrow> U' uid"
    and "\<And>uid. U' uid \<Longrightarrow> \<not> U uid \<Longrightarrow> stored (view (h_world h)) 10000 (user_path uid) (hist uid)"
  shows "hist_on U' (view (h_world h)) view A h hist"
proof (rule hist_onI, goal_cases)
  case (1 uid ref)
  then have "uid \<in> fst ` A" by force
  then show ?case using hist_onD(1) [OF hk 1] assms(3) by auto
next
  case (2 uid)
  then show ?case using hist_onD(2) [OF hk, of uid] assms(2,4) [OF 2] by (cases "U uid") (auto simp: stored_def)
next
  case (3 uid)
  then show ?case using hist_onD(3) [OF hk, of uid] assms(4) [OF 3(1)] by blast
qed simp

section \<open>The cluster implements the service\<close>

definition cl_inv :: "'w cluster \<Rightarrow> bool" where
  "cl_inv c \<longleftrightarrow> (\<forall>ep sv. cl_procs c ep = Some sv \<longrightarrow> sv_inv sv)"

text \<open>What a server, running or not, means for the users that are assigned to it.\<close>

definition node_rel ::
  "('w \<Rightarrow> string \<rightharpoonup> string) \<Rightarrow> (string \<Rightarrow> string) \<Rightarrow> 'w \<Rightarrow> string \<Rightarrow> 'w server option \<Rightarrow> cservice \<Rightarrow> bool"
where
  "node_rel view home w ep p T \<longleftrightarrow>
     (case p of
        None \<Rightarrow> \<forall>uid. share home ep uid \<longrightarrow> stored (view w) 10000 (user_path uid) (cs_hist T uid)
      | Some sv \<Rightarrow> represents_on (share home ep) (view w) view (on_store w sv) (at_node ep T))"

definition cl_rel :: "('w \<Rightarrow> string \<rightharpoonup> string) \<Rightarrow> 'w cluster \<Rightarrow> cservice \<Rightarrow> bool" where
  "cl_rel view c T \<longleftrightarrow> cs_home T = cl_home c \<and> (\<forall>ep. cs_up T ep \<longleftrightarrow> cl_procs c ep \<noteq> None) \<and>
     (\<forall>ep. node_rel view (cl_home c) (cl_store c) ep (cl_procs c ep) T)"

lemma on_store_simps [simp]:
  "sv_inv (on_store w sv) = sv_inv sv" "on_store (h_world (sv_heap sv)) sv = sv" "timely ev (on_store w sv) = timely ev sv"
  "sv_manager (on_store w sv) = sv_manager sv" "sv_tokens (on_store w sv) = sv_tokens sv"
  "sv_heap (on_store w sv) = (sv_heap sv)\<lparr>h_world := w\<rparr>"
  by (simp_all add: on_store_def sv_inv_def rm_inv_def) (cases ev; simp add: stale_def)

lemma at_node_simps [simp]:
  "sp_sess (at_node ep T) = cs_sess T ep" "sp_hist (at_node ep T) = cs_hist T" "at_node ep (put_node ep S T) = S"
  "cs_hist (put_node ep S T) = sp_hist S" "cs_home (put_node ep S T) = cs_home T" "cs_up (put_node ep S T) = cs_up T"
  "ep' \<noteq> ep \<Longrightarrow> cs_sess (put_node ep S T) ep' = cs_sess T ep'"
  by (simp_all add: at_node_def put_node_def)

lemma share_path:
  "ep \<noteq> ep' \<Longrightarrow> k \<in> user_path ` Collect (share home ep) \<Longrightarrow> k \<notin> user_path ` Collect (share home ep')"
  using user_path_inject by (auto simp: share_def)

lemma node_elsewhere:
  assumes "node_rel view home w ep p T"
    and "\<And>k. k \<in> user_path ` Collect (share home ep) \<Longrightarrow> view w' k = view w k"
    and "\<And>uid. share home ep uid \<Longrightarrow> cs_hist T' uid = cs_hist T uid" and "cs_sess T' ep = cs_sess T ep"
  shows "node_rel view home w' ep p T'"
proof (cases p)
  case None
  then show ?thesis using assms(1-3) by (auto simp: node_rel_def stored_def)
next
  case (Some sv)
  let ?U = "share home ep"
  have "hist_on ?U (view w) view (rm_users (sv_manager sv)) ((sv_heap sv)\<lparr>h_world := w\<rparr>) (cs_hist T)"
    using assms(1) Some by (simp add: node_rel_def represents_on_def)
  from hist_on_elsewhere [OF this, of w' "cs_hist T'"] assms Some show ?thesis
    by (simp add: node_rel_def represents_on_def)
qed

lemma node_share:
  assumes "node_rel view home w ep p T" and "cs_hist T' = cs_hist T" and "cs_sess T' ep = cs_sess T ep"
    and "\<And>uid. share home' ep uid \<Longrightarrow> \<not> share home ep uid \<Longrightarrow> stored (view w) 10000 (user_path uid) (cs_hist T uid)"
    and "\<And>sv uid. p = Some sv \<Longrightarrow> uid \<in> fst ` rm_users (sv_manager sv) \<Longrightarrow> share home ep uid \<Longrightarrow> share home' ep uid"
  shows "node_rel view home' w ep p T'"
proof (cases p)
  case None
  then show ?thesis using assms(1,2,4) by (auto simp: node_rel_def)
next
  case (Some sv)
  let ?h = "(sv_heap sv)\<lparr>h_world := w\<rparr>" and ?A = "rm_users (sv_manager sv)"
  have hk: "hist_on (share home ep) (view (h_world ?h)) view ?A ?h (cs_hist T)"
    using assms(1) Some by (simp add: node_rel_def represents_on_def)
  have "hist_on (share home' ep) (view (h_world ?h)) view ?A ?h (cs_hist T)"
  proof (rule hist_on_share [OF hk])
    show "share home' ep uid" if "uid \<in> fst ` ?A" for uid using that assms(5) [OF Some that] hist_onD(1) [OF hk] by auto
  qed (use assms(4) in \<open>auto simp: share_def\<close>)
  then show ?thesis using assms(1-3) Some by (simp add: node_rel_def represents_on_def)
qed

lemma service_step_others:
  "request_of U ev \<Longrightarrow> \<not> U uid \<Longrightarrow> sp_hist (snd (service_step G ev S)) uid = sp_hist S uid"
  by (cases ev) (auto simp: put_session_def drop_sessions_def Let_def)

text \<open>A request to a server that its user is assigned to, or a step of one of its goroutines.\<close>

definition own_request :: "string \<Rightarrow> server_event \<Rightarrow> 'w cluster \<Rightarrow> bool" where
  "own_request ep ev c \<longleftrightarrow> request_of (share (cl_home c) ep) ev \<and> (\<forall>sv. cl_procs c ep = Some sv \<longrightarrow> timely ev sv)"

lemma serve_law:
  assumes "salted G" and inv: "cl_inv c"
  shows "\<exists>a c'. serve G ep ev c = Ok (a, c') \<and> cl_inv c' \<and> cl_home c' = cl_home c \<and>
     (kv_reliable (env_cli (se_env G)) view \<and> own_request ep ev c \<and> cl_rel view c T \<longrightarrow>
        a = fst (cs_serve G ep ev T) \<and> cl_rel view c' (snd (cs_serve G ep ev T)))"
proof (cases "cl_procs c ep")
  case None
  then show ?thesis using inv by (auto simp: serve_def cs_serve_def cl_rel_def)
next
  case (Some sv)
  let ?U = "share (cl_home c) ep" and ?S = "service_step G ev (at_node ep T)"
  have "sv_inv (on_store (cl_store c) sv)" using inv Some by (simp add: cl_inv_def)
  from sv_step_on [OF assms(1) this, of ev view ?U "view (cl_store c)" "at_node ep T"] obtain a sv' where
    s: "sv_step G ev (on_store (cl_store c) sv) = Ok (a, sv')" "sv_inv sv'" and
    law: "kv_reliable (env_cli (se_env G)) view \<and> represents_on ?U (view (cl_store c)) view (on_store (cl_store c) sv) (at_node ep T) \<and>
      request_of ?U ev \<and> timely ev sv \<longrightarrow> a = fst ?S \<and> represents_on ?U (view (cl_store c)) view sv' (snd ?S)" by auto
  let ?c = "c\<lparr>cl_procs := (cl_procs c)(ep \<mapsto> sv'), cl_store := h_world (sv_heap sv')\<rparr>"
  have "cl_rel view ?c (put_node ep (snd ?S) T) \<and> a = fst ?S"
    if rel: "kv_reliable (env_cli (se_env G)) view" "own_request ep ev c" "cl_rel view c T"
  proof -
    have old: "node_rel view (cl_home c) (cl_store c) ep' (cl_procs c ep') T" for ep' using rel(3) by (simp add: cl_rel_def)
    then have new: "a = fst ?S" "represents_on ?U (view (cl_store c)) view sv' (snd ?S)"
      using law rel(1,2) old [of ep] Some by (simp_all add: node_rel_def own_request_def)
    then have hk: "hist_on ?U (view (cl_store c)) view (rm_users (sv_manager sv')) (sv_heap sv') (sp_hist (snd ?S))"
      by (simp add: represents_on_def)
    have "node_rel view (cl_home c) (h_world (sv_heap sv')) ep' (((cl_procs c)(ep \<mapsto> sv')) ep') (put_node ep (snd ?S) T)" for ep'
    proof (cases "ep' = ep")
      case True
      then show ?thesis using new(2) hist_on_elsewhere [OF hk, of "h_world (sv_heap sv')"]
        by (simp add: node_rel_def represents_on_def)
    next
      case False
      have "node_rel view (cl_home c) (h_world (sv_heap sv')) ep' (cl_procs c ep') (put_node ep (snd ?S) T)"
      proof (rule node_elsewhere [OF old])
        show "view (h_world (sv_heap sv')) k = view (cl_store c) k" if "k \<in> user_path ` Collect (share (cl_home c) ep')" for k
          using hist_onD(5) [OF hk] share_path [OF False that] by blast
        show "cs_hist (put_node ep (snd ?S) T) uid = cs_hist T uid" if "share (cl_home c) ep' uid" for uid
          using service_step_others [of ?U ev uid G "at_node ep T"] rel(2) that False by (simp add: own_request_def share_def)
      qed (use False in simp)
      then show ?thesis using False by simp
    qed
    then show ?thesis using new(1) rel(3) Some by (simp add: cl_rel_def)
  qed
  note main = this
  have spec: "cs_serve G ep ev T = (Some (fst ?S), put_node ep (snd ?S) T)" if "cl_rel view c T"
    using that Some by (simp add: cs_serve_def cl_rel_def case_prod_beta)
  show ?thesis
  proof (intro exI conjI impI)
    show "serve G ep ev c = Ok (Some a, ?c)" using Some s(1) by (simp add: serve_def)
    show "cl_inv ?c" using inv s(2) by (simp add: cl_inv_def)
  qed (use main spec in auto)
qed

text \<open>The user who is logged out of a server has no recorder there.\<close>

lemma logged_out_gone:
  assumes "sv_inv sv" and "sv_step G (ReqUidLogout \<lparr>ulq_Uid = uid\<rparr>) sv = Ok (a, sv')"
  shows "uid \<notin> fst ` rm_users (sv_manager sv')"
proof -
  from rm_Stop_law [of "sv_manager sv" "sv_heap sv" "se_env G" uid "\<lambda>_. Map.empty" "\<lambda>_. True" Map.empty "\<lambda>_. []"] assms(1)
  obtain m h where "rm_Stop (se_env G) uid (sv_manager sv) (sv_heap sv) = Ok (m, h)" "uid \<notin> fst ` rm_users m"
    by (auto simp: sv_inv_def)
  with assms(2) show ?thesis by (auto simp: sc_UidLogout_def)
qed

lemma serve_logout_gone:
  assumes "cl_inv c" and "serve G ep (ReqUidLogout \<lparr>ulq_Uid = uid\<rparr>) c = Ok (a, c')" and "cl_procs c' ep = Some sv'"
  shows "uid \<notin> fst ` rm_users (sv_manager sv')"
proof (cases "cl_procs c ep")
  case None
  with assms(2,3) show ?thesis by (simp add: serve_def)
next
  case (Some sv)
  then have inv: "sv_inv (on_store (cl_store c) sv)" using assms(1) by (simp add: cl_inv_def)
  obtain b where "sv_step G (ReqUidLogout \<lparr>ulq_Uid = uid\<rparr>) (on_store (cl_store c) sv) = Ok (b, sv')"
    using assms(2,3) Some by (auto simp: serve_def obind_Ok_iff simp del: sv_step.simps)
  with inv show ?thesis by (rule logged_out_gone)
qed

text \<open>The assignment of a user without a recorder changes.\<close>

lemma assign_law:
  assumes rel: "cl_rel view c T"
    and gone: "\<And>sv. cl_procs c (cl_home c uid) = Some sv \<Longrightarrow> uid \<notin> fst ` rm_users (sv_manager sv)"
  shows "cl_rel view (c\<lparr>cl_home := (cl_home c)(uid := new)\<rparr>) (T\<lparr>cs_home := (cs_home T)(uid := new)\<rparr>)"
proof -
  have node: "node_rel view (cl_home c) (cl_store c) ep (cl_procs c ep) T" for ep using rel by (simp add: cl_rel_def)
  have stored: "stored (view (cl_store c)) 10000 (user_path uid) (cs_hist T uid)" if "plain_name uid"
  proof -
    have "share (cl_home c) (cl_home c uid) uid" using that by (simp add: share_def)
    then show ?thesis using node [of "cl_home c uid"] gone hist_onD(3)
      by (fastforce simp: node_rel_def represents_on_def split: option.splits)
  qed
  have "node_rel view ((cl_home c)(uid := new)) (cl_store c) ep (cl_procs c ep) (T\<lparr>cs_home := (cs_home T)(uid := new)\<rparr>)" for ep
    by (rule node_share [OF node]) (use stored gone in \<open>auto simp: share_def split: if_splits\<close>)
  then show ?thesis using rel by (simp add: cl_rel_def)
qed

lemma start_law:
  assumes "cl_inv c"
  shows "\<exists>a c'. cl_step G (Start ep) c = Ok (a, c') \<and> cl_inv c' \<and>
     (cl_rel view c T \<longrightarrow> a = fst (cs_step G (Start ep) T) \<and> cl_rel view c' (snd (cs_step G (Start ep) T)))"
proof (cases "cl_procs c ep")
  case (Some sv)
  have "cs_up T ep" if "cl_rel view c T" using that Some unfolding cl_rel_def by auto
  then show ?thesis
  proof (intro exI conjI impI)
    show "cl_step G (Start ep) c = Ok (None, c)" using Some by simp
  qed (use assms in simp_all)
next
  case None
  obtain sv where sv: "sv_boot (cl_store c) = Ok sv" "sv_inv sv" "sv_tokens sv = Map.empty"
    "rm_users (sv_manager sv) = {}" "sv_heap sv = rheap_empty (cl_store c)" using sv_boot_inv [of "cl_store c"] by blast
  let ?c = "c\<lparr>cl_procs := (cl_procs c)(ep \<mapsto> sv)\<rparr>" and ?T = "snd (cs_step G (Start ep) T)"
  have "cl_rel view ?c ?T" if rel: "cl_rel view c T"
  proof -
    have down: "\<not> cs_up T ep" and node: "node_rel view (cl_home c) (cl_store c) ep' (cl_procs c ep') T" for ep'
      using rel None by (auto simp: cl_rel_def)
    have "session Map.empty = (\<lambda>_ _. None)" by (intro ext) (simp add: session_def)
    then have "node_rel view (cl_home c) (cl_store c) ep (Some sv) ?T"
      using node [of ep] None sv down hist_on_fresh [of "share (cl_home c) ep" "view (cl_store c)" view "cl_store c" "cs_hist T"]
      by (auto simp: node_rel_def represents_on_def share_def rheap_empty_def)
    moreover have "node_rel view (cl_home c) (cl_store c) ep' (cl_procs c ep') ?T" if "ep' \<noteq> ep" for ep'
      using that down by (intro node_elsewhere [OF node]) auto
    ultimately show ?thesis using rel down by (simp add: cl_rel_def)
  qed
  moreover have "cl_inv ?c" using sv(2) assms by (simp add: cl_inv_def)
  ultimately show ?thesis using None sv(1) by (intro exI [of _ None] exI [of _ ?c]) simp
qed

lemma cs_serve_keeps [simp]: "cs_home (snd (cs_serve G ep ev T)) = cs_home T" "cs_up (snd (cs_serve G ep ev T)) = cs_up T"
  by (simp_all add: cs_serve_def case_prod_beta)

fun cl_fair :: "cluster_event \<Rightarrow> 'w cluster \<Rightarrow> bool" where
  "cl_fair (Serve ep ev) c = own_request ep ev c"
| "cl_fair _ c = True"

lemma cl_step_law:
  assumes "salted G" and inv: "cl_inv c"
  shows "\<exists>a c'. cl_step G ev c = Ok (a, c') \<and> cl_inv c' \<and>
     (kv_reliable (env_cli (se_env G)) view \<and> cl_fair ev c \<and> cl_rel view c T \<longrightarrow>
        a = fst (cs_step G ev T) \<and> cl_rel view c' (snd (cs_step G ev T)))"
proof (cases ev)
  case (Serve ep e)
  with serve_law [OF assms, of ep e view T] show ?thesis by auto
next
  case (Start ep)
  with start_law [OF inv, of G ep view T] show ?thesis by blast
next
  case (Move uid new)
  let ?logout = "ReqUidLogout \<lparr>ulq_Uid = uid\<rparr>"
  from serve_law [OF assms, of "cl_home c uid" ?logout view T] obtain a c1 where
    s: "serve G (cl_home c uid) ?logout c = Ok (a, c1)" "cl_inv c1" "cl_home c1 = cl_home c" and
    law: "kv_reliable (env_cli (se_env G)) view \<and> cl_rel view c T \<longrightarrow>
      cl_rel view c1 (snd (cs_serve G (cl_home c uid) ?logout T))" by (auto simp: own_request_def)
  have "cl_inv (c1\<lparr>cl_home := (cl_home c1)(uid := new)\<rparr>)" using s(2) by (simp add: cl_inv_def)
  moreover have "cl_rel view (c1\<lparr>cl_home := (cl_home c1)(uid := new)\<rparr>) (snd (cs_step G ev T))"
    if "kv_reliable (env_cli (se_env G)) view" "cl_rel view c T"
  proof -
    have "cl_rel view c1 (snd (cs_serve G (cl_home c uid) ?logout T))" using law that by simp
    from assign_law [OF this, of uid new] serve_logout_gone [OF inv s(1)] s(3) that(2) Move show ?thesis
      by (simp add: cl_rel_def case_prod_beta)
  qed
  ultimately show ?thesis using s(1) Move by (auto simp: case_prod_beta)
qed

interpretation cluster: implements "cl_step G" "cs_step G" "\<lambda>c. salted G \<and> cl_inv c" "cl_rel view"
    "\<lambda>ev c. kv_reliable (env_cli (se_env G)) view \<and> cl_fair ev c" for G view
proof (unfold_locales, goal_cases)
  case (1 c ev T)
  then have "salted G" "cl_inv c" by simp_all
  from cl_step_law [OF this, of ev view T] \<open>salted G\<close> show ?case by blast
qed


section \<open>A late search\<close>

text \<open>A server that has a recorder of a user answers from it, whatever etcd holds by now.\<close>

definition pinned :: "string \<Rightarrow> string list \<Rightarrow> 'w server \<Rightarrow> bool" where
  "pinned uid H sv \<longleftrightarrow> sv_inv sv \<and>
     (\<exists>ref p. (uid, ref) \<in> rm_users (sv_manager sv) \<and> h_recs (sv_heap sv) ref = Some p \<and> records (pr_r p) = H)"

lemma pinned_answers:
  assumes "pinned uid H sv" and "q \<noteq> ''''"
  shows "\<exists>sv'. sv_step G (ReqSearch \<lparr>srq_Uid = uid, srq_SearchString = q, srq_Token = t, srq_CliAddr = addr\<rparr>) (on_store w sv) =
    Ok (SearchAns \<lparr>srr_Response = filter (matches q) H, srr_ResponseCode = 200\<rparr> None, sv')"
proof -
  let ?h = "(sv_heap sv)\<lparr>h_world := w\<rparr>"
  obtain ref p where p: "(uid, ref) \<in> rm_users (sv_manager sv)" "h_recs ?h ref = Some p" "records (pr_r p) = H"
    and inv: "rm_inv (sv_manager sv) ?h" using assms(1) by (auto simp: pinned_def sv_inv_def rm_inv_def)
  from rm_Find_cached [OF inv p(1,2), of q "se_env G"] assms(2) p(3) obtain m where
    "rm_Find (se_env G) uid q (sv_manager sv) ?h = Ok (filter (matches q) H, m, ?h)" by auto
  with assms(2) show ?thesis by (simp add: ss_Search_def)
qed

lemma search_pins:
  assumes "kv_reliable (env_cli (se_env G)) view" and inv: "sv_inv sv" and rep: "represents_on U V view sv S"
    and "U uid" and "q \<noteq> ''''"
  shows "\<exists>a sv'. sv_step G (ReqSearch \<lparr>srq_Uid = uid, srq_SearchString = q, srq_Token = t, srq_CliAddr = addr\<rparr>) sv =
    Ok (a, sv') \<and> pinned uid (sp_hist S uid) sv'"
proof -
  let ?r = "\<lparr>srq_Uid = uid, srq_SearchString = q, srq_Token = t, srq_CliAddr = addr\<rparr>"
  from ss_Search_on [OF inv, of G ?r view U V S] assms obtain a sv' where
    s: "sv_step G (ReqSearch ?r) sv = Ok (a, sv')" "sv_inv sv'" "represents_on U V view sv' S" by auto
  then have "uid \<in> fst ` rm_users (sv_manager sv')"
    using rm_Find_caches [of "sv_manager sv" "sv_heap sv" "se_env G" uid q] inv assms(5)
    by (auto simp: ss_Search_def sv_inv_def outcome_simps)
  then obtain ref where "(uid, ref) \<in> rm_users (sv_manager sv')" by auto
  with hist_onD(1) [of U V view "rm_users (sv_manager sv')" "sv_heap sv'" "sp_hist S" uid ref] s show ?thesis
    by (auto simp: pinned_def represents_on_def)
qed

text \<open>Requests to other servers leave a process alone.\<close>

lemma serve_elsewhere: "serve G ep ev c = Ok (a, c') \<Longrightarrow> ep \<noteq> ep' \<Longrightarrow> cl_procs c' ep' = cl_procs c ep'"
  by (auto simp: serve_def outcome_simps split: option.splits)

definition elsewhere :: "string \<Rightarrow> cluster_event \<Rightarrow> bool" where
  "elsewhere ep ev \<longleftrightarrow> (\<exists>ep' e. ev = Serve ep' e \<and> ep' \<noteq> ep)"

lemma run_elsewhere:
  "\<forall>ev \<in> set evs. elsewhere ep ev \<Longrightarrow> cl_run G evs c = Ok (as, c') \<Longrightarrow>
     cl_procs c' ep = cl_procs c ep \<and> cl_home c' = cl_home c"
proof (induction evs arbitrary: c as)
  case Nil
  then show ?case by simp
next
  case (Cons ev evs)
  then obtain ep' e a c1 bs where s: "ev = Serve ep' e" "ep' \<noteq> ep" "serve G ep' e c = Ok (a, c1)" "cl_run G evs c1 = Ok (bs, c')"
    by (auto simp: elsewhere_def outcome_simps)
  then have "cl_procs c1 ep = cl_procs c ep" using serve_elsewhere by blast
  moreover have "cl_home c1 = cl_home c" using s(3) by (auto simp: serve_def outcome_simps split: option.splits)
  ultimately show ?case using Cons s(4) by simp
qed

text \<open>C9: A late search hides commands. A search is answered without a login, and the proxies keep the
  endpoint of a user for half a minute. If a search of a user reaches the server that he has just been moved
  away from, this server loads his history again and keeps it: when he is moved back, it answers from that
  history, and what he did at the other server meanwhile is not found.\<close>

theorem late_search_hides_commands:
  assumes "kv_reliable (env_cli (se_env G)) view" and "salted G" and "cl_inv c" and "cl_rel view c T"
    and "cs_up T old" and "cl_home c uid = old" and "plain_name uid" and "new \<noteq> old"
    and "\<forall>ev \<in> set evs. elsewhere old ev" and "q1 \<noteq> ''''" and "q2 \<noteq> ''''"
  shows "\<exists>as c'. cl_run G (Move uid new #
      Serve old (ReqSearch \<lparr>srq_Uid = uid, srq_SearchString = q1, srq_Token = t1, srq_CliAddr = a1\<rparr>) # evs @ [Move uid old,
      Serve old (ReqSearch \<lparr>srq_Uid = uid, srq_SearchString = q2, srq_Token = t2, srq_CliAddr = a2\<rparr>)]) c = Ok (as, c') \<and>
    last as = Some (SearchAns \<lparr>srr_Response = filter (matches q2) (cs_hist T uid), srr_ResponseCode = 200\<rparr> None)"
proof -
  let ?logout = "ReqUidLogout \<lparr>ulq_Uid = uid\<rparr>" and ?H = "cs_hist T uid"
  let ?late = "ReqSearch \<lparr>srq_Uid = uid, srq_SearchString = q1, srq_Token = t1, srq_CliAddr = a1\<rparr>"
  let ?T1 = "snd (cs_serve G old ?logout T)"
  from serve_law [OF assms(2,3), of old ?logout view T] assms(1,4) obtain a c1 where
    c1: "serve G old ?logout c = Ok (a, c1)" "cl_inv c1" "cl_home c1 = cl_home c" "cl_rel view c1 ?T1"
    by (auto simp: own_request_def)
  have hist: "cs_hist ?T1 uid = ?H" by (simp add: cs_serve_def drop_sessions_def)
  have "cs_up ?T1 old" using assms(5) by simp
  then obtain sv1 where sv1: "cl_procs c1 old = Some sv1" using c1(4) by (auto simp: cl_rel_def)
  have "node_rel view (cl_home c1) (cl_store c1) old (cl_procs c1 old) ?T1" using c1(4) unfolding cl_rel_def by blast
  with sv1 have rep: "represents_on (share (cl_home c1) old) (view (cl_store c1)) view (on_store (cl_store c1) sv1) (at_node old ?T1)"
    by (simp add: node_rel_def)
  have "sv_inv (on_store (cl_store c1) sv1)" "share (cl_home c1) old uid"
    using c1(2,3) sv1 assms(6,7) by (simp_all add: cl_inv_def share_def)
  from search_pins [OF assms(1) this(1) rep this(2) assms(10), of t1 a1] obtain b sv2 where
    sv2: "sv_step G ?late (on_store (cl_store c1) sv1) = Ok (b, sv2)" "pinned uid ?H sv2" using hist by auto
  let ?c2 = "c1\<lparr>cl_home := (cl_home c1)(uid := new), cl_procs := (cl_procs c1)(old \<mapsto> sv2), cl_store := h_world (sv_heap sv2)\<rparr>"
  have "sv_inv sv2" using sv2(2) by (simp add: pinned_def)
  then have "cl_inv ?c2" using c1(2) by (simp add: cl_inv_def)
  with assms(2) obtain as c3 where c3: "cl_run G evs ?c2 = Ok (as, c3)" "cl_inv c3" using cluster.total [of G ?c2 evs] by blast
  have keep: "cl_procs c3 old = Some sv2" "cl_home c3 uid = new" using run_elsewhere [OF assms(9) c3(1)] by simp_all
  obtain d c4 where c4: "serve G new ?logout c3 = Ok (d, c4)" using serve_law [OF assms(2) c3(2), of new ?logout] by blast
  have "cl_procs c4 old = Some sv2" using serve_elsewhere [OF c4 assms(8)] keep(1) by simp
  with pinned_answers [OF sv2(2) assms(11), of G t2 a2 "cl_store c4"] obtain c5 where
    last: "serve G old (ReqSearch \<lparr>srq_Uid = uid, srq_SearchString = q2, srq_Token = t2, srq_CliAddr = a2\<rparr>)
        (c4\<lparr>cl_home := (cl_home c4)(uid := old)\<rparr>) =
      Ok (Some (SearchAns \<lparr>srr_Response = filter (matches q2) ?H, srr_ResponseCode = 200\<rparr> None), c5)"
    by (auto simp: serve_def simp del: sv_step.simps)
  have "serve G old ?late (c1\<lparr>cl_home := (cl_home c1)(uid := new)\<rparr>) = Ok (Some b, ?c2)"
    using sv1 sv2(1) by (simp add: serve_def del: sv_step.simps)
  then show ?thesis using c1(1) c3(1) c4 keep(2) assms(6) last by (simp add: run_steps_append)
qed

section \<open>Concrete runs\<close>

text \<open>Runs without ticks whose requests follow the assignment.\<close>

fun routed :: "(string \<Rightarrow> string) \<Rightarrow> cluster_event list \<Rightarrow> bool" where
  "routed home [] = True"
| "routed home (Serve ep ev # evs) = (request_of (share home ep) ev \<and> (\<forall>ref. ev \<noteq> RecTick ref) \<and> routed home evs)"
| "routed home (Move uid new # evs) = routed (home(uid := new)) evs"
| "routed home (Start ep # evs) = routed home evs"

lemma serve_home: "serve G ep ev c = Ok (a, c') \<Longrightarrow> cl_home c' = cl_home c"
  by (auto simp: serve_def outcome_simps split: option.splits)

lemma routed_fair: "routed (cl_home c) evs \<Longrightarrow> run_fair (cl_step G) cl_fair evs c"
proof (induction evs arbitrary: c)
  case Nil
  then show ?case by simp
next
  case (Cons ev evs)
  have "cl_fair ev c"
  proof (cases ev)
    case (Serve ep e)
    then show ?thesis using Cons.prems by (cases e) (auto simp: own_request_def)
  qed simp_all
  moreover have "routed (cl_home c') evs" if "cl_step G ev c = Ok (a, c')" for a c'
    using that Cons.prems by (cases ev) (auto simp: outcome_simps dest!: serve_home split: if_splits)
  ultimately show ?case using Cons.IH by (auto split: outcome.split)
qed

definition bob_login :: server_event where
  "bob_login = ReqLogin \<lparr>liq_Uid = ''bob'', liq_Password = ''pw'', liq_CliAddr = ''c1''\<rparr>"

definition bob_runs :: "string \<Rightarrow> server_event" where
  "bob_runs c = ReqUpload \<lparr>upq_Uid = ''bob'', upq_Record = c, upq_Token = bob_token, upq_CliAddr = ''c1''\<rparr>"

definition bob_looks_for :: "string \<Rightarrow> server_event" where
  "bob_looks_for q = ReqSearch \<lparr>srq_Uid = ''bob'', srq_SearchString = q, srq_Token = '''', srq_CliAddr = ''c1''\<rparr>"

text \<open>\<^verbatim>\<open>bob\<close> starts at \<^verbatim>\<open>s1\<close> and is moved to \<^verbatim>\<open>s2\<close>.\<close>

definition moving_day :: "cluster_event list" where
  "moving_day = [Start ''s1'', Start ''s2'', Serve ''s1'' bob_login, Serve ''s1'' (bob_runs ''ls''), Move ''bob'' ''s2'',
     Serve ''s2'' bob_login, Serve ''s2'' (bob_runs ''ps''), Serve ''s2'' (bob_looks_for ''s'')]"

lemma moving_day_answers:
  "run_spec (cs_step sample_env) moving_day
      \<lparr>cs_up = (\<lambda>_. False), cs_home = (\<lambda>_. ''s1''), cs_sess = (\<lambda>_ _ _. None), cs_hist = (\<lambda>_. [])\<rparr> =
     [None, None, Some (LoginAns \<lparr>lir_ResponseCode = 200, lir_Token = bob_token\<rparr> None),
      Some (UploadAns \<lparr>upr_ErrorMsg = [], upr_ResponseCode = 200\<rparr> None), None,
      Some (LoginAns \<lparr>lir_ResponseCode = 200, lir_Token = bob_token\<rparr> None),
      Some (UploadAns \<lparr>upr_ErrorMsg = [], upr_ResponseCode = 200\<rparr> None),
      Some (SearchAns \<lparr>srr_Response = [''ps'', ''ls''], srr_ResponseCode = 200\<rparr> None)]"
proof -
  have login: "service_step sample_env bob_login S =
      (LoginAns \<lparr>lir_ResponseCode = 200, lir_Token = bob_token\<rparr> None, put_session ''bob'' ''c1'' (Some bob_token) S)" for S
    unfolding bob_login_def by (rule sample_login)
  have "matches ''s'' ''ls''" "matches ''s'' ''ps''" by (simp_all add: matches_def sublist_Cons_right)
  then show ?thesis
    by (simp add: moving_day_def cs_serve_def login bob_runs_def bob_looks_for_def at_node_def put_node_def
        put_session_def drop_sessions_def logged_in_def remember_def)
qed


text \<open>\<^verbatim>\<open>bob\<close> is moved to \<^verbatim>\<open>s2\<close>, a search of his still reaches \<^verbatim>\<open>s1\<close>, and he is moved back.\<close>

theorem late_search_hides_commands_witness:
  "\<exists>c0 as c. cl_run sample_env [Start ''s1'', Start ''s2''] (empty_cluster (\<lambda>_. ''s1'') mem_empty) = Ok ([None, None], c0) \<and>
     cl_run sample_env [Move ''bob'' ''s2'', Serve ''s1'' (bob_looks_for ''l''), Serve ''s2'' bob_login,
       Serve ''s2'' (bob_runs ''ps''), Move ''bob'' ''s1'', Serve ''s1'' (bob_looks_for ''ps'')] c0 = Ok (as, c) \<and>
     last as = Some (SearchAns \<lparr>srr_Response = [], srr_ResponseCode = 200\<rparr> None)"
proof -
  let ?T = "\<lparr>cs_up = (\<lambda>_. False), cs_home = (\<lambda>_. ''s1''), cs_sess = (\<lambda>_ _ _. None), cs_hist = (\<lambda>_. [])\<rparr>"
  let ?c = "empty_cluster (\<lambda>_. ''s1'') mem_empty"
  have c: "cl_inv ?c" "cl_rel mem_view ?c ?T"
    using empty_store by (simp_all add: cl_inv_def cl_rel_def empty_cluster_def node_rel_def)
  from start_law [OF c(1), of sample_env "''s1''" mem_view ?T] c(2) obtain c1 where
    c1: "cl_step sample_env (Start ''s1'') ?c = Ok (None, c1)" "cl_inv c1" "cl_rel mem_view c1 (snd (cs_step sample_env (Start ''s1'') ?T))"
    by auto
  from start_law [OF c1(2), of sample_env "''s2''" mem_view "snd (cs_step sample_env (Start ''s1'') ?T)"] c1(3) obtain c0 where
    c0: "cl_step sample_env (Start ''s2'') c1 = Ok (None, c0)" "cl_inv c0"
      "cl_rel mem_view c0 (snd (cs_step sample_env (Start ''s2'') (snd (cs_step sample_env (Start ''s1'') ?T))))"
    by auto
  let ?T0 = "snd (cs_step sample_env (Start ''s2'') (snd (cs_step sample_env (Start ''s1'') ?T)))"
  have T0: "cs_up ?T0 ''s1''" "cs_hist ?T0 ''bob'' = []" "cs_home ?T0 = (\<lambda>_. ''s1'')" by simp_all
  then have home: "cl_home c0 ''bob'' = ''s1''" using c0(3) unfolding cl_rel_def by metis
  have "\<forall>ev \<in> set [Serve ''s2'' bob_login, Serve ''s2'' (bob_runs ''ps'')]. elsewhere ''s1'' ev" by (simp add: elsewhere_def)
  from late_search_hides_commands [OF sample_reliable sample_salted c0(2,3) T0(1) home _ _ this, of "''s2''" "''l''" "''ps''" "''''" "''c1''" "''''" "''c1''"]
  obtain as c' where "cl_run sample_env [Move ''bob'' ''s2'', Serve ''s1'' (bob_looks_for ''l''), Serve ''s2'' bob_login,
       Serve ''s2'' (bob_runs ''ps''), Move ''bob'' ''s1'', Serve ''s1'' (bob_looks_for ''ps'')] c0 = Ok (as, c')"
    "last as = Some (SearchAns \<lparr>srr_Response = [], srr_ResponseCode = 200\<rparr> None)"
    unfolding T0(2) by (auto simp: bob_looks_for_def plain_name_def simp del: run_steps.simps)
  moreover have "cl_run sample_env [Start ''s1'', Start ''s2''] ?c = Ok ([None, None], c0)"
    using c1(1) c0(1) by (simp del: cl_step.simps)
  ultimately show ?thesis by blast
qed

end
