(* ===== verification/Client.thy ===== *)
theory Client
  imports Proto "HOL-Library.Word"
begin

text \<open>
  The client library: the caches and the login dialogue of \<^verbatim>\<open>util/client/client.go\<close>, and the retry loop
  of \<^verbatim>\<open>util/util.go\<close>.  The theory shows that both caches keep what was set, that the dialogue ends
  only with credentials that the server accepted, and the bounds of the retry loop.
\<close>

section \<open>Caches of settings\<close>

record mapCache =
  mc_cache :: "string \<rightharpoonup> string"

definition mc_Get :: "string \<Rightarrow> mapCache \<Rightarrow> string" where
  "mc_Get key mc = (case mc_cache mc key of Some val \<Rightarrow> val | None \<Rightarrow> '''')"

definition mc_Set :: "string \<Rightarrow> string \<Rightarrow> mapCache \<Rightarrow> mapCache" where
  "mc_Set key val mc = mc\<lparr>mc_cache := (mc_cache mc)(key \<mapsto> val)\<rparr>"

text \<open>
  \<^verbatim>\<open>envCache\<close>, on the environment of the process: \<^verbatim>\<open>os.Setenv\<close> fails for an empty name, a name with an
  equals sign and a zero byte; the error is not looked at.
\<close>

type_synonym environ = "string \<rightharpoonup> string"

definition env_settable :: "string \<Rightarrow> string \<Rightarrow> bool" where
  "env_settable key val \<longleftrightarrow> key \<noteq> [] \<and> CHR ''='' \<notin> set key \<and> CHR 0x00 \<notin> set key \<and> CHR 0x00 \<notin> set val"

definition ec_Get :: "string \<Rightarrow> environ \<Rightarrow> string" where
  "ec_Get key env = (case env key of Some val \<Rightarrow> val | None \<Rightarrow> '''')"

definition ec_Set :: "string \<Rightarrow> string \<Rightarrow> environ \<Rightarrow> environ" where
  "ec_Set key val env = (if env_settable key val then env(key \<mapsto> val) else env)"

text \<open>The interface \<^verbatim>\<open>KVCache\<close>, and its two implementations.\<close>

locale kv_cache =
  fixes ok :: "string \<Rightarrow> string \<Rightarrow> bool"
    and get :: "string \<Rightarrow> 'c \<Rightarrow> string"
    and set_val :: "string \<Rightarrow> string \<Rightarrow> 'c \<Rightarrow> 'c"
  assumes get_set: "ok k v \<Longrightarrow> get k (set_val k v c) = v"
    and get_other: "j \<noteq> k \<Longrightarrow> get j (set_val k v c) = get j c"
begin

text \<open>Two settings, in either order.\<close>

lemma set_pair:
  "j \<noteq> k \<Longrightarrow> ok j v \<Longrightarrow> ok k w \<Longrightarrow>
     get j (set_val k w (set_val j v c)) = v \<and> get k (set_val k w (set_val j v c)) = w"
  by (simp add: get_set get_other)

end

interpretation map_cache: kv_cache "\<lambda>_ _. True" mc_Get mc_Set
  by unfold_locales (simp_all add: mc_Get_def mc_Set_def)

interpretation env_cache: kv_cache env_settable ec_Get ec_Set
  by unfold_locales (simp_all add: ec_Get_def ec_Set_def)

section \<open>The login dialogue\<close>

text \<open>
  What a client talks to: the search service behind its connection, the terminal, the random source and
  the clock.  A call may never return (\<^const>\<open>None\<close>).
\<close>

type_synonym ('q, 'r, 'w) service = "'q \<Rightarrow> 'w \<Rightarrow> (('r option \<times> error option) \<times> 'w) option"

record 'w client_env =
  ce_Search :: "(SearchRequest, SearchResponse, 'w) service"
  ce_Upload :: "(UploadRequest, UploadResponse, 'w) service"
  ce_Login :: "(LoginRequest, LoginResponse, 'w) service"
  ce_Logout :: "(LogoutRequest, LogoutResponse, 'w) service"
  ce_ReadLine :: "'w \<Rightarrow> (string \<times> 'w) option"
  ce_ReadPassword :: "'w \<Rightarrow> ((error + string) \<times> 'w) option"
  ce_Int63n :: "int \<Rightarrow> 'w \<Rightarrow> int \<times> 'w"
  ce_Sleep :: "int \<Rightarrow> 'w \<Rightarrow> 'w"

definition EnvKeyUid :: string where
  "EnvKeyUid = ''MYSH_UID''"

definition EnvKeyPs :: string where
  "EnvKeyPs = ''MYSH_PS''"

text \<open>\<open>lg_done\<close>: the function of \<^verbatim>\<open>once\<close> has run.\<close>

record loginer =
  lg_kvCache :: mapCache
  lg_done :: bool

definition NewLoginer :: loginer where
  "NewLoginer = \<lparr>lg_kvCache = \<lparr>mc_cache = Map.empty\<rparr>, lg_done = False\<rparr>"

definition lg_set :: "string \<Rightarrow> string \<Rightarrow> loginer \<Rightarrow> loginer" where
  "lg_set key val l = l\<lparr>lg_kvCache := mc_Set key val (lg_kvCache l)\<rparr>"

abbreviation lg_get :: "string \<Rightarrow> loginer \<Rightarrow> string" where
  "lg_get key l \<equiv> mc_Get key (lg_kvCache l)"

definition returns :: "'a option \<Rightarrow> 'a outcome option" where
  "returns = map_option Ok"

definition nil_deref :: string where
  "nil_deref = ''runtime error: invalid memory address or nil pointer dereference''"

text \<open>The loop that asks for a name and a password until the server accepts them.\<close>

partial_function (option) prompt_loop ::
  "'w client_env \<Rightarrow> loginer \<Rightarrow> 'w \<Rightarrow> ((string \<times> string) \<times> loginer \<times> 'w) outcome option"
where
  "prompt_loop E l w =
     lbind (returns (ce_ReadLine E w)) (\<lambda>(u, w1).
     lbind (returns (ce_ReadPassword E w1)) (\<lambda>(pw, w2).
       (case pw of
          Inl err \<Rightarrow> Some (Panic (error_msg err))
        | Inr p \<Rightarrow>
            (let l1 = lg_set EnvKeyPs p (lg_set EnvKeyUid u l) in
             lbind (returns (ce_Login E \<lparr>liq_Uid = u, liq_Password = p, liq_CliAddr = ''''\<rparr> w2))
               (\<lambda>((resp, err), w3).
                  (case err of
                     Some e \<Rightarrow> prompt_loop E l1 w3
                   | None \<Rightarrow>
                       (case resp of
                          None \<Rightarrow> Some (Panic nil_deref)
                        | Some r \<Rightarrow> Some (Ok ((u, lir_Token r), l1, w3)))))))))"

definition loginer_Login ::
  "'w client_env \<Rightarrow> loginer \<Rightarrow> 'w \<Rightarrow> ((string \<times> string) \<times> loginer \<times> 'w) outcome option"
where
  "loginer_Login E l w =
     (let l1 = (if lg_done l then l
                else (lg_set EnvKeyUid '''' (lg_set EnvKeyPs '''' l))\<lparr>lg_done := True\<rparr>)
      in if lg_get EnvKeyUid l1 = '''' \<or> lg_get EnvKeyPs l1 = '''' then prompt_loop E l1 w
         else
           lbind (returns (ce_Login E
               \<lparr>liq_Uid = lg_get EnvKeyUid l1, liq_Password = lg_get EnvKeyPs l1, liq_CliAddr = ''''\<rparr> w))
             (\<lambda>((resp, err), w1).
               (case err of
                  Some e \<Rightarrow> prompt_loop E l1 w1
                | None \<Rightarrow>
                    (case resp of
                       None \<Rightarrow> Some (Panic nil_deref)
                     | Some r \<Rightarrow> Some (Ok ((lg_get EnvKeyUid l1, lir_Token r), l1, w1))))))"

section \<open>Retrying\<close>

text \<open>
  \<^verbatim>\<open>util.Retry\<close> on an action with a state.  An error of the type \<^verbatim>\<open>stop\<close> ends the loop at once.
  Durations are 64 bit numbers of nanoseconds; \<^verbatim>\<open>rand.Int63n\<close> panics unless its argument is positive.
\<close>

datatype retry_error = Stop "error option" | Fail error

function Retry ::
  "(int \<Rightarrow> 's \<Rightarrow> int \<times> 's) \<Rightarrow> (int \<Rightarrow> 's \<Rightarrow> 's) \<Rightarrow> int \<Rightarrow> 64 word \<Rightarrow>
     ('s \<Rightarrow> (retry_error option \<times> 's) outcome option) \<Rightarrow> 's \<Rightarrow> (error option \<times> 's) outcome option"
where
  "Retry int63n pause attempts sleep f s =
     lbind (f s) (\<lambda>(err, s1).
       (case err of
          None \<Rightarrow> Some (Ok (None, s1))
        | Some (Stop e) \<Rightarrow> Some (Ok (e, s1))
        | Some (Fail e) \<Rightarrow>
            (if attempts - 1 > 0 then
               (if sint sleep \<le> 0 then Some (Panic ''invalid argument to Int63n'')
                else (case int63n (sint sleep) s1 of (jitter, s2) \<Rightarrow>
                  (let sleep1 = sleep + word_of_int (jitter div 2) in
                   Retry int63n pause (attempts - 1) (2 * sleep1) f (pause (sint sleep1) s2))))
             else Some (Ok (Some e, s1)))))"
  by pat_completeness auto
termination
  by (relation "measure (\<lambda>(_, _, attempts, _). nat attempts)") auto

declare Retry.simps [simp del]

section \<open>The dialogue ends with accepted credentials\<close>

lemma lg_set_get [simp]:
  "lg_get k (lg_set k v l) = v" "j \<noteq> k \<Longrightarrow> lg_get j (lg_set k v l) = lg_get j l"
  "lg_done (lg_set k v l) = lg_done l"
  using map_cache.get_set map_cache.get_other by (simp_all add: lg_set_def)

lemma keys_distinct [simp]: "EnvKeyUid \<noteq> EnvKeyPs" "EnvKeyPs \<noteq> EnvKeyUid"
  by (simp_all add: EnvKeyUid_def EnvKeyPs_def)

definition accepted :: "'w client_env \<Rightarrow> string \<Rightarrow> string \<Rightarrow> loginer \<Rightarrow> 'w \<Rightarrow> bool" where
  "accepted E u t l w \<longleftrightarrow>
     (\<exists>p w0 r. ce_Login E \<lparr>liq_Uid = u, liq_Password = p, liq_CliAddr = ''''\<rparr> w0 = Some ((Some r, None), w) \<and>
        lir_Token r = t \<and> lg_get EnvKeyUid l = u \<and> lg_get EnvKeyPs l = p \<and> lg_done l)"

lemma sum_case_Ok_iff:
  "(case pw of Inl err \<Rightarrow> Some (Panic (g err)) | Inr p \<Rightarrow> f p) = Some (Ok y) \<longleftrightarrow>
     (\<exists>p. pw = Inr p \<and> f p = Some (Ok y))"
  by (cases pw) simp_all

lemma prompt_loop_accepted:
  "prompt_loop E l w = Some x \<Longrightarrow> x = Ok ((u, t), l', w') \<Longrightarrow> lg_done l \<Longrightarrow> accepted E u t l' w'"
proof (induction rule: prompt_loop.raw_induct [rotated, consumes 1, case_names step])
  case (step loop E l w x)
  from step(2) [unfolded step(3)] obtain v w1 p w2 resp err w3 where
    c: "ce_Login E \<lparr>liq_Uid = v, liq_Password = p, liq_CliAddr = ''''\<rparr> w2 = Some ((resp, err), w3)"
    and body: "(case err of
        Some e \<Rightarrow> loop E (lg_set EnvKeyPs p (lg_set EnvKeyUid v l)) w3
      | None \<Rightarrow> (case resp of None \<Rightarrow> Some (Panic nil_deref)
          | Some r \<Rightarrow> Some (Ok ((v, lir_Token r), lg_set EnvKeyPs p (lg_set EnvKeyUid v l), w3)))) =
      Some (Ok ((u, t), l', w'))"
    by (auto simp: lbind_Ok_iff returns_def Let_def sum_case_Ok_iff)
  show ?case
  proof (cases err)
    case (Some e)
    with body have "loop E (lg_set EnvKeyPs p (lg_set EnvKeyUid v l)) w3 = Some (Ok ((u, t), l', w'))" by simp
    from step(1) [OF this refl] step(4) show ?thesis by simp
  next
    case None
    with body c step(4) show ?thesis by (auto simp: accepted_def split: option.splits; blast)
  qed
qed

lemma loginer_Login_accepted:
  assumes "loginer_Login E l w = Some (Ok ((u, t), l', w'))"
  shows "accepted E u t l' w'"
proof -
  define l1 where "l1 = (if lg_done l then l
      else (lg_set EnvKeyUid '''' (lg_set EnvKeyPs '''' l))\<lparr>lg_done := True\<rparr>)"
  have dn: "lg_done l1" by (simp add: l1_def)
  show ?thesis
  proof (cases "lg_get EnvKeyUid l1 = '''' \<or> lg_get EnvKeyPs l1 = ''''")
    case True
    with assms have "prompt_loop E l1 w = Some (Ok ((u, t), l', w'))"
      by (simp add: loginer_Login_def l1_def [symmetric])
    from prompt_loop_accepted [OF this refl dn] show ?thesis .
  next
    case False
    with assms obtain resp err w1 where
      c: "ce_Login E \<lparr>liq_Uid = lg_get EnvKeyUid l1, liq_Password = lg_get EnvKeyPs l1, liq_CliAddr = ''''\<rparr> w =
          Some ((resp, err), w1)"
      and body: "(case err of Some e \<Rightarrow> prompt_loop E l1 w1
        | None \<Rightarrow> (case resp of None \<Rightarrow> Some (Panic nil_deref)
            | Some r \<Rightarrow> Some (Ok ((lg_get EnvKeyUid l1, lir_Token r), l1, w1)))) = Some (Ok ((u, t), l', w'))"
      by (auto simp: loginer_Login_def l1_def [symmetric] lbind_Ok_iff returns_def)
    show ?thesis
    proof (cases err)
      case (Some e)
      with body have "prompt_loop E l1 w1 = Some (Ok ((u, t), l', w'))" by simp
      from prompt_loop_accepted [OF this refl dn] show ?thesis .
    next
      case None
      with body c dn show ?thesis by (auto simp: accepted_def split: option.splits; blast)
    qed
  qed
qed

text \<open>C22: The dialogue returns only what the server accepted, and remembers it. If \<^verbatim>\<open>Login\<close>
  returns a name and a token, its last call of the server was a login with that name that succeeded
  with that token; name and password are cached, and a later \<^verbatim>\<open>Login\<close> with a non-empty name and password
  asks the server again without asking the user.\<close>

theorem dialogue_returns_accepted:
  assumes "loginer_Login E l w = Some (Ok ((u, t), l', w'))"
  shows "\<exists>p w0 r. ce_Login E \<lparr>liq_Uid = u, liq_Password = p, liq_CliAddr = ''''\<rparr> w0 = Some ((Some r, None), w') \<and>
     t = lir_Token r \<and> lg_get EnvKeyUid l' = u \<and> lg_get EnvKeyPs l' = p \<and>
     (\<forall>v r' v'. u \<noteq> '''' \<and> p \<noteq> '''' \<and>
        ce_Login E \<lparr>liq_Uid = u, liq_Password = p, liq_CliAddr = ''''\<rparr> v = Some ((Some r', None), v') \<longrightarrow>
        loginer_Login E l' v = Some (Ok ((u, lir_Token r'), l', v')))"
proof -
  from loginer_Login_accepted [OF assms] obtain p w0 r where
    a: "ce_Login E \<lparr>liq_Uid = u, liq_Password = p, liq_CliAddr = ''''\<rparr> w0 = Some ((Some r, None), w')"
      "lir_Token r = t" "lg_get EnvKeyUid l' = u" "lg_get EnvKeyPs l' = p" "lg_done l'"
    by (auto simp: accepted_def)
  then show ?thesis by (intro exI [of _ p] exI [of _ w0] exI [of _ r]) (auto simp: loginer_Login_def returns_def)
qed

section \<open>The sleeps of the retry loop\<close>

lemma sint_small: "- (2 ^ 63) \<le> k \<Longrightarrow> k < 2 ^ 63 \<Longrightarrow> sint (word_of_int k :: 64 word) = k"
  by (simp add: signed_take_bit_int_eq_self sint_sbintrunc')

lemma Retry_step:
  assumes "0 < k" and "k < 2 ^ 61" and "f s = Some (Ok (Some (Fail e), s1))" and "1 < attempts"
    and "int63n k s1 = (j, s2)" and "0 \<le> j" and "j < k"
  shows "Retry int63n pause attempts (word_of_int k) f s =
     Retry int63n pause (attempts - 1) (word_of_int (2 * (k + j div 2))) f (pause (k + j div 2) s2)"
proof -
  have "sint (word_of_int k :: 64 word) = k" using assms(1,2) by (intro sint_small) auto
  moreover have "sint (word_of_int (k + j div 2) :: 64 word) = k + j div 2"
    using assms(1,2,6,7) by (intro sint_small) auto
  ultimately show ?thesis
    using assms by (subst Retry.simps) (simp add: Let_def)
qed

lemma Retry_end:
  assumes "f s = Some (Ok (err, s1))" and "(\<forall>e. err \<noteq> Some (Fail e)) \<or> attempts \<le> 1"
  shows "\<exists>r. Retry int63n pause attempts sleep f s = Some (Ok (r, s1))"
  using assms by (subst Retry.simps) (auto split: option.split retry_error.split)


lemma retry_growth:
  fixes k :: int
  assumes "0 < k" and "k * 3 ^ Suc n < 2 ^ 61" and "0 \<le> j" and "j < k"
  shows "k < 2 ^ 61" and "0 < 2 * (k + j div 2)" and "2 * (k + j div 2) * 3 ^ n < 2 ^ 61"
proof -
  have "1 \<le> (3::int) ^ Suc n" by (rule one_le_power) simp
  then have "k * 1 \<le> k * 3 ^ Suc n" using assms(1) by (intro mult_left_mono) auto
  with assms(2) show "k < 2 ^ 61" by simp
  have half: "0 \<le> j div 2" "2 * (j div 2) < k" using assms(3,4) by auto
  show "0 < 2 * (k + j div 2)" by (rule mult_pos_pos [OF zero_less_numeral add_pos_nonneg [OF assms(1) half(1)]])
  have "2 * (k + j div 2) * 3 ^ n \<le> (3 * k) * 3 ^ n" using half by (intro mult_right_mono) auto
  also have "\<dots> < 2 ^ 61" using assms(2) by simp
  finally show "2 * (k + j div 2) * 3 ^ n < 2 ^ 61" .
qed

text \<open>A property that the action, the random source and the clock keep holds after the loop, which returns.\<close>

lemma Retry_keeps:
  assumes act: "\<And>s. P s \<Longrightarrow> \<exists>err s'. f s = Some (Ok (err, s')) \<and> P s'"
    and rnd: "\<And>k s. P s \<Longrightarrow> 0 < k \<Longrightarrow> 0 \<le> fst (rnd k s) \<and> fst (rnd k s) < k \<and> P (snd (rnd k s))"
    and pse: "\<And>d s. P s \<Longrightarrow> P (pause d s)"
  shows "0 < k \<Longrightarrow> k * 3 ^ n < 2 ^ 61 \<Longrightarrow> P s \<Longrightarrow>
     \<exists>r s'. Retry rnd pause (int (Suc n)) (word_of_int k) f s = Some (Ok (r, s')) \<and> P s'"
proof (induction n arbitrary: k s)
  case 0
  from act [OF 0(3)] obtain err s1 where "f s = Some (Ok (err, s1))" "P s1" by blast
  with Retry_end [of f s err s1 "int (Suc 0)" rnd pause "word_of_int k"] show ?case by auto
next
  case (Suc n)
  from act [OF Suc.prems(3)] obtain err s1 where f: "f s = Some (Ok (err, s1))" "P s1" by blast
  show ?case
  proof (cases "\<exists>e. err = Some (Fail e)")
    case False
    with f Retry_end [of f s err s1 "int (Suc (Suc n))" rnd pause "word_of_int k"] show ?thesis by auto
  next
    case True
    then obtain e where e: "f s = Some (Ok (Some (Fail e), s1))" using f(1) by auto
    obtain j s2 where j: "rnd k s1 = (j, s2)" "0 \<le> j" "j < k" "P s2"
      using rnd [OF f(2) Suc.prems(1)] by (cases "rnd k s1") auto
    note g = retry_growth [OF Suc.prems(1,2) j(2,3)]
    have "Retry rnd pause (int (Suc (Suc n))) (word_of_int k) f s =
        Retry rnd pause (int (Suc n)) (word_of_int (2 * (k + j div 2))) f (pause (k + j div 2) s2)"
      using Retry_step [where f = f and s = s and int63n = rnd and attempts = "int (Suc (Suc n))" and pause = pause,
        OF Suc.prems(1) g(1) e _ j(1-3)] by simp
    with Suc.IH [OF g(2,3) pse [OF j(4)]] show ?thesis by simp
  qed
qed

text \<open>An action whose results, and a clock whose sleeps, are recorded in the state.\<close>

definition seen :: "('s \<Rightarrow> retry_error option \<times> 's) \<Rightarrow>
    's \<times> retry_error option list \<times> int list \<Rightarrow> (retry_error option \<times> 's \<times> retry_error option list \<times> int list) outcome option" where
  "seen f = (\<lambda>(s, rs, ds). Some (Ok (fst (f s), (snd (f s), rs @ [fst (f s)], ds))))"

definition drawn :: "(int \<Rightarrow> 's \<Rightarrow> int \<times> 's) \<Rightarrow> int \<Rightarrow> 's \<times> 'r \<times> int list \<Rightarrow> int \<times> 's \<times> 'r \<times> int list" where
  "drawn rnd k = (\<lambda>(s, rs, ds). (fst (rnd k s), (snd (rnd k s), rs, ds)))"

definition slept :: "int \<Rightarrow> 's \<times> 'r \<times> int list \<Rightarrow> 's \<times> 'r \<times> int list" where
  "slept d = (\<lambda>(s, rs, ds). (s, rs, ds @ [d]))"

definition retry_result :: "retry_error option \<Rightarrow> error option" where
  "retry_result r = (case r of None \<Rightarrow> None | Some (Stop e) \<Rightarrow> e | Some (Fail e) \<Rightarrow> Some e)"

definition is_fail :: "retry_error option \<Rightarrow> bool" where
  "is_fail r = (case r of Some (Fail e) \<Rightarrow> True | _ \<Rightarrow> False)"

definition fair_random :: "(int \<Rightarrow> 's \<Rightarrow> int \<times> 's) \<Rightarrow> bool" where
  "fair_random rnd \<longleftrightarrow> (\<forall>k s. 0 < k \<longrightarrow> 0 \<le> fst (rnd k s) \<and> fst (rnd k s) < k)"

text \<open>What a run of the loop with \<open>n\<close> attempts adds to the record.\<close>

definition retry_run :: "nat \<Rightarrow> int \<Rightarrow> error option \<Rightarrow> retry_error option list \<Rightarrow> int list \<Rightarrow> bool" where
  "retry_run n k r rs ds \<longleftrightarrow> length rs = length ds + 1 \<and> length rs \<le> n \<and>
     r = retry_result (last rs) \<and> (\<forall>x \<in> set (butlast rs). is_fail x) \<and> (is_fail (last rs) \<longrightarrow> length rs = n) \<and>
     (\<forall>d \<in> set ds. k \<le> d) \<and> 4 * sum_list ds \<le> 3 * k * (3 ^ (n - 1) - 1)"

lemma retry_run_last: "\<not> is_fail x \<or> n = 1 \<Longrightarrow> 0 < n \<Longrightarrow> 0 < k \<Longrightarrow> retry_run n k (retry_result x) [x] []"
  by (auto simp: retry_run_def)

lemma retry_run_more:
  assumes "retry_run (Suc n) (2 * (k + h)) r rs ds" and "is_fail x" and "0 \<le> h" and "2 * h < k"
  shows "retry_run (Suc (Suc n)) k r (x # rs) ((k + h) # ds)"
proof -
  from assms(1) have ne: "rs \<noteq> []" by (auto simp: retry_run_def)
  have "4 * sum_list ds \<le> 3 * (2 * (k + h)) * (3 ^ n - 1)" using assms(1) by (simp add: retry_run_def)
  also have "\<dots> \<le> 9 * k * (3 ^ n - 1)"
  proof -
    have "6 * (k + h) \<le> 9 * k" using assms(3,4) by (simp add: distrib_left)
    from mult_right_mono [OF this, of "3 ^ n - 1"] show ?thesis by simp
  qed
  finally have "4 * sum_list ds \<le> 9 * k * (3 ^ n - 1)" .
  moreover have "4 * (k + h) \<le> 6 * k" using assms(3,4) by (simp add: distrib_left)
  ultimately have "4 * (k + h) + 4 * sum_list ds \<le> 6 * k + 9 * k * (3 ^ n - 1)" by (rule add_mono [rotated])
  then have "4 * ((k + h) + sum_list ds) \<le> 6 * k + 9 * k * (3 ^ n - 1)" by (simp only: distrib_left)
  also have "\<dots> = 3 * k * (3 ^ Suc n - 1)" by (simp add: algebra_simps)
  finally show ?thesis using assms ne by (auto simp: retry_run_def)
qed

lemma Retry_run:
  assumes "fair_random rnd" and "0 < k" and "k * 3 ^ n < 2 ^ 61"
  shows "\<exists>r s' rs' ds'. Retry (drawn rnd) slept (int (Suc n)) (word_of_int k) (seen f) (s, rs, ds) =
      Some (Ok (r, (s', rs @ rs', ds @ ds'))) \<and> retry_run (Suc n) k r rs' ds'"
  using assms(2,3)
proof (induction n arbitrary: k s rs ds)
  case 0
  have "\<exists>e. retry_result (fst (f s)) = e \<and> Retry (drawn rnd) slept (int (Suc 0)) (word_of_int k) (seen f) (s, rs, ds) =
      Some (Ok (e, (snd (f s), rs @ [fst (f s)], ds @ [])))"
    by (subst Retry.simps) (auto simp: seen_def retry_result_def split: option.split retry_error.split)
  with retry_run_last [of "fst (f s)" 1 k] 0(1) show ?case by fastforce
next
  case (Suc n)
  show ?case
  proof (cases "is_fail (fst (f s))")
    case False
    then have "Retry (drawn rnd) slept (int (Suc (Suc n))) (word_of_int k) (seen f) (s, rs, ds) =
        Some (Ok (retry_result (fst (f s)), (snd (f s), rs @ [fst (f s)], ds @ [])))"
      by (subst Retry.simps) (auto simp: seen_def retry_result_def is_fail_def split: option.splits retry_error.splits)
    with retry_run_last [of "fst (f s)" "Suc (Suc n)" k] False Suc.prems(1) show ?thesis by fastforce
  next
    case True
    define j where "j = fst (rnd k (snd (f s)))"
    have j: "0 \<le> j" "j < k" using assms(1) Suc.prems(1) by (auto simp: fair_random_def j_def)
    have half: "0 \<le> j div 2" "2 * (j div 2) < k" using j by auto
    note g = retry_growth [OF Suc.prems j]
    obtain e where e: "fst (f s) = Some (Fail e)"
      using True by (auto simp: is_fail_def split: option.splits retry_error.splits)
    have "Retry (drawn rnd) slept (int (Suc (Suc n))) (word_of_int k) (seen f) (s, rs, ds) =
      Retry (drawn rnd) slept (int (Suc n)) (word_of_int (2 * (k + j div 2))) (seen f)
        (snd (rnd k (snd (f s))), rs @ [fst (f s)], ds @ [k + j div 2])"
      using Retry_step [of k "seen f" "(s, rs, ds)" e "(snd (f s), rs @ [fst (f s)], ds)" "int (Suc (Suc n))"
        "drawn rnd" j "(snd (rnd k (snd (f s))), rs @ [fst (f s)], ds)" slept] e j Suc.prems(1) g(1)
      by (simp add: seen_def drawn_def slept_def j_def)
    moreover obtain r s' rs' ds' where
      "Retry (drawn rnd) slept (int (Suc n)) (word_of_int (2 * (k + j div 2))) (seen f)
        (snd (rnd k (snd (f s))), rs @ [fst (f s)], ds @ [k + j div 2]) =
        Some (Ok (r, (s', (rs @ [fst (f s)]) @ rs', (ds @ [k + j div 2]) @ ds')))"
      and "retry_run (Suc n) (2 * (k + j div 2)) r rs' ds'"
      using Suc.IH [OF g(2,3), of "snd (rnd k (snd (f s)))" "rs @ [fst (f s)]" "ds @ [k + j div 2]"]
        by blast
    ultimately show ?thesis using retry_run_more [OF _ True half] by fastforce
  qed
qed

definition ClientRetryTimes :: int where
  "ClientRetryTimes = 3"

definition ClientRetryInterval :: "64 word" where
  "ClientRetryInterval = 3 * 1000000000"

text \<open>C21: The retry loop of the client is bounded. Whatever the random source draws below
  its argument, \<^verbatim>\<open>Retry\<close> with the client's settings returns after at most 3 runs of the action,
  as soon as one does not fail or fails for good, with the error of the last run; it sleeps before every
  run but the first, at least 3 seconds, less than 18 seconds in total, and the 64 bit duration does not
  overflow.\<close>

theorem client_retries_bounded:
  assumes "fair_random rnd"
  shows "\<exists>r s' rs ds. Retry (drawn rnd) slept ClientRetryTimes ClientRetryInterval (seen f) (s, [], []) =
      Some (Ok (r, (s', rs, ds))) \<and>
    r = retry_result (last rs) \<and> length rs = length ds + 1 \<and> length rs \<le> 3 \<and>
    (\<forall>x \<in> set (butlast rs). is_fail x) \<and> (is_fail (last rs) \<longrightarrow> length rs = 3) \<and>
    (\<forall>d \<in> set ds. 3000000000 \<le> d) \<and> sum_list ds \<le> 18000000000"
proof -
  have "ClientRetryInterval = word_of_int 3000000000" by (simp add: ClientRetryInterval_def)
  then show ?thesis
    using Retry_run [OF assms, of 3000000000 2 f s "[]" "[]"] by (auto simp: ClientRetryTimes_def retry_run_def) 
qed


text \<open>A user who types one name, and a server that accepts it with one password.\<close>

definition alice_env :: "unit client_env" where
  "alice_env = \<lparr>ce_Search = (\<lambda>_ _. None), ce_Upload = (\<lambda>_ _. None),
     ce_Login = (\<lambda>q w. if liq_Uid q = ''alice'' \<and> liq_Password q = ''pw''
        then Some ((Some \<lparr>lir_ResponseCode = 200, lir_Token = ''t''\<rparr>, None), w)
        else Some ((None, Some (Err ''password is error'')), w)),
     ce_Logout = (\<lambda>_ _. None), ce_ReadLine = (\<lambda>w. Some (''alice'', w)),
     ce_ReadPassword = (\<lambda>w. Some (Inr ''pw'', w)), ce_Int63n = (\<lambda>_ w. (0, w)), ce_Sleep = (\<lambda>_ w. w)\<rparr>"

lemma alice_logs_in: "\<exists>l'. loginer_Login alice_env NewLoginer () = Some (Ok ((''alice'', ''t''), l', ()))"
  by (simp add: loginer_Login_def NewLoginer_def alice_env_def prompt_loop.simps returns_def Let_def)

theorem dialogue_returns_accepted_witness:
  "\<exists>l'. loginer_Login alice_env NewLoginer () = Some (Ok ((''alice'', ''t''), l', ())) \<and>
     lg_get EnvKeyUid l' = ''alice'' \<and> lg_get EnvKeyPs l' = ''pw'' \<and>
     loginer_Login alice_env l' () = Some (Ok ((''alice'', ''t''), l', ()))"
proof -
  obtain l' where l: "loginer_Login alice_env NewLoginer () = Some (Ok ((''alice'', ''t''), l', ()))"
    using alice_logs_in by blast
  from dialogue_returns_accepted [OF l] obtain p where
    p: "lg_get EnvKeyUid l' = ''alice''" "lg_get EnvKeyPs l' = p"
    and acc: "\<exists>w0 r. ce_Login alice_env \<lparr>liq_Uid = ''alice'', liq_Password = p, liq_CliAddr = ''''\<rparr> w0 =
        Some ((Some r, None), ())"
    and again: "\<forall>v r' v'. ''alice'' \<noteq> '''' \<and> p \<noteq> '''' \<and>
        ce_Login alice_env \<lparr>liq_Uid = ''alice'', liq_Password = p, liq_CliAddr = ''''\<rparr> v = Some ((Some r', None), v') \<longrightarrow>
        loginer_Login alice_env l' v = Some (Ok ((''alice'', lir_Token r'), l', v'))"
    by blast
  from acc have pw: "p = ''pw''" by (auto simp: alice_env_def split: if_splits)
  have "loginer_Login alice_env l' () = Some (Ok ((''alice'', ''t''), l', ()))"
    using again [rule_format, of "()" "\<lparr>lir_ResponseCode = 200, lir_Token = ''t''\<rparr>" "()"] pw
    by (simp add: alice_env_def)
  with l p pw show ?thesis by blast
qed

theorem client_retries_bounded_witness:
  "\<exists>r s' rs ds. Retry (drawn (\<lambda>k s. (k - 1, s))) slept ClientRetryTimes ClientRetryInterval
      (seen (\<lambda>n. (if n < (2::nat) then Some (Fail (Err ''down'')) else None, Suc n))) (0, [], []) =
      Some (Ok (r, (s', rs, ds))) \<and> r = retry_result (last rs) \<and> length rs \<le> 3 \<and> sum_list ds \<le> 18000000000"
proof -
  have "fair_random (\<lambda>k s. (k - 1, s :: nat))" by (simp add: fair_random_def)
  from client_retries_bounded [OF this,
      of "\<lambda>n. (if n < (2::nat) then Some (Fail (Err ''down'')) else None, Suc n)" 0]
  show ?thesis by blast
qed

end
