(* ===== verification/Shell.thy ===== *)
theory Shell
  imports Client
begin

text \<open>
  The shell of a user, \<^verbatim>\<open>cmd/mysh/mysh.go\<close>, and its helper \<^verbatim>\<open>cmd/mysh-agent/mysh-agent.go\<close>: the copying
  of streams, the incremental search behind Ctrl-R, the dispatch of typed bytes to it, and the upload of
  every command.  The theory shows that the search is a picker over the hits of the server, that the
  dispatch passes other bytes through, and which commands the server gets.
\<close>

unbundle bit_operations_syntax

section \<open>Bytes and streams\<close>

definition ctrl :: "char \<Rightarrow> char" where
  "ctrl b = char_of ((of_char b :: nat) AND 0x1f)"

definition meta :: "char \<Rightarrow> char" where
  "meta b = char_of ((of_char b :: nat) OR 0x07f)"

text \<open>
  The errors that \<^verbatim>\<open>streamCopy\<close> meets.  The variable \<^verbatim>\<open>EOF\<close> of the program is not the \<^verbatim>\<open>io.EOF\<close> of the
  standard library, although both have the same text: errors are compared by identity.
\<close>

datatype io_error = io_EOF | EOF | ErrShortWrite | IoErr string

text \<open>
  \<^verbatim>\<open>streamCopy\<close>: a read gets at most the given number of bytes, and returns them with an error or
  not; it may block for ever (\<^const>\<open>None\<close>).  A write returns the number of bytes that it took and an error.
\<close>

definition copy_buf :: nat where
  "copy_buf = 32 * 1024"

partial_function (option) copy_loop ::
  "('d \<Rightarrow> string \<Rightarrow> (nat \<times> io_error option) \<times> 'd) \<Rightarrow> (nat \<Rightarrow> 's \<Rightarrow> ((string \<times> io_error option) \<times> 's) option) \<Rightarrow>
     nat \<Rightarrow> 'd \<Rightarrow> 's \<Rightarrow> ((nat \<times> io_error option) \<times> 'd \<times> 's) option"
where
  "copy_loop write read written dst src =
     Option.bind (read copy_buf src) (\<lambda>((buf, er), src1).
       (let nr = length buf;
            ((nw, ew), dst1) = (if nr > 0 then write dst buf else ((0, None), dst));
            written1 = written + nw
        in if nr > 0 \<and> ew \<noteq> None then Some ((written1, ew), dst1, src1)
           else if nr > 0 \<and> nr \<noteq> nw then Some ((written1, Some ErrShortWrite), dst1, src1)
           else if er \<noteq> None then Some ((written1, (if er \<noteq> Some EOF then er else None)), dst1, src1)
           else copy_loop write read written1 dst1 src1))"

definition streamCopy ::
  "('d \<Rightarrow> string \<Rightarrow> (nat \<times> io_error option) \<times> 'd) \<Rightarrow> (nat \<Rightarrow> 's \<Rightarrow> ((string \<times> io_error option) \<times> 's) option) \<Rightarrow>
     'd \<Rightarrow> 's \<Rightarrow> ((nat \<times> io_error option) \<times> 'd \<times> 's) option"
where
  "streamCopy write read dst src = copy_loop write read 0 dst src"

text \<open>The methods \<^verbatim>\<open>Read\<close> and \<^verbatim>\<open>Write\<close> of \<^verbatim>\<open>bytes.Buffer\<close>.\<close>

definition buffer_Read :: "nat \<Rightarrow> string \<Rightarrow> ((string \<times> io_error option) \<times> string) option" where
  "buffer_Read n b = Some (if b = [] then (([], Some io_EOF), []) else ((take n b, None), drop n b))"

definition buffer_Write :: "string \<Rightarrow> string \<Rightarrow> (nat \<times> io_error option) \<times> string" where
  "buffer_Write b p = ((length p, None), b @ p)"

section \<open>The state of the shell\<close>

text \<open>
  The variables of the package, the buffer of bytes for bash, the bytes written to the terminal, and the
  rest of the world.
\<close>

record 'w shell =
  sh_UidCache :: string
  sh_clientToken :: string
  sh_loginer :: loginer
  sh_lastCommand :: string
  sh_bashin :: string
  sh_tty :: string
  sh_world :: 'w

definition login :: "'w client_env \<Rightarrow> 'w shell \<Rightarrow> 'w shell outcome option" where
  "login E s = lbind (loginer_Login E (sh_loginer s) (sh_world s)) (\<lambda>((u, t), l, w).
     Some (Ok (s\<lparr>sh_UidCache := u, sh_clientToken := t, sh_loginer := l, sh_world := w\<rparr>)))"

definition on_world :: "('q \<Rightarrow> 'w \<Rightarrow> ('a \<times> 'w) option) \<Rightarrow> 'q \<Rightarrow> 'w shell \<Rightarrow> ('a \<times> 'w shell) outcome option" where
  "on_world f q s = (case f q (sh_world s) of None \<Rightarrow> None | Some (x, w) \<Rightarrow> Some (Ok (x, s\<lparr>sh_world := w\<rparr>)))"

definition sh_pause :: "'w client_env \<Rightarrow> int \<Rightarrow> 'w shell \<Rightarrow> 'w shell" where
  "sh_pause E d s = s\<lparr>sh_world := ce_Sleep E d (sh_world s)\<rparr>"

definition sh_Int63n :: "'w client_env \<Rightarrow> int \<Rightarrow> 'w shell \<Rightarrow> int \<times> 'w shell" where
  "sh_Int63n E n s = (case ce_Int63n E n (sh_world s) of (j, w) \<Rightarrow> (j, s\<lparr>sh_world := w\<rparr>))"

definition Millisecond :: int where
  "Millisecond = 1000000"

definition tty_Write :: "string \<Rightarrow> 'w shell \<Rightarrow> 'w shell" where
  "tty_Write bs s = s\<lparr>sh_tty := sh_tty s @ bs\<rparr>"

definition bash_Write :: "string \<Rightarrow> 'w shell \<Rightarrow> 'w shell" where
  "bash_Write bs s = s\<lparr>sh_bashin := sh_bashin s @ bs\<rparr>"

definition printCSI :: "string \<Rightarrow> 'w shell \<Rightarrow> 'w shell" where
  "printCSI c = tty_Write ([CHR 0x1B, CHR ''[''] @ c)"

definition saveCursor :: "'w shell \<Rightarrow> 'w shell" where
  "saveCursor = printCSI ''s''"

definition restoreCursor :: "'w shell \<Rightarrow> 'w shell" where
  "restoreCursor = printCSI ''u''"

definition cleanLineTail :: "'w shell \<Rightarrow> 'w shell" where
  "cleanLineTail = printCSI ''K''"

section \<open>The incremental search\<close>

text \<open>
  Typed bytes arrive from another goroutine while the search runs, so its input is the sequence of the results of
  \<^verbatim>\<open>stdinBuffer.ReadByte\<close>: a byte, or \<^const>\<open>None\<close> for the error \<^verbatim>\<open>io.EOF\<close> of an empty buffer.  At the
  end of the sequence the search has not returned yet.
\<close>

type_synonym input = "char option list"

text \<open>The local variables of \<^verbatim>\<open>doSearch\<close>.\<close>

record search =
  ds_lastView :: string
  ds_candidateCommands :: "string list"
  ds_candidateCommandsIndex :: int
  ds_searchBuffer :: string
  ds_searchIndex :: int

definition new_search :: search where
  "new_search = \<lparr>ds_lastView = '''', ds_candidateCommands = [], ds_candidateCommandsIndex = 0,
     ds_searchBuffer = '''', ds_searchIndex = 0\<rparr>"

definition cleanView :: "'w shell \<Rightarrow> 'w shell" where
  "cleanView s = cleanLineTail (restoreCursor s)"

text \<open>The part that \<^verbatim>\<open>displaySearchStatus\<close> and \<^verbatim>\<open>displayCommand\<close> share.\<close>

definition view_candidate :: "search \<Rightarrow> search" where
  "view_candidate d =
     (if ds_candidateCommandsIndex d \<ge> 0 \<and> ds_candidateCommandsIndex d < int (length (ds_candidateCommands d))
      then d\<lparr>ds_lastView := ds_candidateCommands d ! nat (ds_candidateCommandsIndex d)\<rparr> else d)"

definition displaySearchStatus :: "search \<Rightarrow> 'w shell \<Rightarrow> search \<times> 'w shell" where
  "displaySearchStatus d s =
     (let s1 = cleanView s; d1 = view_candidate d
      in (d1, tty_Write (Sprintf ''C-R mode: ( %v ) %v'' [IString (ds_searchBuffer d1), IString (ds_lastView d1)]) s1))"

definition displayCommand :: "search \<Rightarrow> 'w shell \<Rightarrow> search \<times> 'w shell" where
  "displayCommand d s =
     (let s1 = cleanView s; d1 = view_candidate d
      in (d1, bash_Write (ds_lastView d1) s1))"

text \<open>The action of the retried search; its state also holds the candidates that it assigns.\<close>

definition search_attempt ::
  "'w client_env \<Rightarrow> string \<Rightarrow> string list \<times> 'w shell \<Rightarrow>
     (retry_error option \<times> string list \<times> 'w shell) outcome option"
where
  "search_attempt E str cs = (case cs of (cands, s) \<Rightarrow>
     lbind (on_world (ce_Search E) \<lparr>srq_Uid = sh_UidCache s, srq_SearchString = str,
         srq_Token = sh_clientToken s, srq_CliAddr = ''''\<rparr> s)
       (\<lambda>((resp, err), s1).
         (case err of
            Some e \<Rightarrow> Some (Ok (Some (Fail e), (cands, s1)))
          | None \<Rightarrow>
              (case resp of
                 None \<Rightarrow> Some (Panic nil_deref)
               | Some r \<Rightarrow>
                   (if srr_ResponseCode r \<noteq> 200 then
                      (if srr_ResponseCode r = 403
                       then lbind (login E s1) (\<lambda>s2. Some (Ok (Some (Fail (Err ''auth invalid'')), (cands, s2))))
                       else Some (Ok (Some (Fail (Err ''auth invalid'')), (cands, s1))))
                    else Some (Ok (None, (srr_Response r, s1))))))))"

definition search_again ::
  "'w client_env \<Rightarrow> search \<Rightarrow> 'w shell \<Rightarrow> (search \<times> 'w shell) outcome option"
where
  "search_again E d s =
     lbind (Retry (\<lambda>n (c, s). (fst (sh_Int63n E n s), (c, snd (sh_Int63n E n s)))) (\<lambda>n (c, s). (c, sh_pause E n s))
         ClientRetryTimes ClientRetryInterval (search_attempt E (ds_searchBuffer d)) (ds_candidateCommands d, s))
       (\<lambda>(_, (cands, s1)). Some (Ok (d\<lparr>ds_candidateCommands := cands\<rparr>, s1)))"

definition select_previous :: "search \<Rightarrow> search" where
  "select_previous d =
     (let i = ds_candidateCommandsIndex d - 1
      in d\<lparr>ds_candidateCommandsIndex := (if i < 0 then int (length (ds_candidateCommands d)) - 1 else i)\<rparr>)"

definition select_next :: "search \<Rightarrow> search" where
  "select_next d =
     (let i = ds_candidateCommandsIndex d + 1
      in d\<lparr>ds_candidateCommandsIndex := (if i \<ge> int (length (ds_candidateCommands d)) then 0 else i)\<rparr>)"

text \<open>The edit of the search string by one byte.\<close>

definition edit_buffer :: "char \<Rightarrow> search \<Rightarrow> search" where
  "edit_buffer b d0 =
     (let d = d0\<lparr>ds_candidateCommandsIndex := 0\<rparr>
      in if b = CHR 0x7F then
           (let i = ds_searchIndex d - 1
            in if i < 1 then d\<lparr>ds_candidateCommands := [''''], ds_searchBuffer := '''', ds_searchIndex := 0\<rparr>
               else d\<lparr>ds_searchIndex := i, ds_searchBuffer := take (nat i) (ds_searchBuffer d)\<rparr>)
         else d\<lparr>ds_searchIndex := ds_searchIndex d + 1, ds_searchBuffer := ds_searchBuffer d @ [b]\<rparr>)"

text \<open>
  One pass of the loop with a byte \<open>b\<close>.  The result says if the function returns; the rest of the input
  is shorter by the bytes that an escape sequence takes.
\<close>

type_synonym 'w search_state = "search \<times> 'w shell"

definition search_key ::
  "'w client_env \<Rightarrow> char \<Rightarrow> input \<Rightarrow> search \<Rightarrow> 'w shell \<Rightarrow> (bool \<times> 'w search_state \<times> input) outcome option"
where
  "search_key E b inp d s =
     (if b = ctrl CHR ''c'' then Some (Ok (True, (d, cleanView s), inp))
      else if b = CHR 0x0D then Some (Ok (True, displayCommand d s, inp))
      else if b = ctrl CHR ''r'' then Some (Ok (False, displaySearchStatus (select_previous d) s, inp))
      else if b = CHR 0x1B then
        (case inp of
           [] \<Rightarrow> None
         | None # inp1 \<Rightarrow> Some (Ok (False, (d, s), inp1))
         | Some b1 # inp1 \<Rightarrow>
             (if b1 \<noteq> CHR ''['' then Some (Panic (''unknow CSI sequence'' @ itoa (of_char b1)))
              else (case inp1 of
                 [] \<Rightarrow> None
               | None # inp2 \<Rightarrow> Some (Panic ''EOF'')
               | Some c # inp2 \<Rightarrow>
                   (if c = CHR ''C'' \<or> c = CHR ''D'' then Some (Ok (True, displayCommand d s, inp2))
                    else if c = CHR ''A'' then Some (Ok (False, displaySearchStatus (select_previous d) s, inp2))
                    else if c = CHR ''B'' then Some (Ok (False, displaySearchStatus (select_next d) s, inp2))
                    else Some (Ok (False, (d, s), inp2))))))
      else
        (let d1 = edit_buffer b d
         in lbind (if ds_searchIndex d1 > 0 then search_again E d1 s else Some (Ok (d1, s)))
              (\<lambda>(d2, s2). Some (Ok (False, displaySearchStatus d2 s2, inp)))))"

lemma search_key_shortens:
  "search_key E b inp d s = Some (Ok (fin, ds', inp')) \<Longrightarrow> length inp' \<le> length inp"
  by (auto simp: search_key_def Let_def lbind_Ok_iff split: if_splits list.splits option.splits)

function search_loop ::
  "'w client_env \<Rightarrow> input \<Rightarrow> search \<Rightarrow> 'w shell \<Rightarrow> ('w search_state \<times> input) outcome option"
where
  "search_loop E [] d s = None"
| "search_loop E (None # inp) d s = search_loop E inp d (sh_pause E Millisecond s)"
| "search_loop E (Some b # inp) d s =
     lbind (search_key E b inp d (sh_pause E Millisecond s)) (\<lambda>(fin, ds1, inp1).
       if fin then Some (Ok (ds1, inp1)) else search_loop E inp1 (fst ds1) (snd ds1))"
  by pat_completeness auto
termination
  by (relation "measure (\<lambda>(_, inp, _). length inp)") (auto dest!: search_key_shortens)

text \<open>Without a connection, Ctrl-R and the rest of the line go to bash.\<close>

fun offline_loop :: "'w client_env \<Rightarrow> input \<Rightarrow> 'w shell \<Rightarrow> ('w shell \<times> input) outcome option" where
  "offline_loop E [] s = None"
| "offline_loop E (None # inp) s = offline_loop E inp (sh_pause E Millisecond s)"
| "offline_loop E (Some b # inp) s =
     (let s1 = bash_Write [b] (sh_pause E Millisecond s)
      in if b = CHR 0x0D \<or> b = CHR 0x0A then Some (Ok (s1, inp)) else offline_loop E inp s1)"

definition doSearch :: "'w client_env \<Rightarrow> input \<Rightarrow> 'w shell \<Rightarrow> ('w shell \<times> input) outcome option" where
  "doSearch E inp s =
     lbind (on_world (ce_Search E) \<lparr>srq_Uid = sh_UidCache s, srq_SearchString = '''',
         srq_Token = sh_clientToken s, srq_CliAddr = ''''\<rparr> s)
       (\<lambda>((resp, err), s1).
         (case err of
            Some e \<Rightarrow> offline_loop E inp (bash_Write [ctrl CHR ''r''] s1)
          | None \<Rightarrow>
              (case resp of
                 None \<Rightarrow> Some (Panic nil_deref)
               | Some r \<Rightarrow>
                   lbind (if srr_ResponseCode r = 403 then login E s1 else Some (Ok s1)) (\<lambda>s2.
                   (case displaySearchStatus new_search (saveCursor s2) of (d, s3) \<Rightarrow>
                      lbind (search_loop E inp d s3) (\<lambda>((_, s4), inp1). Some (Ok (s4, inp1))))))))"

section \<open>The dispatch of typed bytes\<close>

text \<open>
  \<^verbatim>\<open>checkForeGround\<close> with the run of a command line by \<^verbatim>\<open>/bin/bash -c\<close> as a parameter, and the goroutine of
  \<^verbatim>\<open>Run\<close> that reads the typed bytes, up to the end of an input.
\<close>

definition checkForeGround :: "(string \<Rightarrow> 'w \<Rightarrow> string \<times> 'w) \<Rightarrow> int \<Rightarrow> 'w shell \<Rightarrow> bool \<times> 'w shell" where
  "checkForeGround bash pid s =
     (case bash (Sprintf ''ps aux | awk '{if($2==%v)print}' | grep +'' [IInt pid]) (sh_world s) of
        (output, w) \<Rightarrow> (length output \<noteq> 0, s\<lparr>sh_world := w\<rparr>))"

lemma offline_loop_shortens: "offline_loop E inp s = Some (Ok (s', inp')) \<Longrightarrow> length inp' \<le> length inp"
  by (induction E inp s rule: offline_loop.induct) (auto simp: Let_def split: if_splits)

lemma search_loop_shortens: "search_loop E inp d s = Some (Ok (ds', inp')) \<Longrightarrow> length inp' \<le> length inp"
proof (induction E inp d s rule: search_loop.induct)
  case (3 E b inp d s)
  from 3(2) obtain fin ds1 inp1 where
    k: "search_key E b inp d (sh_pause E Millisecond s) = Some (Ok (fin, ds1, inp1))"
    and r: "(if fin then Some (Ok (ds1, inp1)) else search_loop E inp1 (fst ds1) (snd ds1)) = Some (Ok (ds', inp'))"
    by (auto simp: lbind_Ok_iff)
  show ?case
  proof (cases fin)
    case True
    with r search_key_shortens [OF k] show ?thesis by simp
  next
    case False
    with 3(1) [OF k refl refl False] r search_key_shortens [OF k] show ?thesis by simp
  qed
qed auto

lemma doSearch_shortens: "doSearch E inp s = Some (Ok (s', inp')) \<Longrightarrow> length inp' \<le> length inp"
  by (auto simp: doSearch_def lbind_Ok_iff case_prod_unfold split: option.splits if_splits
      dest: offline_loop_shortens search_loop_shortens)

function dispatch ::
  "'w client_env \<Rightarrow> (string \<Rightarrow> 'w \<Rightarrow> string \<times> 'w) \<Rightarrow> int \<Rightarrow> input \<Rightarrow> 'w shell \<Rightarrow> 'w shell outcome option"
where
  "dispatch E bash pid [] s = Some (Ok s)"
| "dispatch E bash pid (None # inp) s = dispatch E bash pid inp (sh_pause E Millisecond s)"
| "dispatch E bash pid (Some b # inp) s =
     (let s1 = sh_pause E Millisecond s;
          (fg, s2) = (if b = ctrl CHR ''r'' then checkForeGround bash pid s1 else (False, s1))
      in if fg then lbind (doSearch E inp s2) (\<lambda>(s3, inp1). dispatch E bash pid inp1 s3)
         else dispatch E bash pid inp (bash_Write [b] s2))"
  by pat_completeness auto
termination
  by (relation "measure (\<lambda>(_, _, _, inp, _). length inp)") (auto dest!: doSearch_shortens)

section \<open>The upload of commands\<close>

definition upload_attempt :: "'w client_env \<Rightarrow> string \<Rightarrow> 'w shell \<Rightarrow> (retry_error option \<times> 'w shell) outcome option" where
  "upload_attempt E body s =
     lbind (on_world (ce_Upload E) \<lparr>upq_Uid = sh_UidCache s, upq_Record = body,
         upq_Token = sh_clientToken s, upq_CliAddr = ''''\<rparr> s)
       (\<lambda>((resp, err), s1).
         (case err of
            Some e \<Rightarrow> Some (Ok (Some (Fail e), s1))
          | None \<Rightarrow>
              (case resp of
                 None \<Rightarrow> Some (Panic nil_deref)
               | Some r \<Rightarrow>
                   (if upr_ResponseCode r \<noteq> 200 then
                      (if upr_ResponseCode r = 403
                       then lbind (login E s1) (\<lambda>s2. Some (Ok (Some (Fail (Err ''auth invalid'')), s2)))
                       else Some (Ok (Some (Fail (Err ''auth invalid'')), s1)))
                    else Some (Ok (None, s1))))))"

definition uploadProxyHandler :: "'w client_env \<Rightarrow> string \<Rightarrow> 'w shell \<Rightarrow> 'w shell outcome option" where
  "uploadProxyHandler E body s =
     (if body = sh_lastCommand s then Some (Ok s)
      else
        lbind (on_world (ce_Search E) \<lparr>srq_Uid = sh_UidCache s, srq_SearchString = '''',
            srq_Token = sh_clientToken s, srq_CliAddr = ''''\<rparr> s)
          (\<lambda>((rp, err), s1).
            (case err of
               Some e \<Rightarrow> Some (Ok s1)
             | None \<Rightarrow>
                 (case rp of
                    None \<Rightarrow> Some (Panic nil_deref)
                  | Some r \<Rightarrow>
                      lbind (if srr_ResponseCode r = 403 then login E s1 else Some (Ok s1)) (\<lambda>s2.
                      lbind (Retry (sh_Int63n E) (sh_pause E) ClientRetryTimes ClientRetryInterval
                          (upload_attempt E body) s2)
                        (\<lambda>(_, s3). Some (Ok (s3\<lparr>sh_lastCommand := body\<rparr>))))))))"

text \<open>The commands of a session, in the order in which the helper posts them.\<close>

primrec upload_all :: "'w client_env \<Rightarrow> string list \<Rightarrow> 'w shell \<Rightarrow> 'w shell outcome option" where
  "upload_all E [] s = Some (Ok s)"
| "upload_all E (c # cs) s = lbind (uploadProxyHandler E c s) (upload_all E cs)"

text \<open>
  The helper joins its arguments, and posts the command to the socket of the shell whose process number it
  finds in its environment; without arguments it ends at once.
\<close>

definition agent_command :: "string list \<Rightarrow> string option" where
  "agent_command os_Args =
     (if length os_Args < 2 then None
      else Some (foldl (\<lambda>command a. command @ '' '' @ a) (os_Args ! 1) (drop 2 os_Args)))"

definition UnixSocketDir :: string where
  "UnixSocketDir = ''/tmp''"

definition agent_socket :: "string \<Rightarrow> string" where
  "agent_socket mysh_pid = ''/tmp/mysh.'' @ mysh_pid @ ''.sock''"

definition unixSock :: "int \<Rightarrow> string" where
  "unixSock pid = filepath_Join [UnixSocketDir, ''mysh.'' @ itoa pid @ ''.sock'']"

text \<open>
  The end of \<^verbatim>\<open>main\<close>: \<^verbatim>\<open>log.Fatal\<close> exits without the deferred functions; a normal return runs them from the
  last to the first, so it removes the socket (\<open>RemoveAll\<close> is \<^verbatim>\<open>os.RemoveAll\<close>) and then logs the user out.
\<close>

definition remove_socket :: "(string \<Rightarrow> 'w \<Rightarrow> error option \<times> 'w) \<Rightarrow> string \<Rightarrow> 'w shell \<Rightarrow> 'w shell" where
  "remove_socket RemoveAll sock s =
     (case RemoveAll sock (sh_world s) of
        (Some err, w) \<Rightarrow> tty_Write (error_msg err @ [CHR 0x0A]) (s\<lparr>sh_world := w\<rparr>)
      | (None, w) \<Rightarrow> s\<lparr>sh_world := w\<rparr>)"

definition shell_logout :: "'w client_env \<Rightarrow> 'w shell \<Rightarrow> 'w shell outcome option" where
  "shell_logout E s =
     lbind (on_world (ce_Logout E) \<lparr>loq_Uid = sh_UidCache s, loq_CliAddr = ''''\<rparr> s) (\<lambda>((resp, err), s1).
       (if err \<noteq> None then Some (Ok s1)
        else (case resp of
           None \<Rightarrow> Some (Panic nil_deref)
         | Some r \<Rightarrow> Some (Ok (if lor_ResponseCode r = 200
             then tty_Write (''Logout success!'' @ [CHR 0x0A]) s1 else s1)))))"

definition main_end ::
  "'w client_env \<Rightarrow> (string \<Rightarrow> 'w \<Rightarrow> error option \<times> 'w) \<Rightarrow> string \<Rightarrow> error option \<Rightarrow> 'w shell \<Rightarrow> 'w shell outcome option"
where
  "main_end E RemoveAll sock run_err s =
     (case run_err of
        Some err \<Rightarrow> Some (Fatal (error_msg err))
      | None \<Rightarrow> shell_logout E (remove_socket RemoveAll sock s))"


section \<open>The search is a picker\<close>

text \<open>
  The abstract search: a query, the hits of the server for it, the selected hit and the shown command.
  A key edits the query or moves the selection round the hits; without hits the shown command stays.
\<close>

datatype key = Type char | Backspace | Again | Up | Down | Ignored char

record picker =
  pk_query :: string
  pk_hits :: "string list"
  pk_selected :: nat
  pk_shown :: string

definition pick :: "picker \<Rightarrow> picker" where
  "pick p = (if pk_hits p = [] then p else p\<lparr>pk_shown := pk_hits p ! pk_selected p\<rparr>)"

definition turn :: "int \<Rightarrow> picker \<Rightarrow> picker" where
  "turn k p = p\<lparr>pk_selected := nat ((int (pk_selected p) + k) mod int (length (pk_hits p)))\<rparr>"

primrec picker_key :: "(string \<Rightarrow> string list) \<Rightarrow> key \<Rightarrow> picker \<Rightarrow> picker" where
  "picker_key hits (Type c) p =
     pick (p\<lparr>pk_query := pk_query p @ [c], pk_hits := hits (pk_query p @ [c]), pk_selected := 0\<rparr>)"
| "picker_key hits Backspace p =
     (let q = butlast (pk_query p)
      in pick (p\<lparr>pk_query := q, pk_hits := (if q = '''' then [''''] else hits q), pk_selected := 0\<rparr>))"
| "picker_key hits Again p = pick (turn (- 1) p)"
| "picker_key hits Up p = pick (turn (- 1) p)"
| "picker_key hits Down p = pick (turn 1 p)"
| "picker_key hits (Ignored c) p = p"

definition new_picker :: picker where
  "new_picker = \<lparr>pk_query = '''', pk_hits = [], pk_selected = 0, pk_shown = ''''\<rparr>"

text \<open>The bytes of a key, and an input of keys with pauses before them.\<close>

definition text_byte :: "char \<Rightarrow> bool" where
  "text_byte c \<longleftrightarrow> c \<noteq> ctrl CHR ''c'' \<and> c \<noteq> CHR 0x0D \<and> c \<noteq> ctrl CHR ''r'' \<and> c \<noteq> CHR 0x1B \<and> c \<noteq> CHR 0x7F"

primrec key_bytes :: "key \<Rightarrow> string" where
  "key_bytes (Type c) = [c]"
| "key_bytes Backspace = [CHR 0x7F]"
| "key_bytes Again = [ctrl CHR ''r'']"
| "key_bytes Up = [CHR 0x1B, CHR ''['', CHR ''A'']"
| "key_bytes Down = [CHR 0x1B, CHR ''['', CHR ''B'']"
| "key_bytes (Ignored c) = [CHR 0x1B, CHR ''['', c]"

primrec plain_key :: "key \<Rightarrow> bool" where
  "plain_key (Type c) = text_byte c"
| "plain_key Backspace = True"
| "plain_key Again = True"
| "plain_key Up = True"
| "plain_key Down = True"
| "plain_key (Ignored c) = (c \<notin> {CHR ''A'', CHR ''B'', CHR ''C'', CHR ''D''})"

definition keystrokes :: "(nat \<times> key) list \<Rightarrow> input" where
  "keystrokes ks = concat (map (\<lambda>(n, k). replicate n None @ map Some (key_bytes k)) ks)"

text \<open>The keys that end the search: enter, the arrows to the right and to the left, and Ctrl-C.\<close>

datatype end_key = Enter | Rightwards | Leftwards | Cancel

primrec end_bytes :: "end_key \<Rightarrow> string" where
  "end_bytes Enter = [CHR 0x0D]"
| "end_bytes Rightwards = [CHR 0x1B, CHR ''['', CHR ''C'']"
| "end_bytes Leftwards = [CHR 0x1B, CHR ''['', CHR ''D'']"
| "end_bytes Cancel = [ctrl CHR ''c'']"

definition picker_end :: "end_key \<Rightarrow> picker \<Rightarrow> string" where
  "picker_end e p = (if e = Cancel then '''' else pk_shown p)"

text \<open>
  A server that answers the searches of a user in the worlds \<open>ok\<close>, which neither its answers nor pauses
  leave.
\<close>

definition search_answers ::
  "'w client_env \<Rightarrow> string \<Rightarrow> string \<Rightarrow> (string \<Rightarrow> string list) \<Rightarrow> ('w \<Rightarrow> bool) \<Rightarrow> bool"
where
  "search_answers E u t hits ok \<longleftrightarrow> (\<forall>w. ok w \<longrightarrow> (\<forall>n. ok (ce_Sleep E n w)) \<and> (\<forall>q. \<exists>cs w'.
     ce_Search E \<lparr>srq_Uid = u, srq_SearchString = q, srq_Token = t, srq_CliAddr = ''''\<rparr> w =
       Some ((Some \<lparr>srr_Response = cs, srr_ResponseCode = 200\<rparr>, None), w') \<and>
     ok w' \<and> (q \<noteq> '''' \<longrightarrow> cs = hits q)))"

text \<open>What the two sides have in common.\<close>

definition shows_picker :: "picker \<Rightarrow> search \<Rightarrow> bool" where
  "shows_picker p d \<longleftrightarrow> ds_searchBuffer d = pk_query p \<and> ds_searchIndex d = int (length (pk_query p)) \<and>
     ds_candidateCommands d = pk_hits p \<and> ds_lastView d = pk_shown p \<and>
     (pk_hits p \<noteq> [] \<longrightarrow> ds_candidateCommandsIndex d = int (pk_selected p) \<and> pk_selected p < length (pk_hits p) \<and>
        pk_shown p = pk_hits p ! pk_selected p) \<and>
     (pk_hits p = [] \<longrightarrow> ds_candidateCommandsIndex d \<in> {-1, 0})"

definition same_user :: "'w shell \<Rightarrow> 'w shell \<Rightarrow> bool" where
  "same_user s s' \<longleftrightarrow> sh_UidCache s' = sh_UidCache s \<and> sh_clientToken s' = sh_clientToken s \<and>
     sh_loginer s' = sh_loginer s \<and> sh_lastCommand s' = sh_lastCommand s"

lemma ctrl_bytes [simp]: "ctrl CHR ''c'' = CHR 0x03" "ctrl CHR ''r'' = CHR 0x12"
  by code_simp+

lemma shell_worlds [simp]:
  "sh_world (cleanView s) = sh_world s" "sh_world (tty_Write x s) = sh_world s"
  "sh_world (bash_Write x s) = sh_world s" "sh_world (sh_pause E n s) = ce_Sleep E n (sh_world s)"
  by (simp_all add: cleanView_def cleanLineTail_def restoreCursor_def printCSI_def tty_Write_def sh_pause_def
      bash_Write_def)

lemma shell_writes [simp]:
  "sh_bashin (cleanView s) = sh_bashin s" "same_user s' (cleanView s) = same_user s' s"
  "sh_bashin (tty_Write x s) = sh_bashin s" "same_user s' (tty_Write x s) = same_user s' s"
  "sh_bashin (sh_pause E n s) = sh_bashin s" "same_user s' (sh_pause E n s) = same_user s' s"
  "sh_bashin (bash_Write x s) = sh_bashin s @ x" "same_user s' (bash_Write x s) = same_user s' s"
  by (simp_all add: cleanView_def cleanLineTail_def restoreCursor_def printCSI_def tty_Write_def sh_pause_def
      bash_Write_def same_user_def)

lemma same_user_refl [simp]: "same_user s s"
  by (simp add: same_user_def)

lemma displaySearchStatus_simps [simp]:
  "fst (displaySearchStatus d s) = view_candidate d"
  "sh_bashin (snd (displaySearchStatus d s)) = sh_bashin s"
  "same_user s' (snd (displaySearchStatus d s)) = same_user s' s"
  "sh_world (snd (displaySearchStatus d s)) = sh_world s"
  by (simp_all add: displaySearchStatus_def Let_def)

lemma displayCommand_simps [simp]:
  "sh_bashin (snd (displayCommand d s)) = sh_bashin s @ ds_lastView (view_candidate d)"
  "same_user s' (snd (displayCommand d s)) = same_user s' s"
  "sh_world (snd (displayCommand d s)) = sh_world s"
  by (simp_all add: displayCommand_def Let_def)

lemma search_answered:
  assumes "search_answers E u t hits ok" and "ok w" and "q \<noteq> ''''"
  shows "\<exists>w'. ce_Search E \<lparr>srq_Uid = u, srq_SearchString = q, srq_Token = t, srq_CliAddr = ''''\<rparr> w =
      Some ((Some \<lparr>srr_Response = hits q, srr_ResponseCode = 200\<rparr>, None), w') \<and> ok w'"
  using assms unfolding search_answers_def by metis

lemma check_answered:
  assumes "search_answers E u t hits ok" and "ok w"
  shows "\<exists>cs w'. ce_Search E \<lparr>srq_Uid = u, srq_SearchString = q, srq_Token = t, srq_CliAddr = ''''\<rparr> w =
      Some ((Some \<lparr>srr_Response = cs, srr_ResponseCode = 200\<rparr>, None), w') \<and> ok w'"
  using assms unfolding search_answers_def by metis

lemma pause_ok: "search_answers E u t hits ok \<Longrightarrow> ok (sh_world s) \<Longrightarrow> ok (ce_Sleep E n (sh_world s))"
  by (simp add: search_answers_def)

lemma search_again_answered:
  assumes "search_answers E u t hits ok" and "ok (sh_world s)" and "sh_UidCache s = u" and "sh_clientToken s = t" and "ds_searchBuffer d \<noteq> ''''"
  shows "\<exists>w. search_again E d s = Some (Ok (d\<lparr>ds_candidateCommands := hits (ds_searchBuffer d)\<rparr>, s\<lparr>sh_world := w\<rparr>)) \<and> ok w"
proof -
  obtain w where "ce_Search E \<lparr>srq_Uid = u, srq_SearchString = ds_searchBuffer d, srq_Token = t, srq_CliAddr = ''''\<rparr>
      (sh_world s) = Some ((Some \<lparr>srr_Response = hits (ds_searchBuffer d), srr_ResponseCode = 200\<rparr>, None), w)" "ok w"
    using search_answered [OF assms(1,2,5)] by blast
  then show ?thesis
    using assms(3,4) by (intro exI [of _ w]) (simp add: search_again_def search_attempt_def on_world_def Retry.simps)
qed

lemma view_shows: "shows_picker p d \<Longrightarrow> ds_lastView (view_candidate d) = pk_shown p"
  by (auto simp: shows_picker_def view_candidate_def)


lemma turn_back:
  "shows_picker p d \<Longrightarrow> shows_picker (pick (turn (- 1) p)) (view_candidate (select_previous d))"
proof (cases "pk_hits p = []")
  case False
  assume "shows_picker p d"
  moreover have "nat (int (length (pk_hits p)) - 1) < length (pk_hits p)" using False by (cases "pk_hits p") simp_all
  ultimately show ?thesis using False
    by (cases "pk_selected p")
      (auto simp: shows_picker_def pick_def turn_def view_candidate_def select_previous_def Let_def
        zmod_minus1 nat_diff_distrib of_nat_diff)
qed (auto simp: shows_picker_def pick_def turn_def view_candidate_def select_previous_def)

lemma turn_on:
  "shows_picker p d \<Longrightarrow> shows_picker (pick (turn 1 p)) (view_candidate (select_next d))"
proof (cases "pk_hits p = []")
  case False
  assume a: "shows_picker p d"
  then have "pk_selected p < length (pk_hits p)" using False by (simp add: shows_picker_def)
  then consider "int (pk_selected p) + 1 < int (length (pk_hits p))" | "int (pk_selected p) + 1 = int (length (pk_hits p))"
    by linarith
  then show ?thesis
    using a False by cases (auto simp: shows_picker_def pick_def turn_def view_candidate_def select_next_def Let_def nat_add_distrib)
qed (auto simp: shows_picker_def pick_def turn_def view_candidate_def select_next_def)

text \<open>One key.\<close>

definition follows_key ::
  "'w client_env \<Rightarrow> (string \<Rightarrow> string list) \<Rightarrow> ('w \<Rightarrow> bool) \<Rightarrow> key \<Rightarrow> input \<Rightarrow> picker \<Rightarrow> search \<Rightarrow> 'w shell \<Rightarrow> bool"
where
  "follows_key E hits ok k inp p d s \<longleftrightarrow> (\<exists>d' s'.
     search_loop E (map Some (key_bytes k) @ inp) d s = search_loop E inp d' s' \<and>
     shows_picker (picker_key hits k p) d' \<and> same_user s s' \<and> sh_bashin s' = sh_bashin s \<and> ok (sh_world s'))"

lemma follows_key_I:
  assumes "key_bytes k = b # bs" and "search_key E b (map Some bs @ inp) d (sh_pause E Millisecond s) = Some (Ok (False, ds', inp))"
    and "shows_picker (picker_key hits k p) (fst ds')" and "same_user s (snd ds')" and "sh_bashin (snd ds') = sh_bashin s"
    and "ok (sh_world (snd ds'))"
  shows "follows_key E hits ok k inp p d s"
  unfolding follows_key_def
  using assms by (intro exI [of _ "fst ds'"] exI [of _ "snd ds'"]) simp

lemma search_key_edits:
  assumes "b = CHR 0x7F \<or> text_byte b"
  shows "search_key E b inp d s =
     lbind (if ds_searchIndex (edit_buffer b d) > 0 then search_again E (edit_buffer b d) s else Some (Ok (edit_buffer b d, s)))
       (\<lambda>(d2, s2). Some (Ok (False, displaySearchStatus d2 s2, inp)))"
proof -
  from assms have "b \<noteq> CHR 0x03" "b \<noteq> CHR 0x0D" "b \<noteq> CHR 0x12" "b \<noteq> CHR 0x1B"
    by (auto simp: text_byte_def)
  then show ?thesis by (simp add: search_key_def Let_def)
qed

lemma edited_key:
  assumes "search_answers E u t hits ok" and "ok (sh_world s)" and "sh_UidCache s = u" and "sh_clientToken s = t"
    and "b = CHR 0x7F \<or> text_byte b" and "ds_searchBuffer (edit_buffer b d) \<noteq> '''' \<longleftrightarrow> ds_searchIndex (edit_buffer b d) > 0"
  shows "\<exists>s'. search_key E b inp d s = Some (Ok (False, (view_candidate
      (if ds_searchIndex (edit_buffer b d) > 0
       then (edit_buffer b d)\<lparr>ds_candidateCommands := hits (ds_searchBuffer (edit_buffer b d))\<rparr> else edit_buffer b d), s'), inp)) \<and>
    same_user s s' \<and> sh_bashin s' = sh_bashin s \<and> ok (sh_world s')"
proof (cases "ds_searchIndex (edit_buffer b d) > 0")
  case True
  with assms(6) have "ds_searchBuffer (edit_buffer b d) \<noteq> ''''" by blast
  from search_again_answered [OF assms(1-4) this] obtain w where
    "search_again E (edit_buffer b d) s = Some (Ok ((edit_buffer b d)\<lparr>ds_candidateCommands :=
        hits (ds_searchBuffer (edit_buffer b d))\<rparr>, s\<lparr>sh_world := w\<rparr>))" "ok w" by blast
  with True show ?thesis
    by (simp add: search_key_edits [OF assms(5)] displaySearchStatus_def Let_def same_user_def tty_Write_def
        cleanView_def cleanLineTail_def restoreCursor_def printCSI_def)
next
  case False
  with assms(2) show ?thesis
    by (simp add: search_key_edits [OF assms(5)] displaySearchStatus_def Let_def)
qed


lemma edit_types:
  assumes "shows_picker p d" and "text_byte c"
  shows "ds_searchBuffer (edit_buffer c d) = pk_query p @ [c]" and
    "ds_searchIndex (edit_buffer c d) = int (length (pk_query p @ [c]))" and
    "ds_candidateCommandsIndex (edit_buffer c d) = 0" and "ds_lastView (edit_buffer c d) = pk_shown p"
  using assms by (auto simp: edit_buffer_def text_byte_def shows_picker_def Let_def)

lemma edit_deletes:
  assumes "shows_picker p d"
  shows "ds_searchBuffer (edit_buffer (CHR 0x7F) d) = butlast (pk_query p)" and
    "ds_searchIndex (edit_buffer (CHR 0x7F) d) = int (length (butlast (pk_query p)))" and
    "ds_candidateCommandsIndex (edit_buffer (CHR 0x7F) d) = 0" and "ds_lastView (edit_buffer (CHR 0x7F) d) = pk_shown p" and
    "butlast (pk_query p) = '''' \<Longrightarrow> ds_candidateCommands (edit_buffer (CHR 0x7F) d) = ['''']"
  using assms by (auto simp: edit_buffer_def shows_picker_def Let_def butlast_conv_take nat_diff_distrib)

lemma shows_fresh:
  assumes "ds_searchBuffer d = pk_query p" and "ds_searchIndex d = int (length (pk_query p))"
    and "ds_candidateCommands d = pk_hits p" and "ds_lastView d = pk_shown p" and "ds_candidateCommandsIndex d = 0"
    and "pk_selected p = 0"
  shows "shows_picker (pick p) (view_candidate d)"
  using assms by (auto simp: shows_picker_def pick_def view_candidate_def)

lemma key_followed:
  assumes "search_answers E u t hits ok" and "ok (sh_world s)" and "sh_UidCache s = u" and "sh_clientToken s = t"
    and "plain_key k" and "shows_picker p d"
  shows "follows_key E hits ok k inp p d s"
proof (cases k)
  case (Type c)
  let ?d = "edit_buffer c d"
  have tb: "text_byte c" using assms(5) Type by simp
  note ed = edit_types [OF assms(6) tb]
  from edited_key [OF assms(1) _, of "sh_pause E Millisecond s" c d inp] assms(3,4) pause_ok [OF assms(1,2)] tb ed obtain s' where
    run: "search_key E c (map Some [] @ inp) d (sh_pause E Millisecond s) = Some (Ok (False, (view_candidate
      (?d\<lparr>ds_candidateCommands := hits (pk_query p @ [c])\<rparr>), s'), inp))"
    and same: "same_user (sh_pause E Millisecond s) s'" "sh_bashin s' = sh_bashin s" "ok (sh_world s')"
    by (auto simp: sh_pause_def)
  from same show ?thesis
    by (intro follows_key_I [OF _ run]) (auto simp: Type ed same_user_def sh_pause_def intro!: shows_fresh)
next
  case Backspace
  let ?d = "edit_buffer (CHR 0x7F) d"
  note ed = edit_deletes [OF assms(6)]
  have ne: "Suc 0 < length (pk_query p) \<longleftrightarrow> butlast (pk_query p) \<noteq> ''''"
    by (cases "pk_query p" rule: rev_cases) auto
  from edited_key [OF assms(1) _, of "sh_pause E Millisecond s" "CHR 0x7F" d inp] assms(3,4) pause_ok [OF assms(1,2)] ed obtain s' where
    run: "search_key E (CHR 0x7F) (map Some [] @ inp) d (sh_pause E Millisecond s) = Some (Ok (False, (view_candidate
      (if butlast (pk_query p) \<noteq> '''' then ?d\<lparr>ds_candidateCommands := hits (butlast (pk_query p))\<rparr> else ?d), s'), inp))"
    and same: "same_user (sh_pause E Millisecond s) s'" "sh_bashin s' = sh_bashin s" "ok (sh_world s')"
    by (auto simp: sh_pause_def ne)
  from same show ?thesis
    by (intro follows_key_I [OF _ run])
      (auto simp: Backspace ed same_user_def sh_pause_def Let_def intro!: shows_fresh)
next
  case Again
  have run: "search_key E (CHR 0x12) (map Some [] @ inp) d (sh_pause E Millisecond s) =
      Some (Ok (False, displaySearchStatus (select_previous d) (sh_pause E Millisecond s), inp))"
    by (simp add: search_key_def)
  from turn_back [OF assms(6)] pause_ok [OF assms(1,2)] show ?thesis
    by (intro follows_key_I [OF _ run]) (simp_all add: Again)
next
  case Up
  have run: "search_key E (CHR 0x1B) (map Some [CHR ''['', CHR ''A''] @ inp) d (sh_pause E Millisecond s) =
      Some (Ok (False, displaySearchStatus (select_previous d) (sh_pause E Millisecond s), inp))"
    by (simp add: search_key_def)
  from turn_back [OF assms(6)] pause_ok [OF assms(1,2)] show ?thesis
    by (intro follows_key_I [OF _ run]) (simp_all add: Up)
next
  case Down
  have run: "search_key E (CHR 0x1B) (map Some [CHR ''['', CHR ''B''] @ inp) d (sh_pause E Millisecond s) =
      Some (Ok (False, displaySearchStatus (select_next d) (sh_pause E Millisecond s), inp))"
    by (simp add: search_key_def)
  from turn_on [OF assms(6)] pause_ok [OF assms(1,2)] show ?thesis
    by (intro follows_key_I [OF _ run]) (simp_all add: Down)
next
  case (Ignored c)
  have run: "search_key E (CHR 0x1B) (map Some [CHR ''['', c] @ inp) d (sh_pause E Millisecond s) =
      Some (Ok (False, (d, sh_pause E Millisecond s), inp))"
    using assms(5) Ignored by (auto simp: search_key_def)
  from assms(6) pause_ok [OF assms(1,2)] show ?thesis
    by (intro follows_key_I [OF _ run]) (simp_all add: Ignored)
qed


lemma pauses_skipped:
  assumes "search_answers E u t hits ok"
  shows "ok (sh_world s) \<Longrightarrow> \<exists>s'. search_loop E (replicate n None @ inp) d s = search_loop E inp d s' \<and>
     same_user s s' \<and> sh_bashin s' = sh_bashin s \<and> ok (sh_world s')"
proof (induction n arbitrary: s)
  case 0
  then show ?case by (auto intro: exI [of _ s])
next
  case (Suc n)
  from Suc.IH [of "sh_pause E Millisecond s"] pause_ok [OF assms Suc.prems] show ?case by (auto simp: same_user_def sh_pause_def)
qed

lemma keys_followed:
  assumes "search_answers E u t hits ok"
  shows "ok (sh_world s) \<Longrightarrow> sh_UidCache s = u \<Longrightarrow> sh_clientToken s = t \<Longrightarrow> \<forall>(n, k) \<in> set ks. plain_key k \<Longrightarrow> shows_picker p d \<Longrightarrow>
     \<exists>d' s'. search_loop E (keystrokes ks @ inp) d s = search_loop E inp d' s' \<and>
       shows_picker (fold (picker_key hits) (map snd ks) p) d' \<and> same_user s s' \<and> sh_bashin s' = sh_bashin s \<and> ok (sh_world s')"
proof (induction ks arbitrary: p d s)
  case Nil
  from Nil.prems(1,5) show ?case by (intro exI [of _ d] exI [of _ s]) (simp add: keystrokes_def)
next
  case (Cons nk ks)
  obtain n k where nk: "nk = (n, k)" by (cases nk)
  obtain s1 where s1: "search_loop E (replicate n None @ map Some (key_bytes k) @ keystrokes ks @ inp) d s =
      search_loop E (map Some (key_bytes k) @ keystrokes ks @ inp) d s1" "same_user s s1" "sh_bashin s1 = sh_bashin s"
      "ok (sh_world s1)"
    using pauses_skipped [OF assms Cons.prems(1)] by blast
  have "follows_key E hits ok k (keystrokes ks @ inp) p d s1"
    using Cons.prems s1(2,4) by (intro key_followed [OF assms]) (auto simp: nk same_user_def)
  then obtain d2 s2 where s2: "search_loop E (map Some (key_bytes k) @ keystrokes ks @ inp) d s1 =
      search_loop E (keystrokes ks @ inp) d2 s2" "shows_picker (picker_key hits k p) d2" "same_user s1 s2"
      "sh_bashin s2 = sh_bashin s1" "ok (sh_world s2)"
    by (auto simp: follows_key_def)
  have "sh_UidCache s2 = u" "sh_clientToken s2 = t"
    using Cons.prems(2,3) s1(2) s2(3) by (simp_all add: same_user_def)
  from Cons.IH [OF s2(5) this _ s2(2)] Cons.prems(4) obtain d' s' where
    "search_loop E (keystrokes ks @ inp) d2 s2 = search_loop E inp d' s'"
    "shows_picker (fold (picker_key hits) (map snd ks) (picker_key hits k p)) d'" "same_user s2 s'"
    "sh_bashin s' = sh_bashin s2" "ok (sh_world s')"
    by auto
  with s1 s2 show ?case
    by (intro exI [of _ d'] exI [of _ s']) (auto simp: nk keystrokes_def same_user_def)
qed

lemma end_key_returns:
  assumes "shows_picker p d" and "search_answers E u t hits ok" and "ok (sh_world s)"
  shows "\<exists>d' s'. search_loop E (replicate n None @ map Some (end_bytes e) @ rest) d s = Some (Ok ((d', s'), rest)) \<and>
     same_user s s' \<and> sh_bashin s' = sh_bashin s @ picker_end e p \<and> ok (sh_world s')"
proof -
  obtain s1 where s1: "search_loop E (replicate n None @ map Some (end_bytes e) @ rest) d s =
      search_loop E (map Some (end_bytes e) @ rest) d s1" "same_user s s1" "sh_bashin s1 = sh_bashin s"
      "ok (sh_world s1)"
    using pauses_skipped [OF assms(2,3)] by blast
  define s2 where "s2 = sh_pause E Millisecond s1"
  define r where "r = (if e = Cancel then (d, cleanView s2) else displayCommand d s2)"
  have "search_loop E (map Some (end_bytes e) @ rest) d s1 = Some (Ok (r, rest))"
    by (cases e) (simp_all add: search_key_def r_def s2_def)
  moreover have "same_user s1 (snd r)" "sh_bashin (snd r) = sh_bashin s1 @ picker_end e p" "ok (sh_world (snd r))"
    using view_shows [OF assms(1)] pause_ok [OF assms(2) s1(4)] by (simp_all add: r_def s2_def picker_end_def)
  ultimately show ?thesis using s1 by (cases r) (auto simp: same_user_def)
qed

lemma doSearch_follows_keys:
  assumes "search_answers E (sh_UidCache s) (sh_clientToken s) hits ok" and "ok (sh_world s)" and "\<forall>(n, k) \<in> set ks. plain_key k"
  shows "\<exists>d1 s1. doSearch E (keystrokes ks @ inp) s =
       lbind (search_loop E inp d1 s1) (\<lambda>((_, s4), inp1). Some (Ok (s4, inp1))) \<and>
     shows_picker (fold (picker_key hits) (map snd ks) new_picker) d1 \<and> same_user s s1 \<and> sh_bashin s1 = sh_bashin s \<and>
     ok (sh_world s1)"
proof -
  obtain cs w where "ce_Search E \<lparr>srq_Uid = sh_UidCache s, srq_SearchString = '''', srq_Token = sh_clientToken s,
      srq_CliAddr = ''''\<rparr> (sh_world s) = Some ((Some \<lparr>srr_Response = cs, srr_ResponseCode = 200\<rparr>, None), w)" "ok w"
    using check_answered [OF assms(1,2)] by blast
  moreover define ds where "ds = displaySearchStatus new_search (saveCursor (s\<lparr>sh_world := w\<rparr>))"
  ultimately have ok_w: "ok w" and run: "doSearch E (keystrokes ks @ inp) s =
      lbind (search_loop E (keystrokes ks @ inp) (fst ds) (snd ds)) (\<lambda>((_, s4), inp1). Some (Ok (s4, inp1)))"
    by (simp_all add: doSearch_def on_world_def case_prod_unfold)
  have sh: "shows_picker new_picker (fst ds)" "same_user s (snd ds)" "sh_bashin (snd ds) = sh_bashin s"
      "ok (sh_world (snd ds))"
    using ok_w by (simp_all add: ds_def shows_picker_def new_picker_def view_candidate_def new_search_def saveCursor_def
        printCSI_def same_user_def tty_Write_def displaySearchStatus_def cleanView_def cleanLineTail_def
        restoreCursor_def)
  from keys_followed [OF assms(1) sh(4) _ _ assms(3) sh(1), of inp] sh(2) obtain d1 s1 where
    "search_loop E (keystrokes ks @ inp) (fst ds) (snd ds) = search_loop E inp d1 s1"
      "shows_picker (fold (picker_key hits) (map snd ks) new_picker) d1" "same_user (snd ds) s1"
      "sh_bashin s1 = sh_bashin (snd ds)" "ok (sh_world s1)"
    by (auto simp: same_user_def)
  with run sh show ?thesis by (auto simp: same_user_def)
qed

lemma doSearch_picks:
  assumes "search_answers E (sh_UidCache s) (sh_clientToken s) hits ok" and "ok (sh_world s)" and "\<forall>(n, k) \<in> set ks. plain_key k"
  shows "\<exists>s'. doSearch E (keystrokes ks @ replicate m None @ map Some (end_bytes e) @ rest) s = Some (Ok (s', rest)) \<and>
     sh_bashin s' = sh_bashin s @ picker_end e (fold (picker_key hits) (map snd ks) new_picker) \<and> same_user s s' \<and> ok (sh_world s')"
proof -
  define inp where "inp = replicate m None @ map Some (end_bytes e) @ rest"
  from doSearch_follows_keys [OF assms, of inp] obtain d1 s1 where
    k: "doSearch E (keystrokes ks @ inp) s =
       lbind (search_loop E inp d1 s1) (\<lambda>((_, s4), inp1). Some (Ok (s4, inp1)))"
      "shows_picker (fold (picker_key hits) (map snd ks) new_picker) d1" "same_user s s1" "sh_bashin s1 = sh_bashin s"
      "ok (sh_world s1)"
    by blast
  from end_key_returns [OF k(2) assms(1) k(5), of m e rest] obtain d2 s2 where
    "search_loop E inp d1 s1 = Some (Ok ((d2, s2), rest))" "same_user s1 s2"
    "sh_bashin s2 = sh_bashin s1 @ picker_end e (fold (picker_key hits) (map snd ks) new_picker)"
    "ok (sh_world s2)"
    by (auto simp: inp_def)
  with k show ?thesis by (auto simp: inp_def same_user_def)
qed


text \<open>C6: The incremental search is a picker over the hits of the server. While the server answers the
  searches of the user, and whatever pauses lie between the keys, Ctrl-R returns after the first key that
  ends it, leaves the rest of the input, and has written for bash exactly the command that the picker shows:
  nothing after Ctrl-C, else the selected hit of the edited query, where the keys up and down go round the
  hits, every edit selects the first one, and a query without hits keeps the command shown before.\<close>

theorem search_is_picker:
  assumes "search_answers E (sh_UidCache s) (sh_clientToken s) hits ok" and "ok (sh_world s)" and "\<forall>(n, k) \<in> set ks. plain_key k"
  shows "\<exists>s'. doSearch E (keystrokes ks @ replicate m None @ map Some (end_bytes e) @ rest) s = Some (Ok (s', rest)) \<and>
     sh_bashin s' = sh_bashin s @ picker_end e (fold (picker_key hits) (map snd ks) new_picker) \<and> same_user s s' \<and> ok (sh_world s')"
  using assms by (rule doSearch_picks)

text \<open>A text typed without corrections.\<close>

lemma typed_keys: "keystrokes (map (\<lambda>c. (0, Type c)) xs) = map Some xs"
  by (induction xs) (simp_all add: keystrokes_def)

lemma typed_picker:
  "pk_query (fold (picker_key hits) (map Type xs) new_picker) = xs \<and>
     (xs \<noteq> '''' \<longrightarrow> pk_hits (fold (picker_key hits) (map Type xs) new_picker) = hits xs \<and>
       (hits xs \<noteq> [] \<longrightarrow> pk_shown (fold (picker_key hits) (map Type xs) new_picker) = hd (hits xs)))"
  by (induction xs rule: rev_induct) (auto simp: new_picker_def pick_def hd_conv_nth)

lemma typed_text_picks:
  assumes "search_answers E (sh_UidCache s) (sh_clientToken s) hits ok" and "ok (sh_world s)" and "\<forall>c \<in> set q. text_byte c"
  shows "\<exists>s'. doSearch E (map Some q @ Some (CHR 0x0D) # rest) s = Some (Ok (s', rest)) \<and>
     sh_bashin s' = sh_bashin s @ pk_shown (fold (picker_key hits) (map Type q) new_picker) \<and> ok (sh_world s')"
proof -
  have "\<forall>(n, k) \<in> set (map (\<lambda>c. (0 :: nat, Type c)) q). plain_key k" using assms(3) by auto
  from doSearch_picks [OF assms(1,2) this, of 0 Enter rest] show ?thesis
    by (auto simp: picker_end_def typed_keys comp_def)
qed

text \<open>A query without hits types an old command. If the text typed so far has hits and one more
  byte makes it a text without hits, Enter still types the first hit of the shorter text, which the search
  string does not match any more.\<close>

theorem no_hits_types_old_command:
  assumes "search_answers E (sh_UidCache s) (sh_clientToken s) hits ok" and "ok (sh_world s)" and "\<forall>c \<in> set (q @ [c]). text_byte c"
    and "q \<noteq> ''''" and "hits q = h # hs" and "hits (q @ [c]) = []"
  shows "\<exists>s'. doSearch E (map Some (q @ [c, CHR 0x0D]) @ rest) s = Some (Ok (s', rest)) \<and>
     sh_bashin s' = sh_bashin s @ h"
proof -
  have "pk_shown (fold (picker_key hits) (map Type (q @ [c])) new_picker) = h"
    using typed_picker [of hits q] assms(4-6) by (simp add: pick_def)
  with typed_text_picks [OF assms(1-3), of rest] show ?thesis by auto
qed


text \<open>An incomplete escape sequence crashes the shell. Whatever was typed into the search before,
  the escape byte followed by another byte than an opening bracket panics, and so does an arrow key whose
  last byte has not arrived when the search asks for it; both end the process.\<close>

theorem broken_escape_crashes:
  assumes "search_answers E (sh_UidCache s) (sh_clientToken s) hits ok" and "ok (sh_world s)" and "\<forall>(n, k) \<in> set ks. plain_key k"
    and "b \<noteq> CHR ''[''"
  shows "doSearch E (keystrokes ks @ Some (CHR 0x1B) # Some b # rest) s =
      Some (Panic (''unknow CSI sequence'' @ itoa (of_char b))) \<and>
    doSearch E (keystrokes ks @ Some (CHR 0x1B) # Some (CHR ''['') # None # rest) s = Some (Panic ''EOF'')"
proof
  show "doSearch E (keystrokes ks @ Some (CHR 0x1B) # Some b # rest) s =
      Some (Panic (''unknow CSI sequence'' @ itoa (of_char b)))"
    using doSearch_follows_keys [OF assms(1-3), of "Some (CHR 0x1B) # Some b # rest"] assms(4)
    by (auto simp: search_key_def)
  show "doSearch E (keystrokes ks @ Some (CHR 0x1B) # Some (CHR ''['') # None # rest) s = Some (Panic ''EOF'')"
    using doSearch_follows_keys [OF assms(1-3), of "Some (CHR 0x1B) # Some (CHR ''['') # None # rest"]
    by (auto simp: search_key_def)
qed

section \<open>The dispatch passes bytes through\<close>

lemma checkForeGround_simps [simp]:
  "same_user s' (snd (checkForeGround bash pid s)) = same_user s' s"
  "sh_bashin (snd (checkForeGround bash pid s)) = sh_bashin s"
  "\<forall>cmd w. fst (bash cmd w) = [] \<Longrightarrow> \<not> fst (checkForeGround bash pid s)"
  by (simp_all add: checkForeGround_def same_user_def case_prod_unfold)

text \<open>Without a search the shell passes what is typed to bash. Bytes other than Ctrl-R, and
  Ctrl-R while bash is not in the foreground, reach the buffer for bash unchanged, all of them and in
  order, whatever pauses lie between them.\<close>

theorem dispatch_passes_through:
  assumes "Some (ctrl CHR ''r'') \<notin> set inp \<or> (\<forall>cmd w. fst (bash cmd w) = [])"
  shows "\<exists>s'. dispatch E bash pid inp s = Some (Ok s') \<and> same_user s s' \<and>
     sh_bashin s' = sh_bashin s @ map the (filter (\<lambda>x. x \<noteq> None) inp)"
  using assms
proof (induction inp arbitrary: s)
  case Nil
  show ?case by auto
next
  case (Cons x inp)
  then have rest: "Some (ctrl CHR ''r'') \<notin> set inp \<or> (\<forall>cmd w. fst (bash cmd w) = [])" by auto
  show ?case
  proof (cases x)
    case None
    with Cons.IH [OF rest, of "sh_pause E Millisecond s"] show ?thesis by (auto simp: same_user_def sh_pause_def)
  next
    case (Some b)
    define r where "r = (if b = ctrl CHR ''r'' then checkForeGround bash pid (sh_pause E Millisecond s)
        else (False, sh_pause E Millisecond s))"
    have "\<not> fst r" "same_user s (snd r)" "sh_bashin (snd r) = sh_bashin s"
      using Cons.prems Some by (auto simp: r_def)
    moreover have "dispatch E bash pid (Some b # inp) s =
        (if fst r then lbind (doSearch E inp (snd r)) (\<lambda>(s3, inp1). dispatch E bash pid inp1 s3)
         else dispatch E bash pid inp (bash_Write [b] (snd r)))"
      by (simp add: r_def case_prod_unfold Let_def)
    ultimately show ?thesis
      using Cons.IH [OF rest, of "bash_Write [b] (snd r)"] Some by (auto simp: same_user_def bash_Write_def)
  qed
qed


section \<open>Which commands are uploaded\<close>

text \<open>
  A server that takes the \<open>good\<close> commands of a user: \<open>taken cs w\<close> says that it has taken the commands
  \<open>cs\<close> so far in the world \<open>w\<close>.
\<close>

definition takes_uploads ::
  "'w client_env \<Rightarrow> string \<Rightarrow> string \<Rightarrow> (string \<Rightarrow> bool) \<Rightarrow> (string list \<Rightarrow> 'w \<Rightarrow> bool) \<Rightarrow> bool"
where
  "takes_uploads E u t good taken \<longleftrightarrow> (\<forall>cs w. taken cs w \<longrightarrow> (\<exists>r w'.
       ce_Search E \<lparr>srq_Uid = u, srq_SearchString = '''', srq_Token = t, srq_CliAddr = ''''\<rparr> w = Some ((Some r, None), w') \<and>
       srr_ResponseCode r \<noteq> 403 \<and> taken cs w') \<and>
     (\<forall>c. good c \<longrightarrow> (\<exists>r w'.
       ce_Upload E \<lparr>upq_Uid = u, upq_Record = c, upq_Token = t, upq_CliAddr = ''''\<rparr> w = Some ((Some r, None), w') \<and>
       upr_ResponseCode r = 200 \<and> taken (cs @ [c]) w')))"

lemma upload_new_command:
  assumes "takes_uploads E (sh_UidCache s) (sh_clientToken s) good taken" and "taken cs (sh_world s)"
    and "good c" and "c \<noteq> sh_lastCommand s"
  shows "\<exists>w. uploadProxyHandler E c s = Some (Ok (s\<lparr>sh_world := w, sh_lastCommand := c\<rparr>)) \<and> taken (cs @ [c]) w"
proof -
  obtain r w1 where r: "ce_Search E \<lparr>srq_Uid = sh_UidCache s, srq_SearchString = '''', srq_Token = sh_clientToken s,
      srq_CliAddr = ''''\<rparr> (sh_world s) = Some ((Some r, None), w1)" "srr_ResponseCode r \<noteq> 403" "taken cs w1"
    using assms(1,2) unfolding takes_uploads_def by blast
  moreover obtain ur w2 where "ce_Upload E \<lparr>upq_Uid = sh_UidCache s, upq_Record = c, upq_Token = sh_clientToken s,
      upq_CliAddr = ''''\<rparr> w1 = Some ((Some ur, None), w2)" "upr_ResponseCode ur = 200" "taken (cs @ [c]) w2"
    using assms(1,3) r(3) unfolding takes_uploads_def by blast
  ultimately show ?thesis
    using assms(4) by (intro exI [of _ w2]) (simp add: uploadProxyHandler_def upload_attempt_def on_world_def Retry.simps)
qed

lemma uploads_in_order:
  "takes_uploads E (sh_UidCache s) (sh_clientToken s) good taken \<Longrightarrow> taken old (sh_world s) \<Longrightarrow> \<forall>c \<in> set cs. good c \<Longrightarrow>
     \<exists>s'. upload_all E cs s = Some (Ok s') \<and> taken (old @ tl (remdups_adj (sh_lastCommand s # cs))) (sh_world s') \<and>
       sh_UidCache s' = sh_UidCache s \<and> sh_clientToken s' = sh_clientToken s \<and> sh_bashin s' = sh_bashin s"
proof (induction cs arbitrary: s old)
  case Nil
  then show ?case by simp
next
  case (Cons c cs)
  have good: "good c" "\<forall>c \<in> set cs. good c" using Cons.prems(3) by auto
  show ?case
  proof (cases "c = sh_lastCommand s")
    case True
    then have "uploadProxyHandler E c s = Some (Ok s)" by (simp add: uploadProxyHandler_def)
    with Cons.IH [OF Cons.prems(1,2) good(2)] True show ?thesis by simp
  next
    case False
    from upload_new_command [OF Cons.prems(1,2) good(1) this] obtain w where
      w: "uploadProxyHandler E c s = Some (Ok (s\<lparr>sh_world := w, sh_lastCommand := c\<rparr>))" "taken (old @ [c]) w" by blast
    from Cons.IH [of "s\<lparr>sh_world := w, sh_lastCommand := c\<rparr>" "old @ [c]"] Cons.prems(1) w(2) good(2) obtain s' where
      "upload_all E cs (s\<lparr>sh_world := w, sh_lastCommand := c\<rparr>) = Some (Ok s')"
      "taken (old @ c # tl (remdups_adj (c # cs))) (sh_world s')" "sh_UidCache s' = sh_UidCache s"
      "sh_clientToken s' = sh_clientToken s" "sh_bashin s' = sh_bashin s" by auto
    moreover have "remdups_adj (c # cs) = c # tl (remdups_adj (c # cs))"
      using remdups_adj_Cons_alt [of c cs] by (metis list.sel(3))
    ultimately show ?thesis using w False by auto
  qed
qed


text \<open>A server that answers searches, but to which no upload gets through.\<close>

definition refuses_uploads :: "'w client_env \<Rightarrow> ('w \<Rightarrow> string list) \<Rightarrow> bool" where
  "refuses_uploads E log \<longleftrightarrow>
     (\<forall>q w. \<exists>r w'. ce_Search E q w = Some ((Some r, None), w') \<and> srr_ResponseCode r \<noteq> 403 \<and> log w' = log w) \<and>
     (\<forall>q w. \<exists>e w'. ce_Upload E q w = Some ((None, Some e), w') \<and> log w' = log w) \<and>
     (\<forall>n w. log (ce_Sleep E n w) = log w) \<and>
     (\<forall>n w. 0 < n \<longrightarrow> 0 \<le> fst (ce_Int63n E n w) \<and> fst (ce_Int63n E n w) < n \<and> log (snd (ce_Int63n E n w)) = log w)"

text \<open>A failed upload is forgotten. If none of the three attempts gets through, the handler
  still remembers the command as uploaded: the server has not stored it, and when the user runs it again,
  with whatever connection, nothing is sent.\<close>

theorem failed_upload_is_forgotten:
  fixes E :: "'w client_env"
  assumes "refuses_uploads E log" and "c \<noteq> sh_lastCommand s"
  shows "\<exists>s'. uploadProxyHandler E c s = Some (Ok s') \<and> log (sh_world s') = log (sh_world s) \<and>
    uploadProxyHandler E' c s' = Some (Ok s')"
proof -
  obtain r w1 where r: "ce_Search E \<lparr>srq_Uid = sh_UidCache s, srq_SearchString = '''', srq_Token = sh_clientToken s,
      srq_CliAddr = ''''\<rparr> (sh_world s) = Some ((Some r, None), w1)" "srr_ResponseCode r \<noteq> 403" "log w1 = log (sh_world s)"
    using assms(1) unfolding refuses_uploads_def by blast
  define P where "P = (\<lambda>s' :: 'w shell. log (sh_world s') = log (sh_world s))"
  have act: "\<exists>err s2. upload_attempt E c s1 = Some (Ok (err, s2)) \<and> P s2" if "P s1" for s1
  proof -
    obtain e w' where "ce_Upload E \<lparr>upq_Uid = sh_UidCache s1, upq_Record = c, upq_Token = sh_clientToken s1,
        upq_CliAddr = ''''\<rparr> (sh_world s1) = Some ((None, Some e), w')" "log w' = log (sh_world s1)"
      using assms(1) unfolding refuses_uploads_def by blast
    with that show ?thesis by (auto simp: upload_attempt_def on_world_def P_def)
  qed
  have rnd: "0 \<le> fst (sh_Int63n E k s1) \<and> fst (sh_Int63n E k s1) < k \<and> P (snd (sh_Int63n E k s1))"
    if "P s1" "0 < k" for k s1
    using assms(1) that by (auto simp: refuses_uploads_def sh_Int63n_def P_def case_prod_unfold)
  have pse: "P (sh_pause E d s1)" if "P s1" for d s1
    using assms(1) that by (simp add: refuses_uploads_def sh_pause_def P_def)
  have "P (s\<lparr>sh_world := w1\<rparr>)" using r(3) by (simp add: P_def)
  from Retry_keeps [where P = P and f = "upload_attempt E c" and rnd = "sh_Int63n E" and pause = "sh_pause E"
      and k = 3000000000 and n = 2, OF act rnd pse _ _ this]
  obtain e s' where "Retry (sh_Int63n E) (sh_pause E) ClientRetryTimes ClientRetryInterval (upload_attempt E c)
      (s\<lparr>sh_world := w1\<rparr>) = Some (Ok (e, s'))" "P s'"
    by (auto simp: ClientRetryTimes_def ClientRetryInterval_def)
  then show ?thesis
    using assms(2) r by (intro exI [of _ "s'\<lparr>sh_lastCommand := c\<rparr>"]) (simp add: uploadProxyHandler_def on_world_def P_def)
qed

text \<open>The helper posts to the socket at which the shell that started it listens.\<close>

lemma agent_reaches_shell: "agent_socket (itoa pid) = unixSock pid"
proof -
  have "digit d \<noteq> CHR ''/''" if "d < 10" for d
    using that by (simp add: digit_def char_of_eq_iff take_bit_eq_mod)
  then have "CHR ''/'' \<notin> set (utoa n)" for n by (metis utoa_digits)
  then have "CHR ''/'' \<notin> set (itoa pid)" by (simp add: itoa_def)
  then have "split_on (CHR ''/'') (''/tmp/mysh.'' @ itoa pid @ ''.sock'') = [[], ''tmp'', ''mysh.'' @ itoa pid @ ''.sock'']"
    using split_on_append_sep [of "CHR ''/''" "''/tmp''" "''mysh.'' @ itoa pid @ ''.sock''"]
    by (simp add: split_on_absent)
  then show ?thesis
    by (simp add: agent_socket_def unixSock_def UnixSocketDir_def filepath_Join_def filepath_Clean_def)
qed

text \<open>A failed \<^verbatim>\<open>Run\<close> logs nobody out.\<close>

lemma main_end_Run_error: "main_end E RemoveAll sock (Some err) s = Some (Fatal (error_msg err))"
  by (simp add: main_end_def)

text \<open>A normal end asks for the logout of the user of the last login, whether or not the socket could be removed.\<close>

lemma main_end_logs_out:
  assumes "ce_Logout E \<lparr>loq_Uid = sh_UidCache s, loq_CliAddr = ''''\<rparr> (snd (RemoveAll sock (sh_world s))) =
      Some ((Some r, None), w)"
  shows "\<exists>s'. main_end E RemoveAll sock None s = Some (Ok s') \<and> sh_world s' = w \<and> sh_UidCache s' = sh_UidCache s"
proof -
  let ?s1 = "remove_socket RemoveAll sock s"
  have "sh_world ?s1 = snd (RemoveAll sock (sh_world s))" "sh_UidCache ?s1 = sh_UidCache s"
    by (auto simp: remove_socket_def tty_Write_def split: prod.split option.split)
  with assms show ?thesis by (simp add: main_end_def shell_logout_def on_world_def tty_Write_def)
qed

text \<open>Without a connection, the rest of the line goes to bash.\<close>

lemma offline_passes_line:
  "\<forall>b \<in> set line. b \<noteq> CHR 0x0D \<and> b \<noteq> CHR 0x0A \<Longrightarrow>
     \<exists>s'. offline_loop E (map Some line @ Some (CHR 0x0D) # rest) s = Some (Ok (s', rest)) \<and>
       sh_bashin s' = sh_bashin s @ line @ [CHR 0x0D]"
proof (induction line arbitrary: s)
  case Nil
  show ?case by (simp add: Let_def)
next
  case (Cons b line)
  then show ?case using Cons.IH [of "bash_Write [b] (sh_pause E Millisecond s)"] by (auto simp: Let_def)
qed

section \<open>Copying streams\<close>

text \<open>A source of given results of \<^verbatim>\<open>Read\<close>.\<close>

fun script_Read :: "nat \<Rightarrow> (string \<times> io_error option) list \<Rightarrow>
    ((string \<times> io_error option) \<times> (string \<times> io_error option) list) option" where
  "script_Read n [] = None"
| "script_Read n (r # rs) = Some (r, rs)"

lemma copy_loop_script:
  "\<forall>(c, er) \<in> set pre. er = None \<Longrightarrow>
     copy_loop buffer_Write script_Read n dst (pre @ (c, Some e) # post) =
       Some ((n + length (concat (map fst pre)) + length c, if e = EOF then None else Some e),
         dst @ concat (map fst pre) @ c, post)"
proof (induction pre arbitrary: n dst)
  case Nil
  show ?case by (subst copy_loop.simps) (auto simp: buffer_Write_def [of dst])
next
  case (Cons p pre)
  then obtain b where "p = (b, None)" by (cases p) auto
  with Cons.IH [of "n + length b" "dst @ b"] Cons.prems show ?case
    by (subst copy_loop.simps) (auto simp: buffer_Write_def [of dst])
qed

lemma streamCopy_script:
  "\<forall>(c, er) \<in> set pre. er = None \<Longrightarrow>
     streamCopy buffer_Write script_Read dst (pre @ (c, Some e) # post) =
       Some ((length (concat (map fst pre)) + length c, if e = EOF then None else Some e),
         dst @ concat (map fst pre) @ c, post)"
  by (simp add: streamCopy_def copy_loop_script)

text \<open>A writer that fails loses what was read for it.\<close>

lemma streamCopy_loses_chunk:
  "write dst c = ((nw, Some e), dst') \<Longrightarrow> c \<noteq> '''' \<Longrightarrow>
     streamCopy write script_Read dst ((c, er) # post) = Some ((nw, Some e), dst', post)"
  by (simp add: streamCopy_def copy_loop.simps)

lemma copy_loop_buffers:
  "copy_loop buffer_Write buffer_Read n dst src = Some ((n + length src, Some io_EOF), dst @ src, '''')"
proof (induction "length src" arbitrary: n dst src rule: less_induct)
  case less
  show ?case
  proof (cases "src = ''''")
    case True
    then show ?thesis by (subst copy_loop.simps) (simp add: buffer_Read_def)
  next
    case False
    then have pos: "0 < copy_buf" "0 < length src" by (simp_all add: copy_buf_def)
    then have "length (drop copy_buf src) < length src" by simp
    from less [OF this] pos False show ?thesis
      by (subst copy_loop.simps) (simp add: buffer_Read_def buffer_Write_def Let_def)
  qed
qed

text \<open>Copying a buffer moves all its bytes in order, and reports its end as an error. The count
  is the length, nothing is left, and the error is the end of file of the library, which \<^verbatim>\<open>streamCopy\<close>
  means to hide but compares with a variable of its own.\<close>

theorem streamCopy_moves_buffer:
  "streamCopy buffer_Write buffer_Read dst src = Some ((length src, Some io_EOF), dst @ src, '''')"
  by (simp add: streamCopy_def copy_loop_buffers)


section \<open>Concrete sessions\<close>

text \<open>A server with two commands, whose stored uploads are the world.\<close>

definition demo_hits :: "string \<Rightarrow> string list" where
  "demo_hits q = (if q = ''l'' then [''ls'', ''ls -l''] else [])"

definition demo_env :: "string list client_env" where
  "demo_env = \<lparr>ce_Search = (\<lambda>q w. Some ((Some \<lparr>srr_Response = (if srq_SearchString q = '''' then []
       else demo_hits (srq_SearchString q)), srr_ResponseCode = 200\<rparr>, None), w)),
     ce_Upload = (\<lambda>q w. Some ((Some \<lparr>upr_ErrorMsg = '''', upr_ResponseCode = 200\<rparr>, None), w @ [upq_Record q])),
     ce_Login = (\<lambda>_ _. None), ce_Logout = (\<lambda>_ _. None), ce_ReadLine = (\<lambda>_. None), ce_ReadPassword = (\<lambda>_. None),
     ce_Int63n = (\<lambda>_ w. (0, w)), ce_Sleep = (\<lambda>_ w. w)\<rparr>"

definition demo_shell :: "string list shell" where
  "demo_shell = \<lparr>sh_UidCache = ''alice'', sh_clientToken = ''t'', sh_loginer = NewLoginer, sh_lastCommand = '''',
     sh_bashin = '''', sh_tty = '''', sh_world = []\<rparr>"

lemma demo_searches: "search_answers demo_env u t demo_hits (\<lambda>_. True)"
  by (simp add: search_answers_def demo_env_def)

lemma demo_takes: "takes_uploads demo_env u t (\<lambda>_. True) (=)"
  by (simp add: takes_uploads_def demo_env_def)

lemma demo_refuses: "refuses_uploads (demo_env\<lparr>ce_Upload := \<lambda>_ w. Some ((None, Some (Err ''down'')), w)\<rparr>) (\<lambda>w. w)"
  by (simp add: refuses_uploads_def demo_env_def)

theorem search_is_picker_witness:
  "\<exists>s'. doSearch demo_env [None, Some (CHR ''l''), Some (CHR 0x1B), Some (CHR ''[''), Some (CHR ''B''), Some (CHR 0x0D), Some (CHR ''x'')]
      demo_shell = Some (Ok (s', [Some (CHR ''x'')])) \<and> sh_bashin s' = ''ls -l''"
  using search_is_picker [where s = demo_shell and ks = "[(1, Type (CHR ''l'')), (0, Down)]" and m = 0 and e = Enter
      and rest = "[Some (CHR ''x'')]", OF demo_searches TrueI]
  by (auto simp: keystrokes_def demo_shell_def picker_end_def text_byte_def new_picker_def pick_def turn_def demo_hits_def)

theorem no_hits_types_old_command_witness:
  "\<exists>s'. doSearch demo_env [Some (CHR ''l''), Some (CHR ''x''), Some (CHR 0x0D)] demo_shell = Some (Ok (s', [])) \<and>
     sh_bashin s' = ''ls''"
  using no_hits_types_old_command [where s = demo_shell and q = "''l''" and c = "CHR ''x''" and h = "''ls''"
      and hs = "[''ls -l'']" and rest = "[]", OF demo_searches TrueI]
  by (simp add: text_byte_def demo_hits_def demo_shell_def)

theorem broken_escape_crashes_witness:
  "doSearch demo_env [Some (CHR ''l''), Some (CHR 0x1B), Some (CHR ''b'')] demo_shell =
     Some (Panic ''unknow CSI sequence98'') \<and>
   doSearch demo_env [Some (CHR ''l''), Some (CHR 0x1B), Some (CHR ''[''), None] demo_shell = Some (Panic ''EOF'')"
proof -
  have "itoa 98 = ''98''" by code_simp
  with broken_escape_crashes [where s = demo_shell and ks = "[(0, Type (CHR ''l''))]" and b = "CHR ''b''" and rest = "[]",
      OF demo_searches TrueI]
  show ?thesis by (simp add: keystrokes_def text_byte_def)
qed

theorem dispatch_passes_through_witness:
  "\<exists>s'. dispatch demo_env (\<lambda>_ w. (''+'', w)) 42 [Some (CHR ''l''), None, Some (CHR ''s'')] demo_shell = Some (Ok s') \<and>
     sh_bashin s' = ''ls''"
  using dispatch_passes_through [where inp = "[Some (CHR ''l''), None, Some (CHR ''s'')]" and bash = "\<lambda>_ w. (''+'', w)"
      and E = demo_env and pid = 42 and s = demo_shell]
  by (simp add: demo_shell_def)


theorem failed_upload_is_forgotten_witness:
  "\<exists>s'. uploadProxyHandler (demo_env\<lparr>ce_Upload := \<lambda>_ w. Some ((None, Some (Err ''down'')), w)\<rparr>) ''ls'' demo_shell = Some (Ok s') \<and>
     sh_world s' = [] \<and> uploadProxyHandler demo_env ''ls'' s' = Some (Ok s')"
  using failed_upload_is_forgotten [where c = "''ls''" and s = demo_shell and E' = demo_env, OF demo_refuses]
  by (simp add: demo_shell_def)

end
