(* ===== verification/Session.thy ===== *)
theory Session
  imports Shell Server
begin

text \<open>
  A whole session: the shell of \<^verbatim>\<open>cmd/mysh\<close> on the services of a server process of
  \<^verbatim>\<open>server/server.go\<close>.  The proxy between them adds the address of the client to every request and hands the
  answers back (theory \<^verbatim>\<open>Proxy\<close>), and while the shell sleeps the goroutines of the server run.  The theory shows that
  what a user runs comes back with Ctrl-R.
\<close>

section \<open>The services of a server process\<close>

text \<open>A call over gRPC: an error of the handler reaches the client without a response.\<close>

definition reply :: "(('r \<times> error option) \<times> 'w) outcome \<Rightarrow> (('r option \<times> error option) \<times> 'w) option" where
  "reply out =
     (case out of
        Ok ((r, None), w) \<Rightarrow> Some ((Some r, None), w)
      | Ok ((r, Some e), w) \<Rightarrow> Some ((None, Some (Err (''rpc error: code = Unknown desc = '' @ error_msg e))), w)
      | _ \<Rightarrow> None)"

definition online ::
  "'w server_env \<Rightarrow> string \<Rightarrow> ('w server \<Rightarrow> 'w server) \<Rightarrow> 'w server client_env \<Rightarrow> 'w server client_env"
where
  "online G addr idle E = E\<lparr>
     ce_Search := \<lambda>q sv. reply (ss_Search G (q\<lparr>srq_CliAddr := addr\<rparr>) sv),
     ce_Upload := \<lambda>q sv. reply (ss_Upload G (q\<lparr>upq_CliAddr := addr\<rparr>) sv),
     ce_Login := \<lambda>q sv. reply (ss_Login G (q\<lparr>liq_CliAddr := addr\<rparr>) sv),
     ce_Logout := \<lambda>q sv. reply (Ok (ss_Logout (q\<lparr>loq_CliAddr := addr\<rparr>) sv)),
     ce_Sleep := \<lambda>_. idle\<rparr>"

text \<open>What the server does meanwhile: steps of its recorder goroutines.\<close>

fun background :: "server_event \<Rightarrow> bool" where
  "background (RecTick ref) = True"
| "background (RecExit ref) = True"
| "background _ = False"

definition runs_background :: "'w server_env \<Rightarrow> ('w server \<Rightarrow> 'w server) \<Rightarrow> bool" where
  "runs_background G idle \<longleftrightarrow> (\<forall>sv. sv_inv sv \<longrightarrow>
     (\<exists>evs as. (\<forall>ev \<in> set evs. background ev) \<and> timely_run G evs sv \<and> sv_run G evs sv = Ok (as, idle sv)))"

lemma background_keeps:
  assumes "salted G" and "kv_reliable (env_cli (se_env G)) view"
  shows "sv_inv sv \<Longrightarrow> represents view sv S \<Longrightarrow> \<forall>ev \<in> set evs. background ev \<Longrightarrow> timely_run G evs sv \<Longrightarrow>
     sv_run G evs sv = Ok (as, sv') \<Longrightarrow> sv_inv sv' \<and> represents view sv' S"
proof (induction evs arbitrary: sv as)
  case Nil
  then show ?case by simp
next
  case (Cons ev evs)
  have ev: "background ev" "timely ev sv" "\<forall>ev \<in> set evs. background ev" using Cons.prems(3,4) by auto
  then have "plain_request ev" "snd (service_step G ev S) = S" by (cases ev; simp)+
  with sv_step_law [OF assms(1) Cons.prems(1), of ev view S] Cons.prems(2) ev(2) assms(2) obtain a sv1 where
    s: "sv_step G ev sv = Ok (a, sv1)" "sv_inv sv1" "represents view sv1 S" by auto
  then have "timely_run G evs sv1" using Cons.prems(4) by simp
  with Cons.IH [OF s(2,3) ev(3)] Cons.prems(5) s(1) show ?case by (auto simp: outcome_simps)
qed

section \<open>What the server keeps of a session\<close>

text \<open>The most recent commands, in two ways.\<close>

lemma remember_again: "remember n c (remember n c H) = remember n c H"
proof -
  have "filter (\<lambda>k. k \<noteq> c) (butlast H) = butlast H" if "c \<notin> set H"
    using that by (auto simp: filter_id_conv dest: in_set_butlastD)
  then show ?thesis by (auto simp: remember_def filter_id_conv)
qed

lemma remember_repetitions: "fold (remember n) (remdups_adj cs) H = fold (remember n) cs H"
  by (induction cs arbitrary: H rule: remdups_adj.induct) (simp_all add: remember_again)

lemma remember_keeps_recent:
  assumes "length (keep_first ys) < n"
  shows "\<exists>R'. remember n c (keep_first ys @ R) = keep_first (c # ys) @ R'"
proof (cases "c \<notin> set ys \<and> c \<notin> set R \<and> length (keep_first ys @ R) = n")
  case True
  with assms have "R \<noteq> []" by auto
  with True show ?thesis
    by (intro exI [of _ "butlast R"]) (auto simp: remember_def filter_neq_absent butlast_append)
next
  case False
  then show ?thesis by (auto simp: remember_def filter_neq_absent)
qed

lemma length_keep_first: "length (keep_first xs) \<le> length xs"
  by (induction xs) (auto intro: le_trans [OF length_filter_le])

lemma fold_remember_recent: "length cs \<le> n \<Longrightarrow> \<exists>R. fold (remember n) cs H = keep_first (rev cs) @ R"
proof (induction cs rule: rev_induct)
  case Nil
  then show ?case by simp
next
  case (snoc c cs)
  then obtain R where R: "fold (remember n) cs H = keep_first (rev cs) @ R" by auto
  have "length (keep_first (rev cs)) < n" using length_keep_first [of "rev cs"] snoc.prems by simp
  from remember_keeps_recent [OF this, of c R] R show ?case by auto
qed

lemma filter_keep_first: "filter P xs = h # hs \<Longrightarrow> \<exists>hs'. filter P (keep_first xs) = h # hs'"
proof (induction xs)
  case Nil
  then show ?case by simp
next
  case (Cons x xs)
  show ?case
  proof (cases "P x")
    case True
    with Cons.prems show ?thesis by auto
  next
    case False
    with Cons obtain hs' where h: "filter P (keep_first xs) = h # hs'" by auto
    have "filter P (filter (\<lambda>y. y \<noteq> x) (keep_first xs)) = filter P (keep_first xs)"
      using False by (auto simp: filter_filter intro!: filter_cong)
    with False h show ?thesis by simp
  qed
qed

lemma latest_match:
  assumes "length cs \<le> n" and "filter P (rev cs) = h # hs"
  shows "\<exists>hs'. filter P (fold (remember n) cs H) = h # hs'"
  using fold_remember_recent [OF assms(1), of H] filter_keep_first [OF assms(2)] by auto


text \<open>The service after a user has uploaded some commands.\<close>

definition after_commands :: "service \<Rightarrow> string \<Rightarrow> string list \<Rightarrow> service" where
  "after_commands S uid cs = S\<lparr>sp_hist := (sp_hist S)(uid := fold (remember 10000) cs (sp_hist S uid))\<rparr>"

definition serving :: "('w \<Rightarrow> string \<rightharpoonup> string) \<Rightarrow> service \<Rightarrow> 'w server \<Rightarrow> bool" where
  "serving view S sv \<longleftrightarrow> sv_inv sv \<and> represents view sv S"

lemma after_commands_simps [simp]:
  "after_commands S uid [] = S"
  "logged_in (after_commands S uid cs) u addr t = logged_in S u addr t"
  "sp_hist (after_commands S uid cs) uid = fold (remember 10000) cs (sp_hist S uid)"
  by (simp_all add: after_commands_def logged_in_def)

lemma online_search:
  assumes "kv_reliable (env_cli (se_env G)) view" and "serving view S sv" and "plain_name uid" and "logged_in S uid addr t"
  shows "\<exists>sv'. ce_Search (online G addr idle E) \<lparr>srq_Uid = uid, srq_SearchString = q, srq_Token = t, srq_CliAddr = ''''\<rparr> sv =
      Some ((Some \<lparr>srr_Response = filter (matches q) (sp_hist S uid), srr_ResponseCode = 200\<rparr>, None), sv') \<and>
    serving view S sv'"
proof -
  let ?r = "\<lparr>srq_Uid = uid, srq_SearchString = q, srq_Token = t, srq_CliAddr = addr\<rparr>"
  from ss_Search_law [of sv G ?r view S] assms obtain a sv' where
    "sv_step G (ReqSearch ?r) sv = Ok (a, sv')" "a = fst (service_step G (ReqSearch ?r) S)" "serving view S sv'"
    by (auto simp: serving_def)
  with assms(4) show ?thesis by (auto simp: online_def reply_def obind_Ok_iff)
qed

lemma online_upload:
  assumes "kv_reliable (env_cli (se_env G)) view" and "serving view (after_commands S uid cs) sv" and "plain_name uid"
    and "logged_in S uid addr t" and "c \<noteq> ''''" and "valid_utf8 c"
  shows "\<exists>sv'. ce_Upload (online G addr idle E) \<lparr>upq_Uid = uid, upq_Record = c, upq_Token = t, upq_CliAddr = ''''\<rparr> sv =
      Some ((Some \<lparr>upr_ErrorMsg = '''', upr_ResponseCode = 200\<rparr>, None), sv') \<and>
    serving view (after_commands S uid (cs @ [c])) sv'"
proof -
  let ?r = "\<lparr>upq_Uid = uid, upq_Record = c, upq_Token = t, upq_CliAddr = addr\<rparr>"
  let ?S = "after_commands S uid cs"
  have "snd (service_step G (ReqUpload ?r) ?S) = after_commands S uid (cs @ [c])"
    using assms(4,5) by (simp add: after_commands_def logged_in_def)
  with ss_Upload_law [of sv G ?r view ?S] assms obtain a sv' where
    "sv_step G (ReqUpload ?r) sv = Ok (a, sv')" "a = fst (service_step G (ReqUpload ?r) ?S)"
    "serving view (after_commands S uid (cs @ [c])) sv'"
    by (auto simp: serving_def)
  with assms(4,5) show ?thesis by (auto simp: online_def reply_def obind_Ok_iff)
qed

lemma idle_serves:
  assumes "kv_reliable (env_cli (se_env G)) view" and "salted G" and "runs_background G idle" and "serving view S sv"
  shows "serving view S (idle sv)"
proof -
  obtain evs as where "\<forall>ev \<in> set evs. background ev" "timely_run G evs sv" "sv_run G evs sv = Ok (as, idle sv)"
    using assms(3,4) by (auto simp: runs_background_def serving_def)
  then show ?thesis using background_keeps [OF assms(2,1), of sv S evs as] assms(4) by (simp add: serving_def)
qed

lemma online_answers:
  assumes "kv_reliable (env_cli (se_env G)) view" and "salted G" and "runs_background G idle"
    and "plain_name uid" and "logged_in S uid addr t"
  shows "search_answers (online G addr idle E) uid t (\<lambda>q. filter (matches q) (sp_hist S uid)) (serving view S)"
  unfolding search_answers_def
proof (intro allI impI conjI)
  fix sv q
  assume sv: "serving view S sv"
  then have "serving view S (idle sv)" by (rule idle_serves [OF assms(1-3)])
  then show "serving view S (ce_Sleep (online G addr idle E) n sv)" for n by (simp add: online_def)
  show "\<exists>cs w'. ce_Search (online G addr idle E) \<lparr>srq_Uid = uid, srq_SearchString = q, srq_Token = t, srq_CliAddr = ''''\<rparr> sv =
      Some ((Some \<lparr>srr_Response = cs, srr_ResponseCode = 200\<rparr>, None), w') \<and> serving view S w' \<and>
      (q \<noteq> '''' \<longrightarrow> cs = filter (matches q) (sp_hist S uid))"
    using online_search [OF assms(1) sv assms(4,5)] by blast
qed

lemma online_takes:
  assumes "kv_reliable (env_cli (se_env G)) view" and "plain_name uid" and "logged_in S uid addr t"
  shows "takes_uploads (online G addr idle E) uid t (\<lambda>c. c \<noteq> '''' \<and> valid_utf8 c) (\<lambda>cs. serving view (after_commands S uid cs))"
  unfolding takes_uploads_def
proof (intro allI impI conjI)
  fix cs sv
  assume sv: "serving view (after_commands S uid cs) sv"
  have "logged_in (after_commands S uid cs) uid addr t" using assms(3) by simp
  from online_search [OF assms(1) sv assms(2) this] show "\<exists>r w'. ce_Search (online G addr idle E)
      \<lparr>srq_Uid = uid, srq_SearchString = '''', srq_Token = t, srq_CliAddr = ''''\<rparr> sv = Some ((Some r, None), w') \<and>
      srr_ResponseCode r \<noteq> 403 \<and> serving view (after_commands S uid cs) w'" by fastforce
  fix c :: string
  assume "c \<noteq> '''' \<and> valid_utf8 c"
  with online_upload [OF assms(1) sv assms(2,3), of c] show "\<exists>r w'. ce_Upload (online G addr idle E)
      \<lparr>upq_Uid = uid, upq_Record = c, upq_Token = t, upq_CliAddr = ''''\<rparr> sv = Some ((Some r, None), w') \<and>
      upr_ResponseCode r = 200 \<and> serving view (after_commands S uid (cs @ [c])) w'" by fastforce
qed

section \<open>What a user runs comes back\<close>

text \<open>
  For every connection of the shell to a service: if it takes the uploads of a user and answers his searches in the
  worlds \<open>ok S'\<close> that represent the service \<open>S'\<close>, his commands come back.
\<close>

lemma commands_return:
  assumes "takes_uploads E (sh_UidCache s) (sh_clientToken s) (\<lambda>c. c \<noteq> '''' \<and> valid_utf8 c)
      (\<lambda>cs. ok (after_commands S (sh_UidCache s) cs))"
    and "\<And>cs. search_answers E (sh_UidCache s) (sh_clientToken s)
      (\<lambda>q. filter (matches q) (sp_hist (after_commands S (sh_UidCache s) cs) (sh_UidCache s)))
      (ok (after_commands S (sh_UidCache s) cs))"
    and "ok S (sh_world s)" and "sh_lastCommand s = ''''"
    and "\<forall>c \<in> set cs. c \<noteq> '''' \<and> valid_utf8 c" and "length cs \<le> 10000"
    and "\<forall>c \<in> set q. text_byte c" and "filter (matches q) (rev cs) = h # hs"
  shows "\<exists>s1 s2. upload_all E cs s = Some (Ok s1) \<and>
    doSearch E (map Some q @ Some (CHR 0x0D) # rest) s1 = Some (Ok (s2, rest)) \<and> sh_bashin s2 = sh_bashin s @ h"
proof -
  let ?uid = "sh_UidCache s" and ?t = "sh_clientToken s"
  let ?up = "tl (remdups_adj ('''' # cs))"
  have "?up = remdups_adj cs" using assms(5) by (cases cs) auto
  then have hist: "sp_hist (after_commands S ?uid ?up) ?uid = fold (remember 10000) cs (sp_hist S ?uid)"
    by (simp add: remember_repetitions)
  have "ok (after_commands S ?uid []) (sh_world s)" using assms(3) by simp
  from uploads_in_order [OF assms(1) this assms(5)] assms(4) obtain s1 where
    s1: "upload_all E cs s = Some (Ok s1)" "ok (after_commands S ?uid ?up) (sh_world s1)"
      "sh_UidCache s1 = ?uid" "sh_clientToken s1 = ?t" "sh_bashin s1 = sh_bashin s" by auto
  have ans: "search_answers E (sh_UidCache s1) (sh_clientToken s1)
      (\<lambda>q. filter (matches q) (fold (remember 10000) cs (sp_hist S ?uid))) (ok (after_commands S ?uid ?up))"
    using assms(2) [of ?up] by (simp only: hist s1(3,4))
  have q: "q \<noteq> ''''" using assms(8) by (auto simp: matches_def)
  obtain hs' where "filter (matches q) (fold (remember 10000) cs (sp_hist S ?uid)) = h # hs'"
    using latest_match [OF assms(6,8)] by blast
  then have "pk_shown (fold (picker_key (\<lambda>q. filter (matches q) (fold (remember 10000) cs (sp_hist S ?uid))))
      (map Type q) new_picker) = h"
    using typed_picker [of _ q] q by force
  with typed_text_picks [OF ans s1(2) assms(7), of rest] s1(1,5) show ?thesis by auto
qed


text \<open>A session of the registered user \<^verbatim>\<open>bob\<close>.\<close>

definition blank_env :: "'w client_env" where
  "blank_env = \<lparr>ce_Search = (\<lambda>_ _. None), ce_Upload = (\<lambda>_ _. None), ce_Login = (\<lambda>_ _. None),
     ce_Logout = (\<lambda>_ _. None), ce_ReadLine = (\<lambda>_. None), ce_ReadPassword = (\<lambda>_. None),
     ce_Int63n = (\<lambda>_ w. (0, w)), ce_Sleep = (\<lambda>_ w. w)\<rparr>"

definition bob_shell :: "'w \<Rightarrow> 'w shell" where
  "bob_shell w = \<lparr>sh_UidCache = ''bob'', sh_clientToken = bob_token, sh_loginer = NewLoginer, sh_lastCommand = '''',
     sh_bashin = '''', sh_tty = '''', sh_world = w\<rparr>"

lemma idle_background: "runs_background G (\<lambda>sv. sv)"
  unfolding runs_background_def by (auto intro!: exI [of _ "[]"])

text \<open>A server that \<^verbatim>\<open>bob\<close> has just logged in to.\<close>

lemma bob_online:
  "\<exists>sv S. serving mem_view S sv \<and> logged_in S ''bob'' ''c1'' bob_token"
proof -
  obtain sv where sv: "sv_boot mem_empty = Ok sv" "sv_inv sv" "sv_tokens sv = Map.empty"
    "rm_users (sv_manager sv) = {}" "sv_heap sv = rheap_empty mem_empty" using sv_boot_inv [of mem_empty] by blast
  let ?S = "\<lparr>sp_sess = (\<lambda>_ _. None), sp_hist = (\<lambda>_. [])\<rparr>"
  have "session Map.empty = (\<lambda>_ _. None)" by (intro ext) (simp add: session_def)
  then have "represents mem_view sv ?S"
    using sv hist_ok_fresh [of mem_view mem_empty "\<lambda>_. []"] empty_store by (simp add: represents_def)
  with sv_step_law [OF sample_salted sv(2), of "ReqLogin \<lparr>liq_Uid = ''bob'', liq_Password = ''pw'', liq_CliAddr = ''c1''\<rparr>" mem_view ?S]
  obtain sv1 where "sv_inv sv1" "represents mem_view sv1 (put_session ''bob'' ''c1'' (Some bob_token) ?S)"
    unfolding sample_login using sample_reliable by auto
  moreover have "logged_in (put_session ''bob'' ''c1'' (Some bob_token) ?S) ''bob'' ''c1'' bob_token"
    by (simp add: logged_in_def put_session_def)
  ultimately show ?thesis unfolding serving_def by blast
qed

lemma bob_commands:
  "\<forall>c \<in> set [''ls'', ''pwd'', ''ls'']. c \<noteq> '''' \<and> valid_utf8 c" "\<forall>c \<in> set ''w''. text_byte c"
  "filter (matches ''w'') (rev [''ls'', ''pwd'', ''ls'']) = [''pwd'']" "length [''ls'', ''pwd'', ''ls''] \<le> 10000" "plain_name ''bob''"
  by (simp_all add: matches_def sublist_Cons_right valid_utf8_ascii text_byte_def plain_name_def)

lemma bob_shell_simps [simp]:
  "sh_UidCache (bob_shell w) = ''bob''" "sh_clientToken (bob_shell w) = bob_token" "sh_lastCommand (bob_shell w) = ''''"
  "sh_bashin (bob_shell w) = ''''" "sh_world (bob_shell w) = w"
  by (simp_all add: bob_shell_def)


end
