(* ===== verification/Event_Controller.thy ===== *)
theory Event_Controller
  imports Dash "HOL-Library.Multiset"
begin

text \<open>
  How the dash follows the registry of servers: the event controller
  \<^verbatim>\<open>vendor/github.com/1071496910/event-controller\<close> (by the author of mysh) and its use in
  \<^verbatim>\<open>NewDashController\<close>.  One goroutine reads etcd, one sorts the events into three channels, and one goroutine per
  channel calls a handler.  The theory shows that no event is lost or handled twice and that events of one kind
  keep their order; that the ring follows the registry if the events of every key keep theirs; and that this can
  fail, so that a server that comes back is missing in the ring.
\<close>

section \<open>Events\<close>

definition op_add :: int where "op_add = 0"
definition op_update :: int where "op_update = 1"
definition op_del :: int where "op_del = 2"

lemma op_distinct [simp]:
  "op_add \<noteq> op_update" "op_update \<noteq> op_add" "op_add \<noteq> op_del" "op_del \<noteq> op_add" "op_update \<noteq> op_del" "op_del \<noteq> op_update"
  by (simp_all add: op_add_def op_update_def op_del_def)

record EtcdSuckerEventObj =
  eo_Key :: string
  eo_Val :: string

record event =
  ev_OPType :: int
  ev_Obj :: EtcdSuckerEventObj

text \<open>
  What etcd reports of a key: \<^verbatim>\<open>Type\<close> is 0 for a put and 1 for a deletion, \<^verbatim>\<open>IsCreate\<close> says if a put made the
  key.
\<close>

record etcd_event =
  ee_Type :: int
  ee_IsCreate :: bool
  ee_Key :: string
  ee_Val :: string

definition watch_event :: "etcd_event \<Rightarrow> event" where
  "watch_event e =
     \<lparr>ev_OPType = (if ee_Type e = 1 then op_del else if ee_IsCreate e then op_add else op_update),
      ev_Obj = \<lparr>eo_Key = ee_Key e, eo_Val = ee_Val e\<rparr>\<rparr>"

text \<open>
  The events that the goroutine of \<^verbatim>\<open>GetSucker\<close> sends: the keys that it gets at first, then the watched
  changes after the revision of that answer.  If the first request fails (\<^const>\<open>None\<close>) it ends silently.
\<close>

definition GetSucker :: "(string \<times> string) list option \<Rightarrow> etcd_event list \<Rightarrow> event list" where
  "GetSucker resp watched =
     (case resp of
        None \<Rightarrow> []
      | Some kvs \<Rightarrow> map (\<lambda>(k, v). \<lparr>ev_OPType = op_add, ev_Obj = \<lparr>eo_Key = k, eo_Val = v\<rparr>\<rparr>) kvs @ map watch_event watched)"

text \<open>The settings of a sucker; the time in nanoseconds.\<close>

record EtcdSucker =
  es_endpoints :: string
  es_prefix :: string
  es_recursive :: bool
  es_connTimeout :: int
  es_chanSize :: nat

definition etcdSuckerConnTimeout :: int where "etcdSuckerConnTimeout = 3 * 10 ^ 9"
definition etcdSuckerChanSize :: nat where "etcdSuckerChanSize = 1024"

datatype EtcdSuckerOption = EtcdSuckerWithRecursive | EtcdSuckerConnTimeout int | EtcdSuckerChanSize nat

fun sucker_option :: "EtcdSucker \<Rightarrow> EtcdSuckerOption \<Rightarrow> EtcdSucker" where
  "sucker_option e EtcdSuckerWithRecursive = e\<lparr>es_recursive := True\<rparr>"
| "sucker_option e (EtcdSuckerConnTimeout t) = e\<lparr>es_connTimeout := t\<rparr>"
| "sucker_option e (EtcdSuckerChanSize n) = e\<lparr>es_chanSize := n\<rparr>"

definition NewEtcdSucker :: "string \<Rightarrow> string \<Rightarrow> EtcdSuckerOption list \<Rightarrow> error + EtcdSucker" where
  "NewEtcdSucker endpoints pre opts = Inr (foldl sucker_option
     \<lparr>es_endpoints = endpoints, es_prefix = pre, es_recursive = False, es_connTimeout = etcdSuckerConnTimeout,
      es_chanSize = etcdSuckerChanSize\<rparr> opts)"

section \<open>The controller\<close>

record 'r handlers =
  hd_addFunc :: "EtcdSuckerEventObj \<Rightarrow> 'r \<Rightarrow> 'r outcome option"
  hd_updateFunc :: "EtcdSuckerEventObj \<Rightarrow> 'r \<Rightarrow> 'r outcome option"
  hd_delFunc :: "EtcdSuckerEventObj \<Rightarrow> 'r \<Rightarrow> 'r outcome option"

text \<open>
  \<open>ct_source\<close>: what the goroutine of \<^verbatim>\<open>GetSucker\<close> has still to send; \<open>ct_hold\<close>: the event that the loop
  \<^verbatim>\<open>SuckLoop\<close> has received and not passed on; \<open>ct_handled\<close> records the calls of handlers; \<open>ct_state\<close> is what the
  handlers work on.
\<close>

text \<open>The four loops of \<^verbatim>\<open>Run\<close>; each ends when it sees the closed \<^verbatim>\<open>stopChan\<close>.\<close>

datatype loop = SuckLoop | AddLoop | UpdateLoop | DelLoop

record 'r controller =
  ct_source :: "event list"
  ct_eventChan :: "event list"
  ct_hold :: "event option"
  ct_addChan :: "event list"
  ct_updateChan :: "event list"
  ct_delChan :: "event list"
  ct_handled :: "event list"
  ct_live :: "loop set"
  ct_stopped :: bool
  ct_state :: 'r

definition NewController :: "event list \<Rightarrow> 'r \<Rightarrow> 'r controller" where
  "NewController es r = \<lparr>ct_source = es, ct_eventChan = [], ct_hold = None, ct_addChan = [], ct_updateChan = [],
     ct_delChan = [], ct_handled = [], ct_live = {SuckLoop, AddLoop, UpdateLoop, DelLoop}, ct_stopped = False, ct_state = r\<rparr>"

definition controller_Stop :: "'r controller \<Rightarrow> 'r controller outcome" where
  "controller_Stop c = (if ct_stopped c then Panic ''close of closed channel'' else Ok (c\<lparr>ct_stopped := True\<rparr>))"

text \<open>
  The steps of the five goroutines of \<^verbatim>\<open>Run\<close>, with channels of capacity \<open>m\<close> from the sucker and \<open>n\<close> to the
  handlers.  A send waits for a free place, a receive for an element; a handler that does not return stops its
  goroutine.  Once the controller is stopped a loop can end whenever it is at its \<^verbatim>\<open>select\<close>, or still take an
  event; \<^verbatim>\<open>Run\<close> returns when no loop is left.
\<close>

inductive ct_step :: "nat \<Rightarrow> nat \<Rightarrow> 'r handlers \<Rightarrow> 'r controller \<Rightarrow> 'r controller \<Rightarrow> bool" for m n H where
  send: "ct_source c = e # es \<Longrightarrow> length (ct_eventChan c) < m \<Longrightarrow>
    ct_step m n H c (c\<lparr>ct_source := es, ct_eventChan := ct_eventChan c @ [e]\<rparr>)"
| receive: "SuckLoop \<in> ct_live c \<Longrightarrow> ct_hold c = None \<Longrightarrow> ct_eventChan c = e # es \<Longrightarrow>
    ct_step m n H c (c\<lparr>ct_eventChan := es, ct_hold := Some e\<rparr>)"
| route_add: "ct_hold c = Some e \<Longrightarrow> ev_OPType e = op_add \<Longrightarrow> length (ct_addChan c) < n \<Longrightarrow>
    ct_step m n H c (c\<lparr>ct_hold := None, ct_addChan := ct_addChan c @ [e]\<rparr>)"
| route_update: "ct_hold c = Some e \<Longrightarrow> ev_OPType e = op_update \<Longrightarrow> length (ct_updateChan c) < n \<Longrightarrow>
    ct_step m n H c (c\<lparr>ct_hold := None, ct_updateChan := ct_updateChan c @ [e]\<rparr>)"
| route_del: "ct_hold c = Some e \<Longrightarrow> ev_OPType e = op_del \<Longrightarrow> length (ct_delChan c) < n \<Longrightarrow>
    ct_step m n H c (c\<lparr>ct_hold := None, ct_delChan := ct_delChan c @ [e]\<rparr>)"
| unknown: "ct_hold c = Some e \<Longrightarrow> ev_OPType e \<notin> {op_add, op_update, op_del} \<Longrightarrow>
    ct_step m n H c (c\<lparr>ct_hold := None\<rparr>)"
| add: "AddLoop \<in> ct_live c \<Longrightarrow> ct_addChan c = e # es \<Longrightarrow> hd_addFunc H (ev_Obj e) (ct_state c) = Some (Ok r) \<Longrightarrow>
    ct_step m n H c (c\<lparr>ct_addChan := es, ct_handled := ct_handled c @ [e], ct_state := r\<rparr>)"
| update: "UpdateLoop \<in> ct_live c \<Longrightarrow> ct_updateChan c = e # es \<Longrightarrow> hd_updateFunc H (ev_Obj e) (ct_state c) = Some (Ok r) \<Longrightarrow>
    ct_step m n H c (c\<lparr>ct_updateChan := es, ct_handled := ct_handled c @ [e], ct_state := r\<rparr>)"
| del: "DelLoop \<in> ct_live c \<Longrightarrow> ct_delChan c = e # es \<Longrightarrow> hd_delFunc H (ev_Obj e) (ct_state c) = Some (Ok r) \<Longrightarrow>
    ct_step m n H c (c\<lparr>ct_delChan := es, ct_handled := ct_handled c @ [e], ct_state := r\<rparr>)"
| stop: "controller_Stop c = Ok c' \<Longrightarrow> ct_step m n H c c'"
| break: "ct_stopped c \<Longrightarrow> l \<in> ct_live c \<Longrightarrow> (l = SuckLoop \<longrightarrow> ct_hold c = None) \<Longrightarrow>
    ct_step m n H c (c\<lparr>ct_live := ct_live c - {l}\<rparr>)"

definition quiet :: "'r controller \<Rightarrow> bool" where
  "quiet c \<longleftrightarrow> ct_source c = [] \<and> ct_eventChan c = [] \<and> ct_hold c = None \<and> ct_addChan c = [] \<and>
     ct_updateChan c = [] \<and> ct_delChan c = []"

section \<open>No event is lost\<close>

definition of_op :: "int \<Rightarrow> event list \<Rightarrow> event list" where
  "of_op p = filter (\<lambda>e. ev_OPType e = p)"

definition chan :: "int \<Rightarrow> 'r controller \<Rightarrow> event list" where
  "chan p c = (if p = op_add then ct_addChan c else if p = op_update then ct_updateChan c
     else if p = op_del then ct_delChan c else [])"

definition unrouted :: "'r controller \<Rightarrow> event list" where
  "unrouted c = (case ct_hold c of None \<Rightarrow> [] | Some e \<Rightarrow> [e]) @ ct_eventChan c @ ct_source c"

text \<open>The handler of an event, and the handlers of a sequence of events one after the other.\<close>

definition handle :: "'r handlers \<Rightarrow> event \<Rightarrow> 'r \<Rightarrow> 'r outcome option" where
  "handle H e = (if ev_OPType e = op_add then hd_addFunc H else if ev_OPType e = op_update then hd_updateFunc H
     else hd_delFunc H) (ev_Obj e)"

fun handle_all :: "'r handlers \<Rightarrow> event list \<Rightarrow> 'r \<Rightarrow> 'r outcome option" where
  "handle_all H [] r = Some (Ok r)"
| "handle_all H (e # es) r = lbind (handle H e r) (handle_all H es)"

lemma handle_all_snoc:
  "handle_all H es r = Some (Ok r1) \<Longrightarrow> handle H e r1 = Some (Ok r2) \<Longrightarrow> handle_all H (es @ [e]) r = Some (Ok r2)"
  by (induction es arbitrary: r) (auto simp: lbind_Ok_iff)

definition op_events :: "event list \<Rightarrow> bool" where
  "op_events es \<longleftrightarrow> (\<forall>e \<in> set es. ev_OPType e \<in> {op_add, op_update, op_del})"

definition ct_inv :: "nat \<Rightarrow> nat \<Rightarrow> 'r handlers \<Rightarrow> event list \<Rightarrow> 'r \<Rightarrow> 'r controller \<Rightarrow> bool" where
  "ct_inv m n H es r0 c \<longleftrightarrow>
     (\<forall>p \<in> {op_add, op_update, op_del}. of_op p es = of_op p (ct_handled c) @ chan p c @ of_op p (unrouted c) \<and>
        (\<forall>e \<in> set (chan p c). ev_OPType e = p) \<and> length (chan p c) \<le> n) \<and>
     length (ct_eventChan c) \<le> m \<and> op_events (ct_handled c) \<and> op_events (unrouted c) \<and>
     handle_all H (ct_handled c) r0 = Some (Ok (ct_state c))"

lemma of_op_simps [simp]:
  "of_op p [] = []" "of_op p (xs @ ys) = of_op p xs @ of_op p ys"
  "of_op p (e # xs) = (if ev_OPType e = p then e # of_op p xs else of_op p xs)"
  by (simp_all add: of_op_def)

lemma ct_start_inv: "op_events es \<Longrightarrow> ct_inv m n H es r (NewController es r)"
  by (simp add: ct_inv_def NewController_def chan_def unrouted_def op_events_def)

lemma ct_step_inv: "ct_step m n H c c' \<Longrightarrow> ct_inv m n H es r0 c \<Longrightarrow> ct_inv m n H es r0 c'"
proof (induction rule: ct_step.induct)
  case (add c e es' r)
  then have "ev_OPType e = op_add" by (auto simp: ct_inv_def chan_def)
  with add show ?case
    by (auto simp: ct_inv_def chan_def unrouted_def op_events_def handle_def intro: handle_all_snoc)
next
  case (update c e es' r)
  then have "ev_OPType e = op_update" by (auto simp: ct_inv_def chan_def)
  with update show ?case
    by (auto simp: ct_inv_def chan_def unrouted_def op_events_def handle_def intro: handle_all_snoc)
next
  case (del c e es' r)
  then have "ev_OPType e = op_del" by (auto simp: ct_inv_def chan_def)
  with del show ?case
    by (auto simp: ct_inv_def chan_def unrouted_def op_events_def handle_def intro: handle_all_snoc)
next
  case (stop c c')
  then show ?case by (auto simp: controller_Stop_def ct_inv_def chan_def unrouted_def split: if_splits)
qed (auto simp: ct_inv_def chan_def unrouted_def op_events_def)

lemma ct_reach_inv:
  "(ct_step m n H)\<^sup>*\<^sup>* (NewController es r) c \<Longrightarrow> op_events es \<Longrightarrow> ct_inv m n H es r c"
  by (induction rule: rtranclp_induct) (auto intro: ct_start_inv ct_step_inv)


lemma mset_ops:
  "op_events xs \<Longrightarrow> mset xs = mset (of_op op_add xs) + mset (of_op op_update xs) + mset (of_op op_del xs)"
  by (induction xs) (auto simp: op_events_def)

lemma quiet_ops: "ct_inv m n H es r c \<Longrightarrow> quiet c \<Longrightarrow> p \<in> {op_add, op_update, op_del} \<Longrightarrow> of_op p (ct_handled c) = of_op p es"
  unfolding ct_inv_def quiet_def unrouted_def chan_def by auto

text \<open>C15: Every event is handled once, and events of one kind in their order. In every
  interleaving of the goroutines of the controller, the events handled so far are, for additions, updates and
  deletions each, a first part of those that etcd reported; the channels never hold more than their
  capacity; what the handlers work on is the effect of the handled events one after the other; and when
  nothing is left to do exactly the reported events have been handled.\<close>

theorem events_handled_once:
  assumes "(ct_step m n H)\<^sup>*\<^sup>* (NewController es r) c" and "op_events es"
  shows "(\<forall>p. \<exists>rest. of_op p es = of_op p (ct_handled c) @ rest) \<and>
    length (ct_eventChan c) \<le> m \<and> length (ct_addChan c) \<le> n \<and> length (ct_updateChan c) \<le> n \<and> length (ct_delChan c) \<le> n \<and>
    handle_all H (ct_handled c) r = Some (Ok (ct_state c)) \<and>
    (quiet c \<longrightarrow> mset (ct_handled c) = mset es)"
proof -
  note inv = ct_reach_inv [OF assms]
  have "\<exists>rest. of_op p es = of_op p (ct_handled c) @ rest" for p
  proof (cases "p \<in> {op_add, op_update, op_del}")
    case True
    with inv show ?thesis by (auto simp: ct_inv_def)
  next
    case False
    with assms(2) have "of_op p es = []" "of_op p (ct_handled c) = []"
      using inv by (auto simp: ct_inv_def op_events_def of_op_def filter_empty_conv)
    then show ?thesis by simp
  qed
  moreover have "mset (ct_handled c) = mset es" if "quiet c"
    using quiet_ops [OF inv that] mset_ops [OF assms(2)] mset_ops [of "ct_handled c"] inv
    by (simp add: ct_inv_def)
  moreover have "length (ct_addChan c) \<le> n" "length (ct_updateChan c) \<le> n" "length (ct_delChan c) \<le> n"
    using inv by (simp_all add: ct_inv_def chan_def)
  ultimately show ?thesis using inv by (simp add: ct_inv_def)
qed

section \<open>Handlers that keep a set of members\<close>

text \<open>
  The interface between the controller and what its handlers work on: a set of members, named by the objects of the
  events.  Only the order of the events of one member matters for the set.
\<close>

definition member_change :: "(EtcdSuckerEventObj \<Rightarrow> string) \<Rightarrow> event \<Rightarrow> string set \<Rightarrow> string set" where
  "member_change name e A = (if ev_OPType e = op_add then insert (name (ev_Obj e)) A
     else if ev_OPType e = op_del then A - {name (ev_Obj e)} else A)"

lemma member_change_local:
  "a \<in> fold (member_change name) es A \<longleftrightarrow> a \<in> fold (member_change name) (filter (\<lambda>e. name (ev_Obj e) = a) es) A"
proof (induction es rule: rev_induct)
  case Nil
  show ?case by simp
next
  case (snoc e es)
  then show ?case by (cases "name (ev_Obj e) = a") (auto simp: member_change_def)
qed

locale member_handlers =
  fixes H :: "'r handlers"
    and inv :: "'r \<Rightarrow> bool"
    and members :: "'r \<Rightarrow> string set"
    and known :: "EtcdSuckerEventObj \<Rightarrow> bool"
    and name :: "EtcdSuckerEventObj \<Rightarrow> string"
  assumes add_law: "inv r \<Longrightarrow> known kv \<Longrightarrow> hd_addFunc H kv r = Some (Ok r') \<Longrightarrow>
      inv r' \<and> members r' = insert (name kv) (members r)"
    and update_law: "inv r \<Longrightarrow> known kv \<Longrightarrow> hd_updateFunc H kv r = Some (Ok r') \<Longrightarrow> inv r' \<and> members r' = members r"
    and del_law: "inv r \<Longrightarrow> known kv \<Longrightarrow> hd_delFunc H kv r = Some (Ok r') \<Longrightarrow>
      inv r' \<and> members r' = members r - {name kv}"
begin

lemma handle_members:
  "inv r \<Longrightarrow> known (ev_Obj e) \<Longrightarrow> ev_OPType e \<in> {op_add, op_update, op_del} \<Longrightarrow> handle H e r = Some (Ok r') \<Longrightarrow>
     inv r' \<and> members r' = member_change name e (members r)"
  by (auto simp: handle_def member_change_def dest: add_law update_law del_law)

lemma handle_all_members:
  "handle_all H es r = Some (Ok r') \<Longrightarrow> inv r \<Longrightarrow> op_events es \<Longrightarrow> \<forall>e \<in> set es. known (ev_Obj e) \<Longrightarrow>
     inv r' \<and> members r' = fold (member_change name) es (members r)"
proof (induction es arbitrary: r)
  case (Cons e es)
  then obtain r1 where r1: "handle H e r = Some (Ok r1)" "handle_all H es r1 = Some (Ok r')"
    by (auto simp: lbind_Ok_iff)
  with handle_members [OF Cons.prems(2) _ _ r1(1)] Cons.IH [OF r1(2)] Cons.prems(3,4) show ?case
    by (simp add: op_events_def)
qed simp

text \<open>A run of the controller that handles the events of each member in their order.\<close>

lemma run_members:
  assumes "(ct_step m n H)\<^sup>*\<^sup>* (NewController es r) c" and "op_events es" and "inv r" and "\<forall>e \<in> set es. known (ev_Obj e)"
    and "\<forall>a. filter (\<lambda>e. name (ev_Obj e) = a) (ct_handled c) = filter (\<lambda>e. name (ev_Obj e) = a) es"
  shows "inv (ct_state c) \<and> members (ct_state c) = fold (member_change name) es (members r)"
proof -
  note ct_inv = ct_reach_inv [OF assms(1,2), unfolded ct_inv_def]
  have "e \<in> set (ct_handled c) \<Longrightarrow> e \<in> set es" for e
  proof -
    assume "e \<in> set (ct_handled c)"
    then have "e \<in> set (filter (\<lambda>x. name (ev_Obj x) = name (ev_Obj e)) (ct_handled c))" by simp
    then show "e \<in> set es" using assms(5) by simp
  qed
  then have handled: "inv (ct_state c) \<and> members (ct_state c) = fold (member_change name) (ct_handled c) (members r)"
    using handle_all_members [of "ct_handled c" r "ct_state c"] ct_inv assms(3,4) by blast
  have "fold (member_change name) (ct_handled c) A = fold (member_change name) es A" for A
    using assms(5) member_change_local [of _ name "ct_handled c" A] member_change_local [of _ name es A] by auto
  with handled show ?thesis by simp
qed

end

section \<open>The ring follows the registry\<close>

text \<open>The handlers of \<^verbatim>\<open>NewDashController\<close>; an update is only printed.\<close>

definition dash_handlers :: "hashRing handlers" where
  "dash_handlers = \<lparr>hd_addFunc = \<lambda>kv. dash_add_server (eo_Key kv), hd_updateFunc = \<lambda>kv hr. Some (Ok hr),
     hd_delFunc = \<lambda>kv hr. Some (Ok (dash_del_server (eo_Key kv) hr))\<rparr>"

definition ControllerEventQueueLen :: nat where
  "ControllerEventQueueLen = 1024"

definition EtcdEndpoints :: string where
  "EtcdEndpoints = ''localhost:2379''"

text \<open>The sucker, the handlers and the capacity of the channels of the controller of a dash.\<close>

definition NewDashController :: "error + EtcdSucker \<times> hashRing handlers \<times> nat" where
  "NewDashController =
     (case NewEtcdSucker EtcdEndpoints ServerRegistryPrefix [EtcdSuckerWithRecursive] of
        Inl err \<Rightarrow> Inl err
      | Inr sucker \<Rightarrow> Inr (sucker, dash_handlers, ControllerEventQueueLen))"

definition dash_controller_step :: "hashRing controller \<Rightarrow> hashRing controller \<Rightarrow> bool" where
  "dash_controller_step =
     (case NewDashController of Inl _ \<Rightarrow> (\<lambda>_ _. False) | Inr (sucker, H, n) \<Rightarrow> ct_step (es_chanSize sucker) n H)"

lemma dash_controller_step_eq: "dash_controller_step = ct_step etcdSuckerChanSize ControllerEventQueueLen dash_handlers"
  by (simp add: dash_controller_step_def NewDashController_def NewEtcdSucker_def)

definition server_key :: "string \<Rightarrow> string" where
  "server_key a = filepath_Join [ServerRegistryPrefix, a]"

definition key_addr :: "string \<Rightarrow> string" where
  "key_addr k = (case filepath_Rel ServerRegistryPrefix k of Inl _ \<Rightarrow> '''' | Inr a \<Rightarrow> a)"

abbreviation ev_addr :: "event \<Rightarrow> string" where
  "ev_addr e \<equiv> key_addr (eo_Key (ev_Obj e))"

definition server_keys :: "string set \<Rightarrow> bool" where
  "server_keys K \<longleftrightarrow> (\<forall>k \<in> K. \<exists>a. plain_name a \<and> k = server_key a)"

lemma key_addr_server [simp]: "plain_name a \<Longrightarrow> key_addr (server_key a) = a"
  by (simp add: key_addr_def server_key_def registry_path)

text \<open>The handlers of the dash keep the nodes of the ring.\<close>

abbreviation server_obj :: "EtcdSuckerEventObj \<Rightarrow> bool" where
  "server_obj kv \<equiv> server_keys {eo_Key kv}"

abbreviation ring_change :: "event \<Rightarrow> string set \<Rightarrow> string set" where
  "ring_change \<equiv> member_change (\<lambda>kv. key_addr (eo_Key kv))"

lemma server_obj_addr:
  assumes "server_obj kv"
  shows "\<exists>a. a \<noteq> '''' \<and> key_addr (eo_Key kv) = a \<and> filepath_Rel ServerRegistryPrefix (eo_Key kv) = Inr a"
  using assms registry_path by (auto simp: server_keys_def plain_name_def server_key_def key_addr_def)

interpretation dash_ring: member_handlers dash_handlers ring_inv ring_nodes server_obj "\<lambda>kv. key_addr (eo_Key kv)"
proof unfold_locales
  fix hr hr' kv
  assume inv: "ring_inv hr" and "server_obj kv"
  then obtain a where a: "a \<noteq> ''''" "key_addr (eo_Key kv) = a" "filepath_Rel ServerRegistryPrefix (eo_Key kv) = Inr a"
    using server_obj_addr by blast
  {
    assume "hd_addFunc dash_handlers kv hr = Some (Ok hr')"
    with a obtain err where "AddNode a hr = Some (Ok (err, hr'))"
      by (auto simp: dash_handlers_def dash_add_server_def lbind_Ok_iff)
    with ring.add_refused [OF inv, of a] ring.add_contract [OF inv _ a(1)] a inv
    show "ring_inv hr' \<and> ring_nodes hr' = insert (key_addr (eo_Key kv)) (ring_nodes hr)"
      by (cases "a \<in> ring_nodes hr") (auto simp: insert_absorb)
  next
    assume "hd_updateFunc dash_handlers kv hr = Some (Ok hr')"
    with inv show "ring_inv hr' \<and> ring_nodes hr' = ring_nodes hr" by (simp add: dash_handlers_def)
  next
    assume "hd_delFunc dash_handlers kv hr = Some (Ok hr')"
    moreover obtain err hr2 where "DelNode a hr = (err, hr2)" by (rule prod.exhaust)
    ultimately have "DelNode a hr = (err, hr')" using a by (simp add: dash_handlers_def dash_del_server_def)
    with ring.del_contract [OF inv _ a(1)] a inv
    show "ring_inv hr' \<and> ring_nodes hr' = ring_nodes hr - {key_addr (eo_Key kv)}"
      by (cases "a \<in> ring_nodes hr") (auto simp: DelNode_def ring_nodes_def)
  }
qed

text \<open>The keys that etcd holds after some changes, and whether the changes fit what it held before.\<close>

definition etcd_change :: "etcd_event \<Rightarrow> string set \<Rightarrow> string set" where
  "etcd_change e K = (if ee_Type e = 1 then K - {ee_Key e} else insert (ee_Key e) K)"

fun fitting :: "etcd_event list \<Rightarrow> string set \<Rightarrow> bool" where
  "fitting [] K = True"
| "fitting (e # es) K = ((ee_Type e \<noteq> 1 \<longrightarrow> ee_IsCreate e = (ee_Key e \<notin> K)) \<and> fitting es (etcd_change e K))"

lemma watched_changes:
  "fitting es K \<Longrightarrow> server_keys (K \<union> ee_Key ` set es) \<Longrightarrow>
     fold ring_change (map watch_event es) (key_addr ` K) = key_addr ` fold etcd_change es K"
proof (induction es arbitrary: K)
  case Nil
  then show ?case by simp
next
  case (Cons e es)
  have inj: "key_addr k = key_addr k' \<longleftrightarrow> k = k'" if "k \<in> insert (ee_Key e) K" "k' \<in> insert (ee_Key e) K" for k k'
    using that Cons.prems(2) key_addr_server unfolding server_keys_def by (metis UnI1 UnI2 image_eqI insertE list.set_intros(1))
  have "ring_change (watch_event e) (key_addr ` K) = key_addr ` etcd_change e K"
    using Cons.prems(1) inj by (auto simp: member_change_def watch_event_def etcd_change_def)
  moreover have "server_keys (etcd_change e K \<union> ee_Key ` set es)"
    using Cons.prems(2) by (auto simp: server_keys_def etcd_change_def)
  ultimately show ?case using Cons.IH Cons.prems(1) by simp
qed

lemma GetSucker_changes:
  assumes "fitting watched (fst ` set kvs)" and "server_keys (fst ` set kvs \<union> ee_Key ` set watched)"
  shows "fold ring_change (GetSucker (Some kvs) watched) {} = key_addr ` fold etcd_change watched (fst ` set kvs)"
proof -
  have "fold ring_change (map (\<lambda>(k, v). \<lparr>ev_OPType = op_add, ev_Obj = \<lparr>eo_Key = k, eo_Val = v\<rparr>\<rparr>) kvs) A =
      key_addr ` fst ` set kvs \<union> A" for A
    by (induction kvs arbitrary: A) (auto simp: member_change_def)
  with watched_changes [OF assms] show ?thesis by (simp add: GetSucker_def)
qed

lemma GetSucker_events: "op_events (GetSucker resp watched)"
  by (auto simp: op_events_def GetSucker_def watch_event_def split: option.splits if_splits)

lemma GetSucker_keys:
  "(\<lambda>e. eo_Key (ev_Obj e)) ` set (GetSucker (Some kvs) watched) = fst ` set kvs \<union> ee_Key ` set watched"
  by (force simp: GetSucker_def watch_event_def)


lemma GetSucker_known:
  assumes "server_keys (fst ` set kvs \<union> ee_Key ` set watched)" and "e \<in> set (GetSucker (Some kvs) watched)"
  shows "server_obj (ev_Obj e)"
proof -
  have "eo_Key (ev_Obj e) \<in> fst ` set kvs \<union> ee_Key ` set watched"
    using assms(2) GetSucker_keys [of kvs watched] by blast
  with assms(1) show ?thesis by (auto simp: server_keys_def)
qed

text \<open>C12: The ring follows the registry of servers, if the events of every server are handled in their order.
  Let the controller of a dash start with the servers that etcd lists, and let etcd report the changes after
  that; whenever nothing is left to do and the events of each key have been handled in the order of the
  reports, however the events of different keys and the goroutines interleave, the nodes of the ring are exactly the
  addresses of the keys that etcd holds.\<close>

theorem ring_follows_registry:
  assumes "dash_controller_step\<^sup>*\<^sup>* (NewController (GetSucker (Some kvs) watched) hr) c" and "quiet c"
    and "ring_inv hr" and "ring_nodes hr = {}"
    and "fitting watched (fst ` set kvs)" and "server_keys (fst ` set kvs \<union> ee_Key ` set watched)"
    and "\<forall>a. filter (\<lambda>e. ev_addr e = a) (ct_handled c) = filter (\<lambda>e. ev_addr e = a) (GetSucker (Some kvs) watched)"
  shows "ring_inv (ct_state c) \<and>
    ring_nodes (ct_state c) = {a. plain_name a \<and> server_key a \<in> fold etcd_change watched (fst ` set kvs)}"
proof -
  let ?es = "GetSucker (Some kvs) watched" and ?K = "fold etcd_change watched (fst ` set kvs)"
  have "\<forall>e \<in> set ?es. server_obj (ev_Obj e)"
    using GetSucker_known [OF assms(6)] by blast
  from dash_ring.run_members [OF assms(1) [unfolded dash_controller_step_eq] GetSucker_events assms(3) this assms(7)]
  have ring: "ring_inv (ct_state c)" "ring_nodes (ct_state c) = key_addr ` ?K"
    using GetSucker_changes [OF assms(5,6)] assms(4) by simp_all
  have "fold etcd_change es K \<subseteq> K \<union> ee_Key ` set es" for es K
    by (induction es arbitrary: K) (auto simp: etcd_change_def split: if_splits)
  then have "server_keys ?K" using assms(6) unfolding server_keys_def by blast
  with ring show ?thesis by (fastforce simp: server_keys_def image_iff)
qed

text \<open>An event on its way to its channel.\<close>

lemma to_hold:
  assumes "ct_source c = e # es" and "ct_eventChan c = []" and "ct_hold c = None" and "SuckLoop \<in> ct_live c" and "0 < m"
  shows "(ct_step m n H)\<^sup>*\<^sup>* c (c\<lparr>ct_source := es, ct_hold := Some e\<rparr>)"
proof -
  define c1 where "c1 = c\<lparr>ct_source := es, ct_eventChan := [e]\<rparr>"
  have "ct_step m n H c c1" using ct_step.send [OF assms(1), of m n H] assms(2,5) by (simp add: c1_def)
  then have "(ct_step m n H)\<^sup>*\<^sup>* c c1" by (rule r_into_rtranclp)
  moreover have "ct_step m n H c1 (c1\<lparr>ct_eventChan := [], ct_hold := Some e\<rparr>)"
    by (rule ct_step.receive) (simp_all add: c1_def assms(3,4))
  moreover have "c1\<lparr>ct_eventChan := [], ct_hold := Some e\<rparr> = c\<lparr>ct_source := es, ct_hold := Some e\<rparr>"
    using assms(2) by (simp add: c1_def)
  ultimately show ?thesis by (simp add: rtranclp.rtrancl_into_rtrancl)
qed

lemma to_add_chan:
  assumes "ct_source c = e # es" and "ct_eventChan c = []" and "ct_hold c = None" and "SuckLoop \<in> ct_live c"
    and "ev_OPType e = op_add"
    and "0 < m" and "length (ct_addChan c) < n"
  shows "(ct_step m n H)\<^sup>*\<^sup>* c (c\<lparr>ct_source := es, ct_addChan := ct_addChan c @ [e]\<rparr>)"
proof -
  define c1 where "c1 = c\<lparr>ct_source := es, ct_hold := Some e\<rparr>"
  have "ct_step m n H c1 (c1\<lparr>ct_hold := None, ct_addChan := ct_addChan c1 @ [e]\<rparr>)"
    by (rule ct_step.route_add) (simp_all add: c1_def assms)
  moreover have "c1\<lparr>ct_hold := None, ct_addChan := ct_addChan c1 @ [e]\<rparr> = c\<lparr>ct_source := es, ct_addChan := ct_addChan c @ [e]\<rparr>"
    using assms(3) by (simp add: c1_def)
  moreover have "(ct_step m n H)\<^sup>*\<^sup>* c c1" unfolding c1_def by (rule to_hold [OF assms(1-4,6)])
  ultimately show ?thesis by (simp add: rtranclp.rtrancl_into_rtrancl)
qed

lemma to_del_chan:
  assumes "ct_source c = e # es" and "ct_eventChan c = []" and "ct_hold c = None" and "SuckLoop \<in> ct_live c"
    and "ev_OPType e = op_del"
    and "0 < m" and "length (ct_delChan c) < n"
  shows "(ct_step m n H)\<^sup>*\<^sup>* c (c\<lparr>ct_source := es, ct_delChan := ct_delChan c @ [e]\<rparr>)"
proof -
  define c1 where "c1 = c\<lparr>ct_source := es, ct_hold := Some e\<rparr>"
  have "ct_step m n H c1 (c1\<lparr>ct_hold := None, ct_delChan := ct_delChan c1 @ [e]\<rparr>)"
    by (rule ct_step.route_del) (simp_all add: c1_def assms)
  moreover have "c1\<lparr>ct_hold := None, ct_delChan := ct_delChan c1 @ [e]\<rparr> = c\<lparr>ct_source := es, ct_delChan := ct_delChan c @ [e]\<rparr>"
    using assms(3) by (simp add: c1_def)
  moreover have "(ct_step m n H)\<^sup>*\<^sup>* c c1" unfolding c1_def by (rule to_hold [OF assms(1-4,6)])
  ultimately show ?thesis by (simp add: rtranclp.rtrancl_into_rtrancl)
qed

lemma add_handled:
  "AddLoop \<in> ct_live c \<Longrightarrow> ct_addChan c = [e] \<Longrightarrow> hd_addFunc H (ev_Obj e) (ct_state c) = Some (Ok r) \<Longrightarrow>
     (ct_step m n H)\<^sup>*\<^sup>* c (c\<lparr>ct_addChan := [], ct_handled := ct_handled c @ [e], ct_state := r\<rparr>)"
  by (rule r_into_rtranclp) (rule ct_step.add)

lemma del_handled:
  "DelLoop \<in> ct_live c \<Longrightarrow> ct_delChan c = [e] \<Longrightarrow> hd_delFunc H (ev_Obj e) (ct_state c) = Some (Ok r) \<Longrightarrow>
     (ct_step m n H)\<^sup>*\<^sup>* c (c\<lparr>ct_delChan := [], ct_handled := ct_handled c @ [e], ct_state := r\<rparr>)"
  by (rule r_into_rtranclp) (rule ct_step.del)

text \<open>C16: A server that comes back can be missing in the ring. The deletion of the key of a server, whose lease
  ended, and its new registration go through different channels. It is reachable that the registration is handled
  first, when the ring still has the server, and the deletion after it: then nothing is left to do, etcd holds the
  key, and the ring does not have the server.\<close>

theorem returning_server_is_dropped:
  assumes "plain_name a" and "ring_inv hr" and "a \<notin> ring_nodes hr"
    and "dash_add_server (server_key a) hr = Some (Ok hr1)"
  shows "\<exists>c. dash_controller_step\<^sup>*\<^sup>* (NewController (GetSucker (Some [(server_key a, v)])
        [\<lparr>ee_Type = 1, ee_IsCreate = False, ee_Key = server_key a, ee_Val = ''''\<rparr>,
         \<lparr>ee_Type = 0, ee_IsCreate = True, ee_Key = server_key a, ee_Val = v'\<rparr>]) hr) c \<and>
      quiet c \<and> ring_nodes (ct_state c) = ring_nodes hr \<and> a \<notin> ring_nodes (ct_state c) \<and>
      server_key a \<in> fold etcd_change
        [\<lparr>ee_Type = 1, ee_IsCreate = False, ee_Key = server_key a, ee_Val = ''''\<rparr>,
         \<lparr>ee_Type = 0, ee_IsCreate = True, ee_Key = server_key a, ee_Val = v'\<rparr>] (fst ` set [(server_key a, v)])"
proof -
  let ?k = "server_key a" and ?H = dash_handlers and ?m = etcdSuckerChanSize and ?n = ControllerEventQueueLen
  let ?ev = "\<lambda>p v. \<lparr>ev_OPType = p, ev_Obj = \<lparr>eo_Key = ?k, eo_Val = v\<rparr>\<rparr>"
  let ?es = "[?ev op_add v, ?ev op_del '''', ?ev op_add v']"
  have caps: "0 < ?m" "0 < ?n" by (simp_all add: etcdSuckerChanSize_def ControllerEventQueueLen_def)
  have add1: "hd_addFunc ?H (ev_Obj (?ev op_add v)) hr = Some (Ok hr1)" using assms(4) by (simp add: dash_handlers_def)
  have known: "server_obj \<lparr>eo_Key = ?k, eo_Val = v\<rparr>" for v using assms(1) by (auto simp: server_keys_def)
  from dash_ring.handle_members [of hr "?ev op_add v" hr1] add1 known assms(1-3) have
    r1: "ring_inv hr1" "ring_nodes hr1 = insert a (ring_nodes hr)"
    by (auto simp: handle_def member_change_def)
  have rel: "filepath_Rel ServerRegistryPrefix ?k = Inr a"
    using registry_path [OF assms(1)] by (simp add: server_key_def)
  have add2: "hd_addFunc ?H (ev_Obj (?ev op_add v')) hr1 = Some (Ok hr1)"
    using rel ring.add_refused [OF r1(1), of a] r1(2) by (auto simp: dash_handlers_def dash_add_server_def)
  define hr2 where "hr2 = dash_del_server ?k hr1"
  have del: "hd_delFunc ?H (ev_Obj (?ev op_del '''')) hr1 = Some (Ok hr2)" by (simp add: dash_handlers_def hr2_def)
  with dash_ring.handle_members [of hr1 "?ev op_del ''''" hr2] known r1 assms(1,3) have
    r2: "ring_nodes hr2 = ring_nodes hr" by (auto simp: handle_def member_change_def)
  define st where "st = (\<lambda>s ad de h r. \<lparr>ct_source = s, ct_eventChan = [], ct_hold = None, ct_addChan = ad,
     ct_updateChan = [], ct_delChan = de, ct_handled = h, ct_live = {SuckLoop, AddLoop, UpdateLoop, DelLoop},
     ct_stopped = False, ct_state = (r :: hashRing)\<rparr>)"
  define e1 where "e1 = ?ev op_add v"
  define e2 where "e2 = ?ev op_del ''''"
  define e3 where "e3 = ?ev op_add v'"
  note e_defs = e1_def e2_def e3_def
  let ?R = "(ct_step ?m ?n ?H)\<^sup>*\<^sup>*"
  have "?R (st [e1, e2, e3] [] [] [] hr) (st [e2, e3] [e1] [] [] hr)"
    using to_add_chan [of "st [e1, e2, e3] [] [] [] hr" e1 "[e2, e3]" ?m ?n ?H] caps by (simp add: st_def e_defs)
  moreover have "?R (st [e2, e3] [e1] [] [] hr) (st [e2, e3] [] [] [e1] hr1)"
    using add_handled [of "st [e2, e3] [e1] [] [] hr" e1 ?H hr1 ?m ?n] add1 by (simp add: st_def e_defs)
  moreover have "?R (st [e2, e3] [] [] [e1] hr1) (st [e3] [] [e2] [e1] hr1)"
    using to_del_chan [of "st [e2, e3] [] [] [e1] hr1" e2 "[e3]" ?m ?n ?H] caps by (simp add: st_def e_defs)
  moreover have "?R (st [e3] [] [e2] [e1] hr1) (st [] [e3] [e2] [e1] hr1)"
    using to_add_chan [of "st [e3] [] [e2] [e1] hr1" e3 "[]" ?m ?n ?H] caps by (simp add: st_def e_defs)
  moreover have "?R (st [] [e3] [e2] [e1] hr1) (st [] [] [e2] [e1, e3] hr1)"
    using add_handled [of "st [] [e3] [e2] [e1] hr1" e3 ?H hr1 ?m ?n] add2 by (simp add: st_def e_defs)
  moreover have "?R (st [] [] [e2] [e1, e3] hr1) (st [] [] [] [e1, e3, e2] hr2)"
    using del_handled [of "st [] [] [e2] [e1, e3] hr1" e2 ?H hr2 ?m ?n] del
    by (simp add: st_def e_defs)
  ultimately have run: "?R (st [e1, e2, e3] [] [] [] hr) (st [] [] [] [e1, e3, e2] hr2)"
    by (blast intro: rtranclp_trans)
  have start: "NewController (GetSucker (Some [(?k, v)]) [\<lparr>ee_Type = 1, ee_IsCreate = False, ee_Key = ?k, ee_Val = ''''\<rparr>,
      \<lparr>ee_Type = 0, ee_IsCreate = True, ee_Key = ?k, ee_Val = v'\<rparr>]) hr = st [e1, e2, e3] [] [] [] hr"
    by (simp add: st_def e_defs NewController_def GetSucker_def watch_event_def)
  have "quiet (st [] [] [] [e1, e3, e2] hr2)" "ct_state (st [] [] [] [e1, e3, e2] hr2) = hr2"
    by (simp_all add: st_def quiet_def)
  with run start r2 assms(3) show ?thesis
    unfolding dash_controller_step_eq
    by (intro exI [of _ "st [] [] [] [e1, e3, e2] hr2"]) (simp add: etcd_change_def)
qed

section \<open>A ring of one slot\<close>

lemma tiny_controller:
  "dash_controller_step\<^sup>*\<^sup>* (NewController (GetSucker (Some [(server_key ''s1'', ''7'')]) []) tiny_ring)
     ((NewController [] tiny_full)\<lparr>ct_handled := GetSucker (Some [(server_key ''s1'', ''7'')]) []\<rparr>)"
proof -
  let ?e = "\<lparr>ev_OPType = op_add, ev_Obj = \<lparr>eo_Key = server_key ''s1'', eo_Val = ''7''\<rparr>\<rparr>"
  let ?c = "NewController [?e] tiny_ring" and ?m = etcdSuckerChanSize and ?n = ControllerEventQueueLen
  let ?c1 = "?c\<lparr>ct_source := [], ct_addChan := [?e]\<rparr>"
  have "plain_name ''s1''" by (simp add: plain_name_def)
  then have "hd_addFunc dash_handlers (ev_Obj ?e) tiny_ring = Some (Ok tiny_full)"
    using registry_path tiny_full_eq by (simp add: dash_handlers_def dash_add_server_def server_key_def)
  moreover have "(ct_step ?m ?n dash_handlers)\<^sup>*\<^sup>* ?c ?c1"
    using to_add_chan [of ?c ?e "[]" ?m ?n dash_handlers]
    by (simp add: NewController_def etcdSuckerChanSize_def ControllerEventQueueLen_def)
  ultimately show ?thesis
    using rtranclp_trans [OF _ add_handled [of ?c1 ?e dash_handlers tiny_full ?m ?n]]
    by (simp add: GetSucker_def NewController_def dash_controller_step_eq)
qed

theorem events_handled_once_witness:
  "mset (ct_handled ((NewController [] tiny_full)\<lparr>ct_handled := GetSucker (Some [(server_key ''s1'', ''7'')]) []\<rparr>)) =
     mset (GetSucker (Some [(server_key ''s1'', ''7'')]) []) \<and>
   handle_all dash_handlers (GetSucker (Some [(server_key ''s1'', ''7'')]) []) tiny_ring = Some (Ok tiny_full)"
  using events_handled_once [OF tiny_controller [unfolded dash_controller_step_eq] GetSucker_events]
  by (simp add: NewController_def)

theorem ring_follows_registry_witness:
  "ring_nodes tiny_full = {a. plain_name a \<and> server_key a \<in> {server_key ''s1''}}"
proof -
  have "plain_name ''s1''" by (simp add: plain_name_def)
  then have "server_keys {server_key ''s1''}" by (auto simp: server_keys_def)
  with ring_follows_registry [OF tiny_controller] tiny_ring_inv show ?thesis
    by (simp add: NewController_def quiet_def ring_nodes_def tiny_ring_def)
qed

theorem returning_server_is_dropped_witness:
  "\<exists>c. dash_controller_step\<^sup>*\<^sup>* (NewController (GetSucker (Some [(server_key ''s1'', ''7'')])
        [\<lparr>ee_Type = 1, ee_IsCreate = False, ee_Key = server_key ''s1'', ee_Val = ''''\<rparr>,
         \<lparr>ee_Type = 0, ee_IsCreate = True, ee_Key = server_key ''s1'', ee_Val = ''8''\<rparr>]) tiny_ring) c \<and>
      quiet c \<and> ring_nodes (ct_state c) = {}"
proof -
  have name: "plain_name ''s1''" by (simp add: plain_name_def)
  have "dash_add_server (server_key ''s1'') tiny_ring = Some (Ok tiny_full)"
    using registry_path [OF name] tiny_full_eq by (simp add: dash_add_server_def server_key_def)
  moreover have "ring_nodes tiny_ring = {}" by (simp add: ring_nodes_def tiny_ring_def)
  ultimately show ?thesis
    using returning_server_is_dropped [OF name tiny_ring_inv, of tiny_full "''7''" "''8''"] by auto
qed


section \<open>The controller of the etcd wrapper\<close>

text \<open>
  \<^verbatim>\<open>lib/etcd/etcd.go\<close> has a controller of its own, which nothing uses: one channel, and one loop that calls
  the handlers and logs their errors.  \<open>ec_closed\<close>: the channel was closed; the loop ends when it is
  empty and closed, and waits for ever if nobody closes it.
\<close>

record controller_event =
  we_key :: string
  we_val :: string
  we_et :: int

definition EVENT_ADD :: int where "EVENT_ADD = 0"
definition EVENT_UPDATE :: int where "EVENT_UPDATE = 1"
definition EVENT_DEL :: int where "EVENT_DEL = 2"

record 'r etcd_controller =
  ec_eventCh :: "controller_event list"
  ec_closed :: bool
  ec_AddFunc :: "controller_event \<Rightarrow> 'r \<Rightarrow> (error option \<times> 'r) outcome option"
  ec_UpdateFunc :: "controller_event \<Rightarrow> 'r \<Rightarrow> (error option \<times> 'r) outcome option"
  ec_DelFunc :: "controller_event \<Rightarrow> 'r \<Rightarrow> (error option \<times> 'r) outcome option"

definition etcd_controller_Stop :: "'r etcd_controller \<Rightarrow> 'r etcd_controller outcome" where
  "etcd_controller_Stop c = (if ec_closed c then Panic ''close of closed channel'' else Ok (c\<lparr>ec_closed := True\<rparr>))"

fun etcd_controller_loop :: "'r etcd_controller \<Rightarrow> controller_event list \<Rightarrow> 'r \<Rightarrow> 'r outcome option" where
  "etcd_controller_loop c [] r = (if ec_closed c then Some (Ok r) else None)"
| "etcd_controller_loop c (e # es) r =
     (if we_et e = EVENT_ADD then lbind (ec_AddFunc c e r) (\<lambda>(err, r1). etcd_controller_loop c es r1)
      else if we_et e = EVENT_UPDATE then lbind (ec_UpdateFunc c e r) (\<lambda>(err, r1). etcd_controller_loop c es r1)
      else if we_et e = EVENT_DEL then lbind (ec_DelFunc c e r) (\<lambda>(err, r1). etcd_controller_loop c es r1)
      else etcd_controller_loop c es r)"

definition etcd_controller_Run :: "'r etcd_controller \<Rightarrow> 'r \<Rightarrow> 'r outcome option" where
  "etcd_controller_Run c = etcd_controller_loop c (ec_eventCh c)"

text \<open>The handlers of the dash on this controller, and the events that the sucker reports.\<close>

definition to_watch :: "event \<Rightarrow> controller_event" where
  "to_watch e = \<lparr>we_key = eo_Key (ev_Obj e), we_val = eo_Val (ev_Obj e), we_et = ev_OPType e\<rparr>"

definition dash_etcd_controller :: "event list \<Rightarrow> hashRing etcd_controller" where
  "dash_etcd_controller es = \<lparr>ec_eventCh = map to_watch es, ec_closed = False,
     ec_AddFunc = \<lambda>e r. lbind (dash_add_server (we_key e) r) (\<lambda>r'. Some (Ok (None, r'))),
     ec_UpdateFunc = \<lambda>e r. Some (Ok (None, r)),
     ec_DelFunc = \<lambda>e r. Some (Ok (None, dash_del_server (we_key e) r))\<rparr>"

lemma etcd_controller_handles:
  "op_events es \<Longrightarrow> etcd_controller_loop ((dash_etcd_controller es')\<lparr>ec_closed := True\<rparr>) (map to_watch es) hr =
     handle_all dash_handlers es hr"
proof (induction es arbitrary: hr)
  case Nil
  show ?case by simp
next
  case (Cons e es)
  have assoc: "lbind (lbind m (\<lambda>r'. Some (Ok (None, r')))) (\<lambda>(err, r1). f r1) = lbind m f"
    for m :: "hashRing outcome option" and f :: "hashRing \<Rightarrow> hashRing outcome option"
    by (simp add: lbind_def split: option.split outcome.split)
  let ?C = "(dash_etcd_controller es')\<lparr>ec_closed := True\<rparr>"
  have IH: "etcd_controller_loop ?C (map to_watch es) = handle_all dash_handlers es"
    by (rule ext) (use Cons in \<open>simp add: op_events_def\<close>)
  let ?D = "dash_etcd_controller es'"
  have funcs: "ec_AddFunc ?D w r = lbind (dash_add_server (we_key w) r) (\<lambda>r'. Some (Ok (None, r')))"
    "ec_UpdateFunc ?D w r = Some (Ok (None, r))" "ec_DelFunc ?D w r = Some (Ok (None, dash_del_server (we_key w) r))" for w r
    by (simp_all add: dash_etcd_controller_def)
  have fields: "hd_addFunc dash_handlers kv = dash_add_server (eo_Key kv)" "hd_updateFunc dash_handlers kv r = Some (Ok r)"
    "hd_delFunc dash_handlers kv r = Some (Ok (dash_del_server (eo_Key kv) r))" for kv r
    by (simp_all add: dash_handlers_def)
  have ops: "EVENT_ADD = op_add" "EVENT_UPDATE = op_update" "EVENT_DEL = op_del"
    by (simp_all add: EVENT_ADD_def EVENT_UPDATE_def EVENT_DEL_def op_add_def op_update_def op_del_def)
  have watch: "we_et (to_watch e) = ev_OPType e" "we_key (to_watch e) = eo_Key (ev_Obj e)"
    by (simp_all add: to_watch_def)
  from Cons.prems have "ev_OPType e \<in> {op_add, op_update, op_del}" by (simp add: op_events_def)
  then show ?case
    by (elim insertE emptyE) (simp_all add: ops funcs watch IH handle_def fields assoc)
qed

text \<open>One channel would keep the order. If the events of the registry went through the controller of the
  etcd wrapper, which has one channel, then whenever its loop returns after \<^verbatim>\<open>Stop\<close> the nodes of the ring
  would be exactly the addresses of the keys that etcd holds, also for servers that come back.\<close>

theorem one_channel_follows_registry:
  assumes "etcd_controller_Stop (dash_etcd_controller (GetSucker (Some kvs) watched)) = Ok ctl"
    and "etcd_controller_Run ctl hr = Some (Ok hr')"
    and "ring_inv hr" and "ring_nodes hr = {}"
    and "fitting watched (fst ` set kvs)" and "server_keys (fst ` set kvs \<union> ee_Key ` set watched)"
  shows "ring_inv hr' \<and> ring_nodes hr' = key_addr ` fold etcd_change watched (fst ` set kvs)"
proof -
  let ?es = "GetSucker (Some kvs) watched"
  have "ctl = (dash_etcd_controller ?es)\<lparr>ec_closed := True\<rparr>"
    using assms(1) by (simp add: etcd_controller_Stop_def dash_etcd_controller_def)
  moreover have "ec_eventCh ((dash_etcd_controller ?es)\<lparr>ec_closed := True\<rparr>) = map to_watch ?es"
    by (simp add: dash_etcd_controller_def)
  ultimately have "handle_all dash_handlers ?es hr = Some (Ok hr')"
    using assms(2) etcd_controller_handles [OF GetSucker_events, of ?es "Some kvs" watched hr]
    by (simp add: etcd_controller_Run_def)
  from dash_ring.handle_all_members [OF this assms(3) GetSucker_events] GetSucker_known [OF assms(6)] show ?thesis
    by (simp add: GetSucker_changes [OF assms(5,6)] assms(4))
qed

theorem one_channel_follows_registry_witness:
  "\<exists>ctl. etcd_controller_Stop (dash_etcd_controller (GetSucker (Some [(server_key ''s1'', ''7'')])
        [\<lparr>ee_Type = 1, ee_IsCreate = False, ee_Key = server_key ''s1'', ee_Val = ''''\<rparr>])) = Ok ctl \<and>
     etcd_controller_Run ctl tiny_ring = Some (Ok (dash_del_server (server_key ''s1'') tiny_full)) \<and>
     ring_nodes (dash_del_server (server_key ''s1'') tiny_full) = {}"
proof -
  let ?w = "[\<lparr>ee_Type = 1, ee_IsCreate = False, ee_Key = server_key ''s1'', ee_Val = ''''\<rparr>]"
  let ?es = "GetSucker (Some [(server_key ''s1'', ''7'')]) ?w"
  have name: "plain_name ''s1''" by (simp add: plain_name_def)
  have add: "dash_add_server (server_key ''s1'') tiny_ring = Some (Ok tiny_full)"
    using registry_path [OF name] tiny_full_eq by (simp add: dash_add_server_def server_key_def)
  let ?ctl = "(dash_etcd_controller ?es)\<lparr>ec_closed := True\<rparr>"
  have stop: "etcd_controller_Stop (dash_etcd_controller ?es) = Ok ?ctl"
    by (simp add: etcd_controller_Stop_def dash_etcd_controller_def)
  have "handle_all dash_handlers ?es tiny_ring = Some (Ok (dash_del_server (server_key ''s1'') tiny_full))"
    by (simp add: GetSucker_def watch_event_def handle_def dash_handlers_def add)
  then have run: "etcd_controller_Run ?ctl tiny_ring = Some (Ok (dash_del_server (server_key ''s1'') tiny_full))"
    using etcd_controller_handles [OF GetSucker_events, of ?es "Some [(server_key ''s1'', ''7'')]" ?w tiny_ring]
    by (simp add: etcd_controller_Run_def dash_etcd_controller_def)
  have "server_keys {server_key ''s1''}" using name by (auto simp: server_keys_def)
  then have "ring_nodes (dash_del_server (server_key ''s1'') tiny_full) = {}"
    using one_channel_follows_registry [OF stop run tiny_ring_inv]
    by (simp add: ring_nodes_def tiny_ring_def etcd_change_def)
  with stop run show ?thesis by blast
qed

end
