(* ===== verification/Startup.thy ===== *)
theory Startup
  imports Event_Controller Election Auth
begin

text \<open>
  How the processes start: the functions of \<^verbatim>\<open>server/server.go\<close> that listen, register in etcd and serve,
  and the programs under \<^verbatim>\<open>cmd\<close> that call them.  The theory shows that a process serves only after it has
  registered, what is left in etcd when a start fails, and that all search servers register one and the same key.
\<close>

section \<open>The code\<close>

text \<open>
  The calls of the operating system and of gRPC.  \<open>os_Listen\<close> gives the address of the listener, as
  \<^verbatim>\<open>lis.Addr().String()\<close> prints it; \<open>os_Creds\<close> is \<^verbatim>\<open>credentials.NewServerTLSFromFile\<close>; \<open>os_Serve\<close> serves
  some services until the listener fails, or for ever (\<^const>\<open>None\<close>).
\<close>

datatype grpc_service = SearchService | ServerController | ProxyController | DashService

datatype goroutine = GoElect string string int | GoController EtcdSucker "hashRing handlers" nat

record 'w os =
  os_Listen :: "string \<Rightarrow> 'w \<Rightarrow> (error + string) \<times> 'w"
  os_Creds :: "string \<Rightarrow> string \<Rightarrow> 'w \<Rightarrow> error option \<times> 'w"
  os_Serve :: "grpc_service list \<Rightarrow> goroutine list \<Rightarrow> 'w \<Rightarrow> (error option \<times> 'w) option"

text \<open>A start either fails, or goes on to serve with the goroutines started so far.\<close>

datatype start = Failed error | Serving "grpc_service list" "goroutine list"

definition run :: "'w os \<Rightarrow> start \<times> 'w \<Rightarrow> (error option \<times> 'w) option" where
  "run N sw = (case sw of (Failed e, w) \<Rightarrow> Some (Some e, w) | (Serving ss gs, w) \<Rightarrow> os_Serve N ss gs w)"

definition Key :: string where
  "Key = ''/var/lib/mysh/cert/www.myshell.top.key''"

definition listen :: "'w os \<Rightarrow> string \<Rightarrow> (string \<Rightarrow> 'w \<Rightarrow> start \<times> 'w) \<Rightarrow> 'w \<Rightarrow> start \<times> 'w" where
  "listen N addr k w =
     (case os_Listen N addr w of
        (Inl err, w1) \<Rightarrow> (Failed (Err (Sprintf ''init network error: %v'' [IString (error_msg err)])), w1)
      | (Inr lis, w1) \<Rightarrow> k lis w1)"

definition register ::
  "'w clientv3 \<Rightarrow> string \<Rightarrow> string \<Rightarrow> grpc_service list \<Rightarrow> 'w \<Rightarrow> start \<times> 'w"
where
  "register cli dir lis ss w =
     (case Register cli dir lis w of (Some err, w1) \<Rightarrow> (Failed err, w1) | (None, w1) \<Rightarrow> (Serving ss [], w1))"

definition load_creds :: "'w os \<Rightarrow> ('w \<Rightarrow> start \<times> 'w) \<Rightarrow> 'w \<Rightarrow> start \<times> 'w" where
  "load_creds N k w =
     (case os_Creds N Crt Key w of
        (Some err, w1) \<Rightarrow> (Failed (Err (''could not load TLS keys: '' @ error_msg err)), w1)
      | (None, w1) \<Rightarrow> k w1)"

definition port_addr :: "int \<Rightarrow> string" where
  "port_addr port = Sprintf '':%v'' [IInt port]"

definition RunSearchService :: "'w os \<Rightarrow> 'w clientv3 \<Rightarrow> int \<Rightarrow> 'w \<Rightarrow> start \<times> 'w" where
  "RunSearchService N cli port = listen N (port_addr port)
     (\<lambda>lis. register cli ServerRegistryPrefix lis [SearchService, ServerController])"

definition SearchServer_Run :: "'w os \<Rightarrow> 'w clientv3 \<Rightarrow> int \<Rightarrow> 'w \<Rightarrow> start \<times> 'w" where
  "SearchServer_Run N cli port = listen N (port_addr port)
     (\<lambda>lis. register cli ServerRegistryPrefix lis [SearchService])"

definition RunProxyService :: "'w os \<Rightarrow> 'w clientv3 \<Rightarrow> int \<Rightarrow> 'w \<Rightarrow> start \<times> 'w" where
  "RunProxyService N cli port = listen N (port_addr port)
     (\<lambda>lis. load_creds N (register cli ProxyRegistryPrefix lis [ProxyController, SearchService]))"

definition ProxyServer_Run :: "'w os \<Rightarrow> 'w clientv3 \<Rightarrow> int \<Rightarrow> 'w \<Rightarrow> start \<times> 'w" where
  "ProxyServer_Run N cli port = listen N (port_addr port)
     (\<lambda>lis. load_creds N (register cli ProxyRegistryPrefix lis [SearchService]))"

text \<open>The dash registers nowhere; it takes part in the election under its own address.\<close>

definition DashServer_Run :: "'w os \<Rightarrow> string \<Rightarrow> 'w \<Rightarrow> start \<times> 'w" where
  "DashServer_Run N addr = listen N addr (\<lambda>lis w. (Serving [DashService] [GoElect DashLeaderKey addr 3], w))"

text \<open>The programs end with \<^verbatim>\<open>log.Fatal\<close> of what the function returns.\<close>

definition log_Fatal :: "(error option \<times> 'w) option \<Rightarrow> unit outcome option" where
  "log_Fatal r = (case r of None \<Rightarrow> None
     | Some (err, w) \<Rightarrow> Some (Fatal (case err of None \<Rightarrow> ''<nil>'' | Some e \<Rightarrow> error_msg e)))"

definition mysh_server_main :: "'w os \<Rightarrow> 'w clientv3 \<Rightarrow> 'w \<Rightarrow> unit outcome option" where
  "mysh_server_main N cli w = log_Fatal (run N (RunSearchService N cli 8084 w))"

definition Port :: int where
  "Port = 8080"

definition EndpointPort :: int where
  "EndpointPort = 8083"

definition mysh_proxy_main :: "'w os \<Rightarrow> 'w clientv3 \<Rightarrow> 'w \<Rightarrow> unit outcome option" where
  "mysh_proxy_main N cli w = log_Fatal (run N (RunProxyService N cli Port w))"

text \<open>
  The dash has a goroutine that makes the event controller, whose steps are \<^const>\<open>dash_controller_step\<close>, and
  runs it; if that fails it panics, which ends the process.
\<close>

definition mysh_dash_main :: "'w os \<Rightarrow> 'w \<Rightarrow> unit outcome option" where
  "mysh_dash_main N w =
     (case NewDashController of
        Inl err \<Rightarrow> Some (Panic (error_msg err))
      | Inr (sucker, H, n) \<Rightarrow>
          (case DashServer_Run N DashAddr w of
             (Failed err, w1) \<Rightarrow> log_Fatal (run N (Failed err, w1))
           | (Serving ss gs, w1) \<Rightarrow> log_Fatal (run N (Serving ss (GoController sucker H n # gs), w1))))"

lemmas startup_defs = RunSearchService_def SearchServer_Run_def RunProxyService_def ProxyServer_Run_def
  DashServer_Run_def listen_def register_def load_creds_def

section \<open>Registration\<close>

text \<open>
  An etcd that answers also puts keys with leases and keeps leases alive; listening, loading keys and
  serving do not change it.  \<open>any_host\<close>: a listener without a host prints as the unspecified IPv6 address.
\<close>

definition registry_answers :: "'w clientv3 \<Rightarrow> ('w \<Rightarrow> leased) \<Rightarrow> ('w \<Rightarrow> lease set) \<Rightarrow> bool" where
  "registry_answers cli lview used \<longleftrightarrow> etcd_reliable cli lview used \<and>
     (\<forall>k v l w. \<exists>w'. cli_Put cli k v l w = (None, w') \<and> lview w' = (lview w)(k \<mapsto> (v, l)) \<and> used w' = used w) \<and>
     (\<forall>l w. fst (cli_KeepAlive cli l w) = None)"

definition any_host :: "'w os \<Rightarrow> ('w \<Rightarrow> leased) \<Rightarrow> ('w \<Rightarrow> lease set) \<Rightarrow> bool" where
  "any_host N lview used \<longleftrightarrow> (\<forall>port w lis w'. os_Listen N (port_addr port) w = (lis, w') \<longrightarrow>
     lview w' = lview w \<and> used w' = used w \<and> (\<forall>a. lis = Inr a \<longrightarrow> a = ''[::]:'' @ itoa port))"

lemma mem_registry_answers: "registry_answers mem_cli mem_lview mem_used"
  using mem_etcd_reliable
  by (simp add: registry_answers_def mem_cli_def mem_lview_put) (simp add: mem_used_def mem_put_def)

lemma Register_answers:
  assumes "registry_answers cli lview used"
  shows "\<exists>l w'. Register cli dir a w = (None, w') \<and> l \<notin> used w \<and> used w' = insert l (used w) \<and>
     lview w' = (lview w)(filepath_Join [dir, a] \<mapsto> (itoa l, Some l))"
proof -
  have rel: "etcd_reliable cli lview used" using assms by (simp add: registry_answers_def)
  obtain l w1 where l: "cli_Grant cli LeaseTTL w = ((l, None), w1)" "l \<notin> used w" "used w1 = insert l (used w)"
    "lview w1 = lview w" using etcd_reliableD(1) [OF rel] by blast
  obtain w2 where w2: "cli_Put cli (filepath_Join [dir, a]) (itoa l) (Some l) w1 = (None, w2)"
    "lview w2 = (lview w1)(filepath_Join [dir, a] \<mapsto> (itoa l, Some l))" "used w2 = used w1"
    using assms unfolding registry_answers_def by blast
  obtain r w3 where "cli_KeepAlive cli l w2 = (r, w3)" by (rule prod.exhaust)
  moreover from this have "r = None" "lview w3 = lview w2" "used w3 = used w2"
    using assms etcd_reliableD(5,6) [OF rel, of l w2] unfolding registry_answers_def by (metis fst_conv, simp_all)
  ultimately show ?thesis using l w2 by (auto simp: Register_def)
qed

lemma RunSearchService_registers:
  assumes "registry_answers cli lview used" and "any_host N lview used"
  shows "\<exists>w'. (\<exists>e. RunSearchService N cli port w = (Failed e, w') \<and> lview w' = lview w \<and> used w' = used w) \<or>
    (\<exists>l. RunSearchService N cli port w = (Serving [SearchService, ServerController] [], w') \<and>
       l \<notin> used w \<and> used w' = insert l (used w) \<and>
       lview w' = (lview w)(server_key (''[::]:'' @ itoa port) \<mapsto> (itoa l, Some l)))"
proof -
  obtain lis w1 where lis: "os_Listen N (port_addr port) w = (lis, w1)" by (rule prod.exhaust)
  from assms(2) [unfolded any_host_def, rule_format, OF this] have
    w1: "lview w1 = lview w" "used w1 = used w" "\<And>a. lis = Inr a \<Longrightarrow> a = ''[::]:'' @ itoa port" by auto
  show ?thesis
  proof (cases lis)
    case (Inl e)
    with lis w1 show ?thesis by (auto simp: startup_defs)
  next
    case (Inr a)
    with Register_answers [OF assms(1), of ServerRegistryPrefix a w1] lis w1 show ?thesis
      by (auto simp: startup_defs server_key_def)
  qed
qed

text \<open>A server serves only after it has registered. If etcd answers, a start of the search
  service either fails and leaves etcd as it was, or goes on to serve with the address of its listener as a key of
  the registry, on a lease of its own; no other key changes.\<close>

theorem server_registers_then_serves:
  assumes "registry_answers cli lview used" and "any_host N lview used"
    and "RunSearchService N cli port w = (r, w')"
  shows "(\<exists>e. r = Failed e \<and> lview w' = lview w) \<or>
    (\<exists>l. r = Serving [SearchService, ServerController] [] \<and> l \<notin> used w \<and>
       lview w' = (lview w)(server_key (''[::]:'' @ itoa port) \<mapsto> (itoa l, Some l)))"
  using RunSearchService_registers [OF assms(1,2), of port w] assms(3) by auto

text \<open>All search servers share one key. They listen on a port without a host, so whatever their hosts are
  they register the same address: a server that starts replaces the key of the one before by a key on its
  own lease, and when its lease ends the registry has no server any more, although the first one still
  serves and keeps its lease alive.\<close>

theorem servers_share_one_key:
  assumes "registry_answers cli lview used" and "any_host A lview used" and "any_host B lview used"
    and "RunSearchService A cli port w = (Serving ss gs, w1)" and "RunSearchService B cli port w1 = (Serving ss' gs', w2)"
  shows "\<exists>la lb. la \<noteq> lb \<and> lview w1 (server_key (''[::]:'' @ itoa port)) = Some (itoa la, Some la) \<and>
    lview w2 = (lview w1)(server_key (''[::]:'' @ itoa port) \<mapsto> (itoa lb, Some lb)) \<and>
    drop_lease lb (lview w2) (server_key (''[::]:'' @ itoa port)) = None"
proof -
  obtain la where la: "used w1 = insert la (used w)"
    "lview w1 = (lview w)(server_key (''[::]:'' @ itoa port) \<mapsto> (itoa la, Some la))"
    using RunSearchService_registers [OF assms(1,2), of port w] assms(4) by auto
  obtain lb where "lb \<notin> used w1"
    "lview w2 = (lview w1)(server_key (''[::]:'' @ itoa port) \<mapsto> (itoa lb, Some lb))"
    using RunSearchService_registers [OF assms(1,3), of port w1] assms(5) by auto
  with la show ?thesis by (auto simp: drop_lease_def)
qed

text \<open>A host and an etcd in memory.\<close>

definition demo_os :: "mem_world os" where
  "demo_os = \<lparr>os_Listen = (\<lambda>a w. (Inr (''[::]'' @ a), w)), os_Creds = (\<lambda>_ _ w. (None, w)), os_Serve = (\<lambda>_ _ _. None)\<rparr>"

lemma demo_any_host: "any_host demo_os mem_lview mem_used"
  by (auto simp: any_host_def demo_os_def port_addr_def)

lemma demo_start:
  "\<exists>w'. RunSearchService demo_os mem_cli 8084 w = (Serving [SearchService, ServerController] [], w')"
proof -
  obtain w' where "Register mem_cli ServerRegistryPrefix (''[::]'' @ port_addr 8084) w = (None, w')"
    using Register_answers [OF mem_registry_answers] by blast
  then show ?thesis by (simp add: startup_defs demo_os_def)
qed

lemma demo_key: "server_key (''[::]:'' @ itoa 8084) = server_key ''[::]:8084''"
proof -
  have "digit 8 = CHR ''8''" "digit 0 = CHR ''0''" "digit 4 = CHR ''4''" by code_simp+
  then have "itoa 8084 = ''8084''" by (simp add: itoa_def utoa.simps)
  then show ?thesis by simp
qed

theorem server_registers_then_serves_witness:
  "\<exists>l w'. RunSearchService demo_os mem_cli 8084 mem_empty = (Serving [SearchService, ServerController] [], w') \<and>
     mem_lview w' = (mem_lview mem_empty)(server_key ''[::]:8084'' \<mapsto> (itoa l, Some l))"
proof -
  obtain w' where w': "RunSearchService demo_os mem_cli 8084 mem_empty = (Serving [SearchService, ServerController] [], w')"
    using demo_start by blast
  from server_registers_then_serves [OF mem_registry_answers demo_any_host w'] show ?thesis
    unfolding demo_key using w' by blast
qed

theorem servers_share_one_key_witness:
  "\<exists>w1 w2 la lb. RunSearchService demo_os mem_cli 8084 mem_empty = (Serving [SearchService, ServerController] [], w1) \<and>
     RunSearchService demo_os mem_cli 8084 w1 = (Serving [SearchService, ServerController] [], w2) \<and> la \<noteq> lb \<and>
     mem_lview w1 (server_key ''[::]:8084'') = Some (itoa la, Some la) \<and>
     drop_lease lb (mem_lview w2) (server_key ''[::]:8084'') = None"
proof -
  obtain w1 where w1: "RunSearchService demo_os mem_cli 8084 mem_empty = (Serving [SearchService, ServerController] [], w1)"
    using demo_start by blast
  obtain w2 where w2: "RunSearchService demo_os mem_cli 8084 w1 = (Serving [SearchService, ServerController] [], w2)"
    using demo_start by blast
  from servers_share_one_key [OF mem_registry_answers demo_any_host demo_any_host w1 w2] show ?thesis
    unfolding demo_key using w1 w2 by blast
qed

end
