(* ===== verification/Files.thy ===== *)
theory Files
  imports Go_Std "HOL-Library.Sublist"
begin

text \<open>
  The file helpers of \<^verbatim>\<open>util/util.go\<close> over a Unix file system: directories and files with the permissions
  that the process has on them.  The theory shows when the helpers store what they are given, that they cannot
  use the directories that they make, and what the client keeps as its certificate.
\<close>

section \<open>The file system\<close>

text \<open>
  A node carries what the process may do with it; a process of root may do everything.  There are no links, a name
  \<^verbatim>\<open>..\<close> is never found, and a disk is never full.
\<close>

datatype access = Read | Write | Exec

datatype inode = Directory "access set" | File "access set" string

type_synonym path = "string list"
type_synonym fs = "path \<rightharpoonup> inode"

record process =
  ps_root :: bool
  ps_cwd :: path

definition may :: "process \<Rightarrow> access \<Rightarrow> access set \<Rightarrow> bool" where
  "may P a A \<longleftrightarrow> ps_root P \<or> a \<in> A"

text \<open>The permissions of the owner in a mode.\<close>

definition owner :: "nat \<Rightarrow> access set" where
  "owner mode = (if bit mode 8 then {Read} else {}) \<union> (if bit mode 7 then {Write} else {}) \<union> (if bit mode 6 then {Exec} else {})"

datatype errno = ENOENT | ENOTDIR | EACCES | EEXIST | EISDIR

primrec strerror :: "errno \<Rightarrow> string" where
  "strerror ENOENT = ''no such file or directory''"
| "strerror ENOTDIR = ''not a directory''"
| "strerror EACCES = ''permission denied''"
| "strerror EEXIST = ''file exists''"
| "strerror EISDIR = ''is a directory''"

definition PathError :: "string \<Rightarrow> path \<Rightarrow> errno \<Rightarrow> error" where
  "PathError op p e = Err (op @ '' /'' @ join_with (CHR ''/'') p @ '': '' @ strerror e)"

text \<open>The node of a path: every directory on the way must be searchable.\<close>

fun resolve :: "process \<Rightarrow> fs \<Rightarrow> path \<Rightarrow> path \<Rightarrow> errno + inode" where
  "resolve P f d [] = (case f d of None \<Rightarrow> Inl ENOENT | Some n \<Rightarrow> Inr n)"
| "resolve P f d (c # cs) =
     (case f d of
        None \<Rightarrow> Inl ENOENT
      | Some (File A s) \<Rightarrow> Inl ENOTDIR
      | Some (Directory A) \<Rightarrow> if may P Exec A then resolve P f (d @ [c]) cs else Inl EACCES)"

abbreviation node_at :: "process \<Rightarrow> fs \<Rightarrow> path \<Rightarrow> errno + inode" where
  "node_at P f p \<equiv> resolve P f [] p"

text \<open>The path of a file name; a relative name starts at the working directory.\<close>

definition path_of :: "process \<Rightarrow> string \<Rightarrow> path" where
  "path_of P fn = (if take 1 fn = ''/'' then [] else ps_cwd P) @
     filter (\<lambda>w. w \<noteq> [] \<and> w \<noteq> ''.'') (split_on (CHR ''/'') fn)"

section \<open>Calls of package os\<close>

text \<open>A new entry in the directory of a path.\<close>

definition create_at :: "process \<Rightarrow> fs \<Rightarrow> path \<Rightarrow> inode \<Rightarrow> errno + fs" where
  "create_at P f p n =
     (if p = [] then Inl EEXIST
      else (case node_at P f (butlast p) of
        Inl e \<Rightarrow> Inl e
      | Inr (File A s) \<Rightarrow> Inl ENOTDIR
      | Inr (Directory A) \<Rightarrow>
          if \<not> may P Exec A then Inl EACCES
          else if f p \<noteq> None then Inl EEXIST
          else if \<not> may P Write A then Inl EACCES
          else Inr (f(p \<mapsto> n))))"

definition os_Mkdir :: "process \<Rightarrow> path \<Rightarrow> nat \<Rightarrow> fs \<Rightarrow> error option \<times> fs" where
  "os_Mkdir P p mode f =
     (case create_at P f p (Directory (owner mode)) of
        Inl e \<Rightarrow> (Some (PathError ''mkdir'' p e), f)
      | Inr f' \<Rightarrow> (None, f'))"

definition is_dir :: "errno + inode \<Rightarrow> bool" where
  "is_dir r = (case r of Inr (Directory A) \<Rightarrow> True | _ \<Rightarrow> False)"

text \<open>
  \<^verbatim>\<open>os.MkdirAll\<close>: what exists must be a directory; otherwise the parent is made first, and an error of the
  last step counts only if the directory is still missing.
\<close>

function os_MkdirAll :: "process \<Rightarrow> path \<Rightarrow> nat \<Rightarrow> fs \<Rightarrow> error option \<times> fs" where
  "os_MkdirAll P p mode f =
     (case node_at P f p of
        Inr (Directory A) \<Rightarrow> (None, f)
      | Inr (File A s) \<Rightarrow> (Some (PathError ''mkdir'' p ENOTDIR), f)
      | Inl _ \<Rightarrow>
          (case (if length p > 1 then os_MkdirAll P (butlast p) mode f else (None, f)) of
             (Some err, f1) \<Rightarrow> (Some err, f1)
           | (None, f1) \<Rightarrow>
               (case os_Mkdir P p mode f1 of
                  (Some err, f2) \<Rightarrow> (if is_dir (node_at P f2 p) then None else Some err, f2)
                | (None, f2) \<Rightarrow> (None, f2))))"
  by pat_completeness auto
termination by (relation "measure (\<lambda>(P, p, mode, f). length p)") auto

declare os_MkdirAll.simps [simp del]

text \<open>Open files; every open of the program writes.\<close>

datatype flag = O_WRONLY | O_RDWR | O_APPEND | O_CREATE | O_TRUNC

record osFile =
  fd_path :: path
  fd_append :: bool
  fd_offset :: nat

definition os_OpenFile :: "process \<Rightarrow> path \<Rightarrow> flag set \<Rightarrow> nat \<Rightarrow> fs \<Rightarrow> (error + osFile) \<times> fs" where
  "os_OpenFile P p flags mode f =
     (let h = \<lparr>fd_path = p, fd_append = O_APPEND \<in> flags, fd_offset = 0\<rparr>;
          failed = (\<lambda>e. (Inl (PathError ''open'' p e), f))
      in case node_at P f p of
           Inr (Directory A) \<Rightarrow> failed EISDIR
         | Inr (File A s) \<Rightarrow>
             if may P Write A \<and> (O_RDWR \<in> flags \<longrightarrow> may P Read A)
             then (Inr h, if O_TRUNC \<in> flags then f(p \<mapsto> File A '''') else f)
             else failed EACCES
         | Inl e \<Rightarrow>
             if e = ENOENT \<and> O_CREATE \<in> flags
             then (case create_at P f p (File (owner mode) '''') of Inl e' \<Rightarrow> failed e' | Inr f' \<Rightarrow> (Inr h, f'))
             else failed e)"

text \<open>Octal 0666, 0644 and 0755.\<close>

definition mode_0666 :: nat where "mode_0666 = 0x1B6"
definition mode_0644 :: nat where "mode_0644 = 0x1A4"
definition mode_0755 :: nat where "mode_0755 = 0x1ED"

definition os_Create :: "process \<Rightarrow> path \<Rightarrow> fs \<Rightarrow> (error + osFile) \<times> fs" where
  "os_Create P p = os_OpenFile P p {O_RDWR, O_CREATE, O_TRUNC} mode_0666"

definition file_Write :: "osFile \<Rightarrow> string \<Rightarrow> fs \<Rightarrow> fs" where
  "file_Write h data f =
     (case f (fd_path h) of
        Some (File A s) \<Rightarrow>
          (let off = (if fd_append h then length s else fd_offset h)
           in f(fd_path h \<mapsto> File A (take off s @ data @ drop (off + length data) s)))
      | _ \<Rightarrow> f)"

definition filepath_Dir :: "string \<Rightarrow> string" where
  "filepath_Dir p = filepath_Clean (rev (dropWhile (\<lambda>c. c \<noteq> CHR ''/'') (rev p)))"

section \<open>The helpers of util.go\<close>

definition FileExist :: "process \<Rightarrow> string \<Rightarrow> fs \<Rightarrow> bool" where
  "FileExist P fn f =
     (case node_at P f (path_of P fn) of Inr finfo \<Rightarrow> \<not> is_dir (Inr finfo) | Inl err \<Rightarrow> False)"

definition writeFile :: "process \<Rightarrow> string \<Rightarrow> string \<Rightarrow> (fs \<Rightarrow> (error + osFile) \<times> fs) \<Rightarrow> fs \<Rightarrow> error option \<times> fs" where
  "writeFile P fn data openFunc f =
     (let baseDir = filepath_Dir fn in
      case os_MkdirAll P (path_of P baseDir) mode_0644 f of
        (Some err, f1) \<Rightarrow> (Some err, f1)
      | (None, f1) \<Rightarrow>
          (case openFunc f1 of
             (Inl err, f2) \<Rightarrow> (Some err, f2)
           | (Inr h, f2) \<Rightarrow> (None, file_Write h data f2)))"

definition AppendFile :: "process \<Rightarrow> string \<Rightarrow> string \<Rightarrow> fs \<Rightarrow> error option \<times> fs" where
  "AppendFile P fn data =
     writeFile P fn data (os_OpenFile P (path_of P fn) {O_APPEND, O_WRONLY, O_CREATE} mode_0644)"

definition OverWriteFile :: "process \<Rightarrow> string \<Rightarrow> string \<Rightarrow> fs \<Rightarrow> error option \<times> fs" where
  "OverWriteFile P fn data = writeFile P fn data (os_Create P (path_of P fn))"

text \<open>\<^verbatim>\<open>net.Dial\<close> is a parameter.\<close>

definition CheckTCP :: "(string \<Rightarrow> string \<Rightarrow> error + 'c) \<Rightarrow> string \<Rightarrow> bool" where
  "CheckTCP net_Dial endpoint = (case net_Dial ''tcp'' endpoint of Inr conn \<Rightarrow> True | Inl err \<Rightarrow> False)"

text \<open>
  The answer of an HTTP server; \<open>rs_ReadNone\<close> is the error of a read into an empty buffer, \<open>rs_BodyErr\<close>
  an error after the bytes of the body.  The client does not treat a status as an error.
\<close>

record response =
  rs_StatusCode :: int
  rs_ReadNone :: "error option"
  rs_Body :: string
  rs_BodyErr :: "error option"

definition cons_Domain :: string where
  "cons_Domain = ''www.myshell.top''"

text \<open>\<^verbatim>\<open>cons.UserCrt\<close>, set from the home directory when the process starts.\<close>

definition UserCrt :: "string \<Rightarrow> string" where
  "UserCrt HomeDir = filepath_Join [HomeDir, ''mysh/cert/www.myshell.top.crt'']"

definition PullCert :: "process \<Rightarrow> string \<Rightarrow> (string \<Rightarrow> error + response) \<Rightarrow> fs \<Rightarrow> error option \<times> fs" where
  "PullCert P user_crt http_Get f =
     (case http_Get (''https://'' @ cons_Domain @ '':443/get_cert'') of
        Inl err \<Rightarrow> (Some err, f)
      | Inr resp \<Rightarrow>
          (case rs_ReadNone resp of
             Some err \<Rightarrow> (Some err, f)
           | None \<Rightarrow>
               (let baseDir = filepath_Dir user_crt in
                case os_MkdirAll P (path_of P baseDir) mode_0755 f of
                  (Some err, f1) \<Rightarrow> (Some err, f1)
                | (None, f1) \<Rightarrow>
                    (case os_Create P (path_of P user_crt) f1 of
                       (Inl err, f2) \<Rightarrow> (Some err, f2)
                     | (Inr h, f2) \<Rightarrow> (rs_BodyErr resp, file_Write h (rs_Body resp) f2)))))"

section \<open>Paths\<close>

abbreviation abs_name :: "path \<Rightarrow> string" where
  "abs_name cs \<equiv> CHR ''/'' # join_with (CHR ''/'') cs"

definition plain :: "path \<Rightarrow> bool" where
  "plain cs \<longleftrightarrow> (\<forall>c \<in> set cs. plain_name c)"

lemma plain_simps [simp]:
  "plain []" "plain (c # cs) \<longleftrightarrow> plain_name c \<and> plain cs" "plain (cs @ ds) \<longleftrightarrow> plain cs \<and> plain ds"
  by (auto simp: plain_def)

lemma join_snoc:
  "cs \<noteq> [] \<Longrightarrow> join_with sep (cs @ [c]) = join_with sep cs @ sep # c"
  by (induction cs rule: join_with.induct) auto

lemma split_join: "plain cs \<Longrightarrow> cs \<noteq> [] \<Longrightarrow> split_on (CHR ''/'') (join_with (CHR ''/'') cs) = cs"
proof (induction cs rule: rev_induct)
  case (snoc c cs)
  then show ?case
    by (cases "cs = []") (simp_all add: join_snoc split_on_append_sep split_on_absent plain_name_def)
qed simp

lemma clean_plain: "plain cs \<Longrightarrow> clean_components r st cs = rev st @ cs"
  by (induction cs arbitrary: st) (auto simp: plain_name_def)

lemma Clean_abs:
  assumes "plain cs"
  shows "filepath_Clean (abs_name cs) = abs_name cs"
proof (cases "cs = []")
  case False
  with assms show ?thesis
    by (simp add: filepath_Clean_def split_join clean_plain plain_name_def)
qed (simp add: filepath_Clean_def)

lemma Clean_abs_slash:
  assumes "plain cs" and "cs \<noteq> []"
  shows "filepath_Clean (abs_name cs @ ''/'') = abs_name cs"
proof -
  have "clean_components True st (cs @ [[]]) = rev st @ cs" for st
    using assms(1) by (induction cs arbitrary: st) (auto simp: plain_name_def)
  moreover have "split_on (CHR ''/'') (join_with (CHR ''/'') cs @ ''/'') = cs @ [[]]"
    using split_on_append_sep [of "CHR ''/''" "join_with (CHR ''/'') cs" "[]"] split_join [OF assms] by simp
  ultimately show ?thesis by (simp add: filepath_Clean_def)
qed

lemma path_of_abs:
  assumes "plain cs"
  shows "path_of P (abs_name cs) = cs"
proof (cases "cs = []")
  case False
  moreover have "filter (\<lambda>w. w \<noteq> [] \<and> w \<noteq> ''.'') cs = cs"
    using assms by (induction cs) (auto simp: plain_name_def)
  ultimately show ?thesis using assms by (simp add: path_of_def split_join)
qed (simp add: path_of_def)

lemma Dir_abs:
  assumes "plain cs" and "plain_name c"
  shows "filepath_Dir (abs_name (cs @ [c])) = abs_name cs"
proof -
  have c: "\<forall>x \<in> set (rev c). x \<noteq> CHR ''/''" using assms(2) by (auto simp: plain_name_def)
  have "dropWhile (\<lambda>x. x \<noteq> CHR ''/'') (rev c @ CHR ''/'' # xs) = CHR ''/'' # xs" for xs
    using dropWhile_append2 [of "rev c" "\<lambda>x. x \<noteq> CHR ''/''" "CHR ''/'' # xs"] c by simp
  then show ?thesis
    using assms Clean_abs [of "[]"] Clean_abs_slash [of cs]
    by (cases "cs = []") (simp_all add: filepath_Dir_def join_snoc)
qed

section \<open>Lookups\<close>

lemma resolve_append:
  "resolve P f d (xs @ ys) =
     (case resolve P f d xs of
        Inl e \<Rightarrow> Inl e
      | Inr (File A s) \<Rightarrow> (if ys = [] then Inr (File A s) else Inl ENOTDIR)
      | Inr (Directory A) \<Rightarrow> resolve P f (d @ xs) ys)"
proof (induction xs arbitrary: d)
  case Nil
  show ?case by (cases ys) (auto split: option.split inode.split)
next
  case (Cons x xs)
  note IH = Cons.IH [of "d @ [x]", unfolded append.assoc append.simps]
  show ?case by (cases "f d") (simp_all add: IH split: inode.split)
qed

lemma resolve_node: "resolve P f d cs = Inr n \<Longrightarrow> f (d @ cs) = Some n"
  by (induction cs arbitrary: d) (fastforce split: option.splits inode.splits if_splits)+

lemma node_at_node: "node_at P f cs = Inr n \<Longrightarrow> f cs = Some n"
  using resolve_node [of P f "[]" cs n] by simp

lemma node_at_child:
  "node_at P f d = Inr (Directory A) \<Longrightarrow>
     node_at P f (d @ [c]) = (if may P Exec A then (case f (d @ [c]) of None \<Rightarrow> Inl ENOENT | Some n \<Rightarrow> Inr n) else Inl EACCES)"
  using node_at_node [of P f d "Directory A"] by (simp add: resolve_append)

lemma resolve_update:
  "\<not> (\<exists>ys. q = d @ ys \<and> prefix ys cs) \<Longrightarrow> resolve P (f(q \<mapsto> n)) d cs = resolve P f d cs"
proof (induction cs arbitrary: d)
  case (Cons c cs)
  have "\<not> (\<exists>ys. q = (d @ [c]) @ ys \<and> prefix ys cs)"
    using Cons.prems by (metis Cons_prefix_Cons append.assoc append_Cons append_Nil)
  moreover have "q \<noteq> d" using Cons.prems by auto
  ultimately show ?case using Cons.IH [of "d @ [c]"] by (auto split: option.split inode.split)
qed auto

lemma node_at_update: "\<not> prefix q cs \<Longrightarrow> node_at P (f(q \<mapsto> n)) cs = node_at P f cs"
  by (rule resolve_update) simp

lemma not_prefix_parent [simp]: "\<not> prefix (d @ [c]) d" "\<not> prefix (d @ c # cs) d"
  by (auto simp: prefix_def)


lemma owner_modes [simp]:
  "owner mode_0666 = {Read, Write}" "owner mode_0644 = {Read, Write}" "owner mode_0755 = {Read, Write, Exec}"
  by (auto simp: owner_def mode_0666_def mode_0644_def mode_0755_def bit_iff_odd)

lemma may_self [simp]: "a \<in> A \<Longrightarrow> may P a A"
  by (simp add: may_def)

section \<open>What is written is kept\<close>

definition text_at :: "fs \<Rightarrow> path \<Rightarrow> string option" where
  "text_at f p = (case f p of Some (File A s) \<Rightarrow> Some s | _ \<Rightarrow> None)"

definition dir_open :: "process \<Rightarrow> fs \<Rightarrow> path \<Rightarrow> bool" where
  "dir_open P f d \<longleftrightarrow> (\<exists>A. node_at P f d = Inr (Directory A) \<and> may P Exec A \<and> may P Write A)"

definition writable :: "process \<Rightarrow> fs \<Rightarrow> path \<Rightarrow> bool" where
  "writable P f p = (case f p of None \<Rightarrow> True | Some (File A s) \<Rightarrow> may P Write A \<and> may P Read A | Some (Directory A) \<Rightarrow> False)"

lemma MkdirAll_exists: "is_dir (node_at P f p) \<Longrightarrow> os_MkdirAll P p mode f = (None, f)"
  by (subst os_MkdirAll.simps) (auto simp: is_dir_def split: sum.splits inode.splits)

lemma dir_open_is_dir: "dir_open P f d \<Longrightarrow> is_dir (node_at P f d)"
  by (auto simp: dir_open_def is_dir_def)

lemma dir_open_update: "dir_open P f d \<Longrightarrow> dir_open P (f(d @ [c] \<mapsto> n)) d"
  by (simp add: dir_open_def node_at_update)

lemma open_in_dir:
  assumes "dir_open P f d" and "writable P f (d @ [c])" and "O_CREATE \<in> flags" and "{Read, Write} \<subseteq> owner mode"
  shows "\<exists>A. os_OpenFile P (d @ [c]) flags mode f =
      (Inr \<lparr>fd_path = d @ [c], fd_append = O_APPEND \<in> flags, fd_offset = 0\<rparr>,
       f(d @ [c] \<mapsto> File A (if O_TRUNC \<in> flags then '''' else (case text_at f (d @ [c]) of None \<Rightarrow> '''' | Some s \<Rightarrow> s)))) \<and>
     may P Write A \<and> may P Read A"
proof -
  obtain D where D: "node_at P f d = Inr (Directory D)" "may P Exec D" "may P Write D"
    using assms(1) by (auto simp: dir_open_def)
  show ?thesis
  proof (cases "f (d @ [c])")
    case None
    have "os_OpenFile P (d @ [c]) flags mode f =
      (Inr \<lparr>fd_path = d @ [c], fd_append = O_APPEND \<in> flags, fd_offset = 0\<rparr>, f(d @ [c] \<mapsto> File (owner mode) ''''))"
      using D None assms(3) by (simp add: os_OpenFile_def node_at_child create_at_def)
    with assms(4) None show ?thesis by (auto simp: text_at_def)
  next
    case (Some n)
    then obtain A s where n: "n = File A s" using assms(2) by (cases n) (auto simp: writable_def)
    have "f(d @ [c] \<mapsto> File A s) = f" using Some n by (simp add: fun_upd_idem)
    with D Some n assms(2) show ?thesis
      by (intro exI [of _ A]) (auto simp: os_OpenFile_def node_at_child writable_def text_at_def)
  qed
qed

lemma writeFile_in_dir:
  assumes "plain d" and "plain_name c" and "dir_open P f d"
    and "openFunc f = (Inr h, f1)"
  shows "writeFile P (abs_name (d @ [c])) data openFunc f = (None, file_Write h data f1)"
  using assms dir_open_is_dir [OF assms(3)] MkdirAll_exists [of P f d]
  by (simp add: writeFile_def Dir_abs path_of_abs)

lemma AppendFile_in_dir:
  assumes "plain d" and "plain_name c" and "dir_open P f d" and "writable P f (d @ [c])"
  shows "\<exists>A. AppendFile P (abs_name (d @ [c])) data f =
      (None, f(d @ [c] \<mapsto> File A ((case text_at f (d @ [c]) of None \<Rightarrow> '''' | Some s \<Rightarrow> s) @ data))) \<and>
    may P Write A \<and> may P Read A"
proof -
  obtain A where A: "os_OpenFile P (d @ [c]) {O_APPEND, O_WRONLY, O_CREATE} mode_0644 f =
      (Inr \<lparr>fd_path = d @ [c], fd_append = True, fd_offset = 0\<rparr>,
       f(d @ [c] \<mapsto> File A (case text_at f (d @ [c]) of None \<Rightarrow> '''' | Some s \<Rightarrow> s)))" "may P Write A" "may P Read A"
    using open_in_dir [OF assms(3,4), of "{O_APPEND, O_WRONLY, O_CREATE}" mode_0644] by auto
  note writeFile_in_dir [where openFunc = "os_OpenFile P (d @ [c]) {O_APPEND, O_WRONLY, O_CREATE} mode_0644", OF assms(1-3) A(1)]
  then show ?thesis using assms(1,2) A(2,3)
    by (intro exI [of _ A]) (simp add: AppendFile_def path_of_abs file_Write_def)
qed

lemma OverWriteFile_in_dir:
  assumes "plain d" and "plain_name c" and "dir_open P f d" and "writable P f (d @ [c])"
  shows "\<exists>A. OverWriteFile P (abs_name (d @ [c])) data f = (None, f(d @ [c] \<mapsto> File A data)) \<and>
    may P Write A \<and> may P Read A"
proof -
  obtain A where A: "os_Create P (d @ [c]) f =
      (Inr \<lparr>fd_path = d @ [c], fd_append = False, fd_offset = 0\<rparr>, f(d @ [c] \<mapsto> File A ''''))" "may P Write A" "may P Read A"
    using open_in_dir [OF assms(3,4), of "{O_RDWR, O_CREATE, O_TRUNC}" mode_0666] by (auto simp: os_Create_def)
  note writeFile_in_dir [where openFunc = "os_Create P (d @ [c])", OF assms(1-3) A(1)]
  then show ?thesis using assms(1,2) A(2,3)
    by (intro exI [of _ A]) (simp add: OverWriteFile_def path_of_abs file_Write_def)
qed

text \<open>Calls of the helpers on files of one directory, and their effect on the texts of the files.\<close>

datatype file_op = Append string string | OverWrite string string

primrec file_name :: "file_op \<Rightarrow> string" where
  "file_name (Append n s) = n"
| "file_name (OverWrite n s) = n"

primrec file_call :: "process \<Rightarrow> path \<Rightarrow> file_op \<Rightarrow> fs \<Rightarrow> error option \<times> fs" where
  "file_call P d (Append n s) = AppendFile P (abs_name (d @ [n])) s"
| "file_call P d (OverWrite n s) = OverWriteFile P (abs_name (d @ [n])) s"

fun file_calls :: "process \<Rightarrow> path \<Rightarrow> file_op list \<Rightarrow> fs \<Rightarrow> error option \<times> fs" where
  "file_calls P d [] f = (None, f)"
| "file_calls P d (op # ops) f =
     (case file_call P d op f of (Some err, f1) \<Rightarrow> (Some err, f1) | (None, f1) \<Rightarrow> file_calls P d ops f1)"

primrec file_effect :: "file_op \<Rightarrow> (string \<rightharpoonup> string) \<Rightarrow> (string \<rightharpoonup> string)" where
  "file_effect (Append n s) m = m(n \<mapsto> (case m n of None \<Rightarrow> '''' | Some t \<Rightarrow> t) @ s)"
| "file_effect (OverWrite n s) m = m(n \<mapsto> s)"

lemma file_call_effect:
  assumes "plain d" and "plain_name (file_name op)" and "dir_open P f d" and "writable P f (d @ [file_name op])"
  shows "\<exists>A s. file_call P d op f = (None, f(d @ [file_name op] \<mapsto> File A s)) \<and> may P Write A \<and> may P Read A \<and>
    file_effect op (\<lambda>n. text_at f (d @ [n])) = (\<lambda>n. text_at f (d @ [n]))(file_name op \<mapsto> s)"
proof (cases op)
  case (Append n s)
  with AppendFile_in_dir [of d n P f s] assms show ?thesis by auto
next
  case (OverWrite n s)
  with OverWriteFile_in_dir [of d n P f s] assms show ?thesis by auto
qed

text \<open>C38: The file helpers keep what they are given. In a directory that the process can use, whose files of the
  used names it can read and write, every sequence of calls of \<^verbatim>\<open>AppendFile\<close> and \<^verbatim>\<open>OverWriteFile\<close> succeeds;
  then the texts of the files are those of a map that the calls extend and replace, and nothing else in the file
  system has changed.\<close>

theorem files_keep_what_is_written:
  assumes "plain d" and "\<forall>op \<in> set ops. plain_name (file_name op)" and "dir_open P f d"
    and "\<forall>op \<in> set ops. writable P f (d @ [file_name op])"
  shows "\<exists>f'. file_calls P d ops f = (None, f') \<and>
    (\<forall>n. text_at f' (d @ [n]) = fold file_effect ops (\<lambda>n. text_at f (d @ [n])) n) \<and>
    (\<forall>p. p \<notin> (\<lambda>op. d @ [file_name op]) ` set ops \<longrightarrow> f' p = f p)"
  using assms
proof (induction ops arbitrary: f)
  case Nil
  show ?case by simp
next
  case (Cons op ops)
  let ?p = "d @ [file_name op]"
  obtain A s where call: "file_call P d op f = (None, f(?p \<mapsto> File A s))" "may P Write A" "may P Read A"
    and eff: "file_effect op (\<lambda>n. text_at f (d @ [n])) = (\<lambda>n. text_at f (d @ [n]))(file_name op \<mapsto> s)"
    using file_call_effect [of d op P f] Cons.prems by auto
  define g where "g = f(?p \<mapsto> File A s)"
  have "\<forall>op \<in> set ops. writable P g (d @ [file_name op])"
    using Cons.prems(4) call(2,3) by (auto simp: writable_def g_def)
  moreover have "dir_open P g d" using Cons.prems(3) dir_open_update by (simp add: g_def)
  ultimately obtain f' where "file_calls P d ops g = (None, f')"
    "\<forall>n. text_at f' (d @ [n]) = fold file_effect ops (\<lambda>n. text_at g (d @ [n])) n"
    "\<forall>p. p \<notin> (\<lambda>op. d @ [file_name op]) ` set ops \<longrightarrow> f' p = g p"
    using Cons.IH [of g] Cons.prems(1,2) by auto
  moreover have "(\<lambda>n. text_at g (d @ [n])) = file_effect op (\<lambda>n. text_at f (d @ [n]))"
    unfolding eff by (auto simp: text_at_def g_def)
  ultimately show ?case using call(1) by (auto simp: g_def)
qed

section \<open>Directories that nobody can search\<close>

lemma MkdirAll_below:
  assumes "node_at P f q = Inr (Directory A)" and "\<not> may P Exec A"
  shows "ys \<noteq> [] \<Longrightarrow> \<exists>err. os_MkdirAll P (q @ ys) mode f = (Some err, f)"
proof (induction ys rule: rev_induct)
  case (snoc c ys)
  have q: "is_dir (node_at P f q)" "f q = Some (Directory A)"
    using assms(1) node_at_node by (auto simp: is_dir_def)
  have below: "node_at P f (q @ ys @ [c]) = Inl EACCES"
    using assms q(2) by (cases ys) (simp_all add: resolve_append)
  show ?case
  proof (cases "ys = []")
    case True
    have "os_MkdirAll P (butlast (q @ [c])) mode f = (None, f)" using MkdirAll_exists [OF q(1)] by simp
    moreover have "os_Mkdir P (q @ [c]) mode f = (Some (PathError ''mkdir'' (q @ [c]) EACCES), f)"
      using assms by (simp add: os_Mkdir_def create_at_def)
    ultimately show ?thesis using below True
      by (subst os_MkdirAll.simps) (cases "q = []"; auto simp: is_dir_def)
  next
    case False
    with snoc.IH obtain err where "os_MkdirAll P (butlast (q @ ys @ [c])) mode f = (Some err, f)"
      by (auto simp: butlast_append)
    with below False show ?thesis by (subst os_MkdirAll.simps) (simp add: Suc_le_eq)
  qed
qed simp

lemma writeFile_below:
  assumes "node_at P f q = Inr (Directory A)" and "\<not> may P Exec A" and "plain (q @ ys @ [n])"
    and "\<And>p. node_at P f p = Inl EACCES \<Longrightarrow> \<exists>err. openFunc p f = (Inl err, f)"
  shows "\<exists>err. writeFile P (abs_name (q @ ys @ [n])) data (openFunc (q @ ys @ [n])) f = (Some err, f)"
proof (cases "ys = []")
  case True
  have "os_MkdirAll P q mode_0644 f = (None, f)"
    using MkdirAll_exists [of P f q] assms(1) by (simp add: is_dir_def)
  moreover have "node_at P f (q @ [n]) = Inl EACCES"
    using assms(1,2) by (simp add: node_at_child)
  then obtain err where "openFunc (q @ [n]) f = (Inl err, f)" using assms(4) by blast
  ultimately show ?thesis using True assms(3) by (simp add: writeFile_def Dir_abs path_of_abs)
next
  case False
  from MkdirAll_below [OF assms(1,2) this, of mode_0644] show ?thesis
    using assms(3) Dir_abs [of "q @ ys" n] by (auto simp: writeFile_def path_of_abs)
qed

lemma helpers_below:
  assumes "node_at P f q = Inr (Directory A)" and "\<not> may P Exec A" and "plain (q @ ys @ [n])"
  shows "\<exists>err. AppendFile P (abs_name (q @ ys @ [n])) data f = (Some err, f)"
    and "\<exists>err. OverWriteFile P (abs_name (q @ ys @ [n])) data f = (Some err, f)"
  using writeFile_below [OF assms, of "\<lambda>p. os_OpenFile P p {O_APPEND, O_WRONLY, O_CREATE} mode_0644"]
    writeFile_below [OF assms, of "os_Create P"] path_of_abs [OF assms(3)]
  by (simp_all add: AppendFile_def OverWriteFile_def os_Create_def os_OpenFile_def Let_def)

lemma node_at_missing:
  assumes "dir_open P f d" and "f (d @ [c]) = None"
  shows "node_at P f (d @ c # ys) = Inl ENOENT"
proof -
  obtain A where "node_at P f d = Inr (Directory A)" "may P Exec A" using assms(1) by (auto simp: dir_open_def)
  moreover from this have "f d = Some (Directory A)" by (blast dest: node_at_node)
  ultimately show ?thesis using assms(2) by (cases ys) (simp_all add: resolve_append)
qed

lemma Mkdir_fresh:
  assumes "dir_open P f d" and "f (d @ [c]) = None"
  shows "os_Mkdir P (d @ [c]) mode f = (None, f(d @ [c] \<mapsto> Directory (owner mode)))"
    and "node_at P (f(d @ [c] \<mapsto> Directory (owner mode))) (d @ [c]) = Inr (Directory (owner mode))"
proof -
  obtain A where A: "node_at P f d = Inr (Directory A)" "may P Exec A" "may P Write A"
    using assms(1) by (auto simp: dir_open_def)
  then show "os_Mkdir P (d @ [c]) mode f = (None, f(d @ [c] \<mapsto> Directory (owner mode)))"
    using assms(2) by (simp add: os_Mkdir_def create_at_def)
  from A have "node_at P (f(d @ [c] \<mapsto> Directory (owner mode))) d = Inr (Directory A)" by (simp add: node_at_update)
  from node_at_child [OF this, of c] A(2)
  show "node_at P (f(d @ [c] \<mapsto> Directory (owner mode))) (d @ [c]) = Inr (Directory (owner mode))" by simp
qed

lemma MkdirAll_fresh:
  assumes "dir_open P f d" and "f (d @ [c]) = None" and "\<not> may P Exec (owner mode)"
  shows "\<exists>r. os_MkdirAll P (d @ c # ys) mode f = (r, f(d @ [c] \<mapsto> Directory (owner mode))) \<and> (r = None \<longleftrightarrow> ys = [])"
proof (induction ys rule: rev_induct)
  case Nil
  have "os_MkdirAll P d mode f = (None, f)" using MkdirAll_exists dir_open_is_dir [OF assms(1)] by blast
  with Mkdir_fresh(1) [OF assms(1,2), where mode = mode] node_at_missing [OF assms(1,2), of "[]"] show ?case
    by (subst os_MkdirAll.simps) (cases "d = []"; simp)
next
  case (snoc y ys)
  let ?f = "f(d @ [c] \<mapsto> Directory (owner mode))"
  have missing: "node_at P f (d @ c # ys @ [y]) = Inl ENOENT" by (rule node_at_missing [OF assms(1,2)])
  obtain r where r: "os_MkdirAll P (d @ c # ys) mode f = (r, ?f)" "r = None \<longleftrightarrow> ys = []" using snoc by blast
  have parent: "butlast (d @ c # ys @ [y]) = d @ c # ys" by (simp add: butlast_append)
  show ?case
  proof (cases r)
    case None
    have "create_at P ?f (d @ [c, y]) (Directory (owner mode)) = Inl EACCES"
      using Mkdir_fresh(2) [OF assms(1,2), where mode = mode] assms(3) by (simp add: create_at_def butlast_append)
    then have "os_Mkdir P (d @ [c, y]) mode ?f = (Some (PathError ''mkdir'' (d @ [c, y]) EACCES), ?f)"
      by (simp add: os_Mkdir_def)
    moreover have "node_at P ?f (d @ [c, y]) = Inl EACCES"
      using node_at_child [OF Mkdir_fresh(2) [OF assms(1,2), where mode = mode], of y] assms(3) by simp
    ultimately show ?thesis using None r missing parent
      by (subst os_MkdirAll.simps) (simp add: is_dir_def)
  next
    case (Some err)
    with r missing parent show ?thesis by (subst os_MkdirAll.simps) simp
  qed
qed

text \<open>C39: The helpers make directories that they cannot use. They make the missing directories of a file with the
  mode 0644, which lacks the permission to search: for a process that is not root the call fails, the first missing
  directory is left behind, and from then on every call for a file in or below that directory fails too and
  changes nothing.\<close>

theorem missing_directory_unusable:
  assumes "\<not> ps_root P" and "dir_open P f d" and "f (d @ [c]) = None" and "plain (d @ c # rest @ [n])"
  shows "\<exists>f'. f' = f(d @ [c] \<mapsto> Directory {Read, Write}) \<and>
    (\<exists>err. AppendFile P (abs_name (d @ c # rest @ [n])) data f = (Some err, f')) \<and>
    (\<exists>err. OverWriteFile P (abs_name (d @ c # rest @ [n])) data f = (Some err, f')) \<and>
    (\<forall>rest' n' data'. plain (rest' @ [n']) \<longrightarrow>
       (\<exists>err. AppendFile P (abs_name (d @ c # rest' @ [n'])) data' f' = (Some err, f')) \<and>
       (\<exists>err. OverWriteFile P (abs_name (d @ c # rest' @ [n'])) data' f' = (Some err, f')))"
proof -
  let ?f = "f(d @ [c] \<mapsto> Directory {Read, Write})" and ?p = "d @ c # rest @ [n]"
  have locked: "\<not> may P Exec {Read, Write}" using assms(1) by (simp add: may_def)
  have at: "node_at P ?f (d @ [c]) = Inr (Directory {Read, Write})"
    using Mkdir_fresh(2) [OF assms(2,3), where mode = mode_0644] by simp
  obtain r where r: "os_MkdirAll P (d @ c # rest) mode_0644 f = (r, ?f)" "r = None \<longleftrightarrow> rest = []"
    using MkdirAll_fresh [OF assms(2,3), of mode_0644 rest] locked by auto
  have dir: "path_of P (filepath_Dir (abs_name ?p)) = d @ c # rest"
    using assms(4) Dir_abs [of "d @ c # rest" n] path_of_abs [of "d @ c # rest" P] by simp
  have fails: "\<exists>err. writeFile P (abs_name ?p) data (openFunc ?p) f = (Some err, ?f)"
    if "\<And>p. node_at P ?f p = Inl EACCES \<Longrightarrow> \<exists>err. openFunc p ?f = (Inl err, ?f)" for openFunc
  proof (cases r)
    case None
    then have "node_at P ?f ?p = Inl EACCES" using r(2) node_at_child [OF at, of n] locked by simp
    from that [OF this] None r dir show ?thesis by (auto simp: writeFile_def)
  qed (use r dir in \<open>simp add: writeFile_def\<close>)
  have "\<exists>err. AppendFile P (abs_name ?p) data f = (Some err, ?f)" "\<exists>err. OverWriteFile P (abs_name ?p) data f = (Some err, ?f)"
    using fails [of "\<lambda>p. os_OpenFile P p {O_APPEND, O_WRONLY, O_CREATE} mode_0644"] fails [of "os_Create P"]
      path_of_abs [OF assms(4)]
    by (simp_all add: AppendFile_def OverWriteFile_def os_Create_def os_OpenFile_def Let_def)
  note first = this
  have "plain (rest' @ [n']) \<Longrightarrow> \<exists>err. AppendFile P (abs_name (d @ c # rest' @ [n'])) data' ?f = (Some err, ?f)"
    "plain (rest' @ [n']) \<Longrightarrow> \<exists>err. OverWriteFile P (abs_name (d @ c # rest' @ [n'])) data' ?f = (Some err, ?f)"
    for rest' n' data'
    using helpers_below [OF at locked, of rest' n' data'] assms(4) by simp_all
  with first show ?thesis by (intro exI [of _ ?f] conjI allI impI refl) assumption+
qed

section \<open>The tree stays a tree\<close>

definition tree :: "fs \<Rightarrow> bool" where
  "tree f \<longleftrightarrow> (\<exists>A. f [] = Some (Directory A)) \<and> (\<forall>p c. f (p @ [c]) \<noteq> None \<longrightarrow> (\<exists>A. f p = Some (Directory A)))"

text \<open>Directories stay as they are, files stay files with their permissions.\<close>

definition kept :: "fs \<Rightarrow> fs \<Rightarrow> bool" where
  "kept f f' \<longleftrightarrow> (tree f \<longrightarrow> tree f') \<and>
     (\<forall>p A. f p = Some (Directory A) \<longrightarrow> f' p = Some (Directory A)) \<and>
     (\<forall>p A s. f p = Some (File A s) \<longrightarrow> (\<exists>s'. f' p = Some (File A s')))"

lemma kept_refl [simp]: "kept f f"
  by (simp add: kept_def)

lemma kept_trans: "kept f g \<Longrightarrow> kept g h \<Longrightarrow> kept f h"
  unfolding kept_def by meson

lemma create_at_kept: "create_at P f p n = Inr f' \<Longrightarrow> kept f f'"
proof -
  assume *: "create_at P f p n = Inr f'"
  then have f': "f p = None" "f' = f(p \<mapsto> n)" "p \<noteq> []" by (auto simp: create_at_def split: sum.splits inode.splits if_splits)
  obtain A where A: "node_at P f (butlast p) = Inr (Directory A)"
    using * by (auto simp: create_at_def split: sum.splits inode.splits if_splits)
  have parent: "f (butlast p) = Some (Directory A)" by (rule node_at_node [OF A])
  have "tree f'" if "tree f"
    unfolding tree_def
  proof (intro conjI allI impI)
    show "\<exists>A. f' [] = Some (Directory A)" using that f' by (auto simp: tree_def)
    fix q c
    assume q: "f' (q @ [c]) \<noteq> None"
    show "\<exists>A. f' q = Some (Directory A)"
    proof (cases "q @ [c] = p")
      case True
      then have "q = butlast p" by auto
      with parent f' show ?thesis by auto
    next
      case False
      with q f' that show ?thesis by (fastforce simp: tree_def)
    qed
  qed
  with f' show ?thesis by (auto simp: kept_def)
qed

lemma new_text_kept:
  assumes "f p = Some (File A s)"
  shows "kept f (f(p \<mapsto> File A s'))"
proof -
  have "\<exists>B. (f(p \<mapsto> File A s')) q = Some (Directory B)" if "f q = Some (Directory B)" for q B
    using assms that by auto
  moreover have "f q \<noteq> None" if "(f(p \<mapsto> File A s')) q \<noteq> None" for q
    using assms that by (auto split: if_splits)
  ultimately have "tree (f(p \<mapsto> File A s'))" if "tree f"
    using that unfolding tree_def by blast
  with assms show ?thesis by (auto simp: kept_def)
qed

lemma file_Write_kept: "kept f (file_Write h data f)"
proof (cases "\<exists>A s. f (fd_path h) = Some (File A s)")
  case True
  then obtain A s s' where "f (fd_path h) = Some (File A s)" "file_Write h data f = f(fd_path h \<mapsto> File A s')"
    by (auto simp: file_Write_def Let_def)
  then show ?thesis by (simp add: new_text_kept)
qed (auto simp: file_Write_def split: option.split inode.split)

lemma Mkdir_kept: "os_Mkdir P p mode f = (r, f') \<Longrightarrow> kept f f'"
  by (auto simp: os_Mkdir_def split: sum.splits intro: create_at_kept)

lemma MkdirAll_kept: "os_MkdirAll P p mode f = (r, f') \<Longrightarrow> kept f f'"
proof (induction P p mode f arbitrary: r f' rule: os_MkdirAll.induct)
  case (1 P p mode f)
  show ?case
  proof (cases "node_at P f p")
    case (Inl e)
    obtain r1 f1 where f1: "(if length p > 1 then os_MkdirAll P (butlast p) mode f else (None, f)) = (r1, f1)"
      by (rule prod.exhaust)
    then have "kept f f1" using "1.IH" [OF Inl] by (auto split: if_splits)
    moreover have "kept f1 f'"
    proof (cases r1)
      case None
      with "1.prems" f1 Inl have "\<exists>r. os_Mkdir P p mode f1 = (r, f')"
        by (subst (asm) os_MkdirAll.simps) (auto split: option.splits prod.splits)
      then show ?thesis using Mkdir_kept by blast
    next
      case (Some err)
      with "1.prems" f1 Inl show ?thesis by (subst (asm) os_MkdirAll.simps) simp
    qed
    ultimately show ?thesis by (rule kept_trans)
  next
    case (Inr n)
    with "1.prems" show ?thesis by (subst (asm) os_MkdirAll.simps) (auto split: inode.splits)
  qed
qed

lemma OpenFile_kept: "os_OpenFile P p flags mode f = (r, f') \<Longrightarrow> kept f f'"
proof (cases "\<exists>A s. node_at P f p = Inr (File A s)")
  case True
  assume *: "os_OpenFile P p flags mode f = (r, f')"
  from True obtain A s where n: "node_at P f p = Inr (File A s)" by blast
  then have "f p = Some (File A s)" by (rule node_at_node)
  then have "kept f (f(p \<mapsto> File A ''''))" by (rule new_text_kept)
  with * n show ?thesis by (auto simp: os_OpenFile_def Let_def split: if_splits)
next
  case False
  assume "os_OpenFile P p flags mode f = (r, f')"
  with False show ?thesis
    by (auto simp: os_OpenFile_def Let_def split: sum.splits inode.splits if_splits intro: create_at_kept)
qed

lemma opened_kept:
  assumes "\<And>g r g'. openFunc g = (r, g') \<Longrightarrow> kept g g'"
  shows "kept f (snd (case openFunc f of (Inl err, f2) \<Rightarrow> (Some err, f2) | (Inr h, f2) \<Rightarrow> (e, file_Write h data f2)))"
proof (cases "openFunc f")
  case (Pair r g)
  with assms have "kept f g" by blast
  with Pair file_Write_kept kept_trans show ?thesis by (cases r) auto
qed

lemma writeFile_kept:
  assumes "\<And>g r g'. openFunc g = (r, g') \<Longrightarrow> kept g g'"
  shows "kept f (snd (writeFile P fn data openFunc f))"
proof (cases "os_MkdirAll P (path_of P (filepath_Dir fn)) mode_0644 f")
  case (Pair r f1)
  have "kept f1 (snd (case openFunc f1 of (Inl err, f2) \<Rightarrow> (Some err, f2) | (Inr h, f2) \<Rightarrow> (None, file_Write h data f2)))"
    by (rule opened_kept) (rule assms)
  with Pair MkdirAll_kept [OF Pair] kept_trans show ?thesis
    by (cases r) (auto simp: writeFile_def)
qed


section \<open>The certificate\<close>

text \<open>From the directory \<open>d\<close> on, the names \<open>rest\<close> lead through directories that the process can use, or are missing.\<close>

definition way :: "process \<Rightarrow> fs \<Rightarrow> path \<Rightarrow> path \<Rightarrow> bool" where
  "way P f d rest \<longleftrightarrow> dir_open P f d \<and>
     (\<forall>q n. prefix q rest \<and> q \<noteq> [] \<and> f (d @ q) = Some n \<longrightarrow> (\<exists>A. n = Directory A \<and> may P Exec A \<and> may P Write A))"

lemma way_snoc: "way P f d (rest @ [c]) \<Longrightarrow> way P f d rest"
  by (auto simp: way_def)

lemma dir_open_child:
  "dir_open P f d \<Longrightarrow> f (d @ [c]) = Some (Directory A) \<Longrightarrow> may P Exec A \<Longrightarrow> may P Write A \<Longrightarrow> dir_open P f (d @ [c])"
  by (auto simp: dir_open_def node_at_child)

lemma MkdirAll_way:
  "way P f d rest \<Longrightarrow> \<exists>f'. os_MkdirAll P (d @ rest) mode_0755 f = (None, f') \<and> dir_open P f' (d @ rest) \<and>
     (\<forall>p. \<not> (prefix p (d @ rest) \<and> p \<noteq> [] \<and> f p = None) \<longrightarrow> f' p = f p) \<and>
     (\<forall>p. f p = None \<longrightarrow> f' p = None \<or> f' p = Some (Directory (owner mode_0755)))"
proof (induction rest rule: rev_induct)
  case Nil
  then have "dir_open P f d" by (simp add: way_def)
  then show ?case using MkdirAll_exists dir_open_is_dir by auto
next
  case (snoc c rest)
  let ?p = "d @ rest @ [c]"
  from snoc.IH [OF way_snoc [OF snoc.prems]] obtain f1 where f1: "os_MkdirAll P (d @ rest) mode_0755 f = (None, f1)"
    "dir_open P f1 (d @ rest)" "\<forall>p. \<not> (prefix p (d @ rest) \<and> p \<noteq> [] \<and> f p = None) \<longrightarrow> f1 p = f p"
    "\<forall>p. f p = None \<longrightarrow> f1 p = None \<or> f1 p = Some (Directory (owner mode_0755))"
    by blast
  have f1p: "f1 ?p = f ?p" using f1(3) by (auto simp: prefix_def)
  have pre: "prefix q (d @ rest) \<Longrightarrow> prefix q ?p" for q
    using prefix_prefix [of q "d @ rest" "[c]"] by simp
  have usable: "dir_open P f1 ?p" if "f ?p = Some n" for n
  proof -
    from snoc.prems that obtain A where "n = Directory A" "may P Exec A" "may P Write A"
      unfolding way_def by (metis append_is_Nil_conv not_Cons_self2 prefix_order.refl)
    with dir_open_child [OF f1(2), of c A] f1p that show ?thesis by simp
  qed
  show ?case
  proof (cases "is_dir (node_at P f ?p)")
    case True
    then obtain A where A: "node_at P f ?p = Inr (Directory A)" by (auto simp: is_dir_def split: sum.splits inode.splits)
    from node_at_node [OF A] snoc.prems have "may P Exec A" "may P Write A" unfolding way_def
      by (metis append_is_Nil_conv inode.inject(1) not_Cons_self2 prefix_order.refl)+
    with A True show ?thesis by (intro exI [of _ f]) (auto simp: MkdirAll_exists dir_open_def)
  next
    case False
    have not_file: "node_at P f ?p \<noteq> Inr (File A s)" for A s
      using node_at_node [of P f ?p "File A s"] snoc.prems unfolding way_def
      by (metis append_is_Nil_conv inode.distinct(1) not_Cons_self2 prefix_order.refl)
    obtain e where e: "node_at P f ?p = Inl e"
      using False not_file by (auto simp: is_dir_def split: sum.splits inode.splits)
    have first: "(if length ?p > 1 then os_MkdirAll P (butlast ?p) mode_0755 f else (None, f)) = (None, f1)"
      using f1(1) MkdirAll_exists [of P f "[]"] snoc.prems
      by (cases "d @ rest = []") (auto simp: butlast_append way_def dir_open_def is_dir_def)
    have step: "os_MkdirAll P ?p mode_0755 f = (case os_Mkdir P ?p mode_0755 f1 of
        (Some err, f2) \<Rightarrow> (if is_dir (node_at P f2 ?p) then None else Some err, f2) | (None, f2) \<Rightarrow> (None, f2))"
      by (subst os_MkdirAll.simps) (simp only: e first sum.case prod.case option.case)
    show ?thesis
    proof (cases "f ?p")
      case None
      with f1p have missing: "f1 ((d @ rest) @ [c]) = None" by simp
      have "os_MkdirAll P ?p mode_0755 f = (None, f1(?p \<mapsto> Directory (owner mode_0755)))"
        using step Mkdir_fresh(1) [OF f1(2) missing] by simp
      moreover have "dir_open P (f1(?p \<mapsto> Directory (owner mode_0755))) ?p"
        using Mkdir_fresh(2) [OF f1(2) missing, where mode = mode_0755] by (simp add: dir_open_def)
      ultimately show ?thesis using f1(3,4) None pre by auto
    next
      case (Some n)
      from usable [OF this] have open1: "dir_open P f1 ?p" .
      then have "os_MkdirAll P ?p mode_0755 f = (None, f1)"
        using step Some f1p f1(2) dir_open_is_dir [OF open1]
        by (auto simp: dir_open_def os_Mkdir_def create_at_def butlast_append)
      with open1 f1(3,4) pre show ?thesis by auto
    qed
  qed
qed


lemma UserCrt_abs:
  assumes "plain h" and "h \<noteq> []"
  shows "UserCrt (abs_name h) = abs_name (h @ [''mysh'', ''cert''] @ [''www.myshell.top.crt''])"
proof -
  have "join_with (CHR ''/'') (h @ [''mysh'', ''cert''] @ [''www.myshell.top.crt'']) =
      join_with (CHR ''/'') h @ ''/mysh/cert/www.myshell.top.crt''"
    using assms(2) join_snoc [of h "CHR ''/''" "''mysh''"] join_snoc [of "h @ [''mysh'']" "CHR ''/''" "''cert''"]
      join_snoc [of "h @ [''mysh'', ''cert'']" "CHR ''/''" "''www.myshell.top.crt''"] by simp
  then have "UserCrt (abs_name h) = filepath_Clean (abs_name (h @ [''mysh'', ''cert''] @ [''www.myshell.top.crt'']))"
    by (simp add: UserCrt_def filepath_Join_def)
  also have "\<dots> = abs_name (h @ [''mysh'', ''cert''] @ [''www.myshell.top.crt''])"
    by (rule Clean_abs) (use assms(1) in \<open>simp add: plain_name_def\<close>)
  finally show ?thesis .
qed

lemma PullCert_home:
  assumes "plain h" and "h \<noteq> []" and "way P f h [''mysh'', ''cert'']"
    and "writable P f (h @ [''mysh'', ''cert'', ''www.myshell.top.crt''])"
    and "http_Get ''https://www.myshell.top:443/get_cert'' = Inr resp" and "rs_ReadNone resp = None"
  shows "\<exists>f1 A. PullCert P (UserCrt (abs_name h)) http_Get f =
      (rs_BodyErr resp, f1(h @ [''mysh'', ''cert'', ''www.myshell.top.crt''] \<mapsto> File A (rs_Body resp))) \<and>
    dir_open P f1 (h @ [''mysh'', ''cert'']) \<and> may P Read A"
proof -
  let ?d = "h @ [''mysh'', ''cert'']" and ?c = "''www.myshell.top.crt''"
  have plain: "plain ?d" "plain_name ?c" using assms(1) by (simp_all add: plain_name_def)
  obtain f1 where f1: "os_MkdirAll P ?d mode_0755 f = (None, f1)" "dir_open P f1 ?d"
    "f1 (?d @ [?c]) = f (?d @ [?c])"
    using MkdirAll_way [OF assms(3)] by (auto simp: prefix_def)
  have "writable P f1 (?d @ [?c])" using assms(4) f1(3) by (simp add: writable_def)
  from open_in_dir [OF f1(2) this, of "{O_RDWR, O_CREATE, O_TRUNC}" mode_0666] obtain A where
    A: "may P Read A" "os_Create P (?d @ [?c]) f1 = (Inr \<lparr>fd_path = ?d @ [?c], fd_append = False, fd_offset = 0\<rparr>, f1(?d @ [?c] \<mapsto> File A ''''))"
    by (auto simp: os_Create_def)
  have crt: "UserCrt (abs_name h) = abs_name (?d @ [?c])" using UserCrt_abs [OF assms(1,2)] by simp
  have paths: "path_of P (filepath_Dir (abs_name (?d @ [?c]))) = ?d" "path_of P (abs_name (?d @ [?c])) = ?d @ [?c]"
    using plain by (simp_all only: Dir_abs path_of_abs plain_simps simp_thms)
  have "''https://'' @ cons_Domain @ '':443/get_cert'' = ''https://www.myshell.top:443/get_cert''" by (simp add: cons_Domain_def)
  note url = this
  have "PullCert P (UserCrt (abs_name h)) http_Get f = (rs_BodyErr resp, f1(?d @ [?c] \<mapsto> File A (rs_Body resp)))"
    unfolding PullCert_def crt url Let_def paths
    by (simp only: assms(5,6) f1(1) A(2) sum.case option.case prod.case) (simp add: file_Write_def)
  with f1(2) A(1) show ?thesis by auto
qed

text \<open>The client keeps any answer as its certificate. If its home directory and what there is of
  \<^verbatim>\<open>mysh/cert\<close> in it can be used, then after \<^verbatim>\<open>PullCert\<close> the certificate file holds the body that
  the server sent, in place of what was there before, and the result is the error of the transfer: the status of
  the answer, an error of the server among them, is not looked at.\<close>

theorem PullCert_stores_answer:
  assumes "plain h" and "h \<noteq> []" and "way P f h [''mysh'', ''cert'']"
    and "writable P f (h @ [''mysh'', ''cert'', ''www.myshell.top.crt''])"
    and "http_Get ''https://www.myshell.top:443/get_cert'' = Inr resp" and "rs_ReadNone resp = None"
  shows "\<exists>f'. PullCert P (UserCrt (abs_name h)) http_Get f = (rs_BodyErr resp, f') \<and>
    text_at f' (h @ [''mysh'', ''cert'', ''www.myshell.top.crt'']) = Some (rs_Body resp)"
  using PullCert_home [where http_Get = http_Get, OF assms] by (auto simp: text_at_def)

section \<open>Log files\<close>

text \<open>The log file, which the shell client and its helper open in the same way when they start.\<close>

definition open_log :: "process \<Rightarrow> string \<Rightarrow> string \<Rightarrow> fs \<Rightarrow> (error + osFile) \<times> fs" where
  "open_log P logDir name f =
     (case os_MkdirAll P (path_of P logDir) mode_0755 f of
        (Some err, f1) \<Rightarrow> (Inl err, f1)
      | (None, f1) \<Rightarrow> os_OpenFile P (path_of P (filepath_Join [logDir, name])) {O_WRONLY, O_APPEND, O_CREATE} mode_0644 f1)"

lemma join_append:
  "cs \<noteq> [] \<Longrightarrow> ds \<noteq> [] \<Longrightarrow> join_with sep (cs @ ds) = join_with sep cs @ sep # join_with sep ds"
proof (induction cs rule: join_with.induct [of _ sep])
  case (2 s w)
  then show ?case by (cases ds) simp_all
qed simp_all

lemma Join_abs:
  assumes "plain cs" and "cs \<noteq> []" and "plain ds" and "ds \<noteq> []"
  shows "filepath_Join [abs_name cs, join_with (CHR ''/'') ds] = abs_name (cs @ ds)"
proof -
  have "filepath_Join [abs_name cs, join_with (CHR ''/'') ds] = filepath_Clean (abs_name (cs @ ds))"
    by (simp add: filepath_Join_def join_append [OF assms(2,4)])
  also have "\<dots> = abs_name (cs @ ds)" by (rule Clean_abs) (simp add: assms)
  finally show ?thesis .
qed

lemma node_at_kept:
  assumes "\<And>q A. f q = Some (Directory A) \<Longrightarrow> g q = Some (Directory A)"
  shows "resolve P f d cs = Inr (Directory B) \<Longrightarrow> resolve P g d cs = Inr (Directory B)"
proof (induction cs arbitrary: d)
  case Nil
  then show ?case using assms by (auto split: option.splits)
next
  case (Cons c cs)
  then obtain A where A: "f d = Some (Directory A)" by (auto split: option.splits inode.splits)
  with Cons assms [OF A] show ?case by (auto split: if_splits)
qed

lemma way_kept:
  assumes "way P f d rest" and "kept f g"
    and "\<And>q. prefix q rest \<Longrightarrow> q \<noteq> [] \<Longrightarrow> g (d @ q) = f (d @ q) \<or> g (d @ q) = Some (Directory (owner mode_0755))"
  shows "way P g d rest"
proof -
  have "dir_open P g d" using assms(1,2) node_at_kept [of f g P "[]" d]
    by (auto simp: way_def dir_open_def kept_def)
  moreover have "\<exists>A. n = Directory A \<and> may P Exec A \<and> may P Write A"
    if "prefix q rest" "q \<noteq> []" "g (d @ q) = Some n" for q n
    using assms(1) assms(3) [OF that(1,2)] that by (auto simp: way_def)
  ultimately show ?thesis unfolding way_def by blast
qed

text \<open>The log file of a program in a directory below the home directory.\<close>

lemma open_log_home:
  assumes "plain h" and "h \<noteq> []" and "plain rest" and "plain_name c" and "way P f h rest" and "writable P f (h @ rest @ [c])"
  shows "\<exists>fd f'. open_log P (abs_name (h @ rest)) c f = (Inr fd, f') \<and> kept f f' \<and>
    (\<forall>q. q \<noteq> h @ rest @ [c] \<longrightarrow> f' q = f q \<or> prefix q (h @ rest) \<and> f' q = Some (Directory (owner mode_0755)))"
proof -
  from MkdirAll_way [OF assms(5)] obtain f1 where f1: "os_MkdirAll P (h @ rest) mode_0755 f = (None, f1)"
    "dir_open P f1 (h @ rest)" "\<And>p. \<not> (prefix p (h @ rest) \<and> p \<noteq> [] \<and> f p = None) \<Longrightarrow> f1 p = f p"
    "\<And>p. f p = None \<Longrightarrow> f1 p = None \<or> f1 p = Some (Directory (owner mode_0755))" by blast
  have "f1 ((h @ rest) @ [c]) = f ((h @ rest) @ [c])" by (rule f1(3)) (auto simp: prefix_def)
  then have "writable P f1 ((h @ rest) @ [c])" using assms(6) by (simp add: writable_def)
  from open_in_dir [OF f1(2) this, of "{O_WRONLY, O_APPEND, O_CREATE}" mode_0644] obtain fd A s where
    fd: "os_OpenFile P ((h @ rest) @ [c]) {O_WRONLY, O_APPEND, O_CREATE} mode_0644 f1 =
      (Inr fd, f1((h @ rest) @ [c] \<mapsto> File A s))" by auto
  have name: "path_of P (filepath_Join [abs_name (h @ rest), c]) = (h @ rest) @ [c]"
    using Join_abs [of "h @ rest" "[c]"] path_of_abs [of "(h @ rest) @ [c]" P] assms(1-4) by simp
  have "path_of P (abs_name (h @ rest)) = h @ rest" using path_of_abs assms(1,3) by simp
  with f1(1) fd name have "open_log P (abs_name (h @ rest)) c f = (Inr fd, f1((h @ rest) @ [c] \<mapsto> File A s))"
    unfolding open_log_def by (simp only: prod.case option.case)
  moreover have "kept f (f1((h @ rest) @ [c] \<mapsto> File A s))"
    using kept_trans [OF MkdirAll_kept [OF f1(1)] OpenFile_kept [OF fd]] .
  moreover have "f1 q = f q \<or> prefix q (h @ rest) \<and> f1 q = Some (Directory (owner mode_0755))" for q
    using f1(3,4) [of q] by (cases "f q"; cases "prefix q (h @ rest)") auto
  ultimately show ?thesis by (intro exI conjI allI impI) (assumption, assumption, simp)
qed

section \<open>Small file systems\<close>

definition alice :: process where
  "alice = \<lparr>ps_root = False, ps_cwd = [''home'', ''alice'']\<rparr>"

definition home_fs :: fs where
  "home_fs = [[] \<mapsto> Directory {Read, Exec}, [''home''] \<mapsto> Directory {Read, Exec},
     [''home'', ''alice''] \<mapsto> Directory {Read, Write, Exec},
     [''home'', ''alice'', ''notes''] \<mapsto> File {Read, Write} ''a'']"

lemma home_open: "dir_open alice home_fs [''home'', ''alice'']"
  by (simp add: dir_open_def home_fs_def alice_def may_def)

theorem files_keep_what_is_written_witness:
  "\<exists>f'. file_calls alice [''home'', ''alice''] [Append ''notes'' ''b'', OverWrite ''log'' ''x'', Append ''log'' ''y''] home_fs = (None, f') \<and>
     text_at f' [''home'', ''alice'', ''notes''] = Some ''ab'' \<and> text_at f' [''home'', ''alice'', ''log''] = Some ''xy''"
proof -
  let ?ops = "[Append ''notes'' ''b'', OverWrite ''log'' ''x'', Append ''log'' ''y'']" and ?d = "[''home'', ''alice'']"
  have "plain ?d" "\<forall>op \<in> set ?ops. plain_name (file_name op)" by (simp_all add: plain_name_def)
  moreover have "\<forall>op \<in> set ?ops. writable alice home_fs (?d @ [file_name op])"
    by (simp add: writable_def home_fs_def)
  ultimately obtain f' where f': "file_calls alice ?d ?ops home_fs = (None, f')"
    "\<forall>n. text_at f' (?d @ [n]) = fold file_effect ?ops (\<lambda>n. text_at home_fs (?d @ [n])) n"
    using files_keep_what_is_written [of ?d ?ops alice home_fs] home_open by blast
  have "fold file_effect ?ops (\<lambda>n. text_at home_fs (?d @ [n])) ''notes'' = Some ''ab''"
    "fold file_effect ?ops (\<lambda>n. text_at home_fs (?d @ [n])) ''log'' = Some ''xy''"
    by (simp_all add: text_at_def home_fs_def)
  with f'(2) [rule_format, of "''notes''"] f'(2) [rule_format, of "''log''"] f'(1) show ?thesis by auto
qed

theorem missing_directory_unusable_witness:
  "\<exists>f' err err'. AppendFile alice ''/home/alice/mysh/history'' ''ls'' home_fs = (Some err, f') \<and>
     f' [''home'', ''alice'', ''mysh''] = Some (Directory {Read, Write}) \<and>
     OverWriteFile alice ''/home/alice/mysh/token'' ''x'' f' = (Some err', f')"
proof -
  have names: "abs_name ([''home'', ''alice''] @ ''mysh'' # [] @ [''history'']) = ''/home/alice/mysh/history''"
    "abs_name ([''home'', ''alice''] @ ''mysh'' # [] @ [''token'']) = ''/home/alice/mysh/token''" by simp_all
  have hyps: "\<not> ps_root alice" "home_fs ([''home'', ''alice''] @ [''mysh'']) = None"
    "plain ([''home'', ''alice''] @ ''mysh'' # [] @ [''history''])" "plain ([] @ [''token''])"
    by (simp_all add: alice_def home_fs_def plain_name_def)
  let ?f = "home_fs([''home'', ''alice''] @ [''mysh''] \<mapsto> Directory {Read, Write})"
  from missing_directory_unusable [OF hyps(1) home_open hyps(2,3), of "''ls''"] hyps(4) obtain err err' where
    "AppendFile alice ''/home/alice/mysh/history'' ''ls'' home_fs = (Some err, ?f)"
    "OverWriteFile alice ''/home/alice/mysh/token'' ''x'' ?f = (Some err', ?f)"
    unfolding names(1) by (metis names(2))
  then show ?thesis by (intro exI [of _ ?f] exI [of _ err] exI [of _ err']) simp
qed

theorem PullCert_stores_answer_witness:
  "\<exists>f'. PullCert alice (UserCrt ''/home/alice'')
      (\<lambda>_. Inr \<lparr>rs_StatusCode = 503, rs_ReadNone = None, rs_Body = ''load crt error'', rs_BodyErr = None\<rparr>) home_fs = (None, f') \<and>
     text_at f' [''home'', ''alice'', ''mysh'', ''cert'', ''www.myshell.top.crt''] = Some ''load crt error''"
proof -
  let ?h = "[''home'', ''alice'']"
  have "way alice home_fs ?h [''mysh'', ''cert'']" using home_open
    by (auto simp: way_def home_fs_def prefix_Cons)
  moreover have "writable alice home_fs (?h @ [''mysh'', ''cert'', ''www.myshell.top.crt''])"
    by (simp add: writable_def home_fs_def)
  moreover have "plain ?h" by (simp add: plain_name_def)
  ultimately show ?thesis
    using PullCert_stores_answer [of ?h alice home_fs
        "\<lambda>_. Inr \<lparr>rs_StatusCode = 503, rs_ReadNone = None, rs_Body = ''load crt error'', rs_BodyErr = None\<rparr>"]
    by simp
qed

end
