(* ===== verification/Terminal.thy ===== *)
theory Terminal
  imports Shell
begin

text \<open>
  The session with bash: \<^verbatim>\<open>Run\<close> of \<^verbatim>\<open>cmd/mysh/mysh.go\<close>, and the buffer in which its goroutines pass the bytes
  for bash.  The theory shows that the buffer, which has no lock, can lose a byte or end the program with a panic,
  and that with a lock it would keep all bytes in order.
\<close>

section \<open>Run\<close>

text \<open>
  \<open>PtyStart\<close> starts bash with an environment on a new pseudo terminal, and gives its process number; \<open>raw\<close> is the
  error of setting the terminal raw.  \<open>polls\<close> are the results of the reads of the typed bytes until bash ends; changes of
  the window size have no effect on them.  At the end the terminal is set back.
\<close>

definition prompt_command :: string where
  "prompt_command = ''PROMPT_COMMAND=/usr/bin/mysh-agent $(history 1 | { read x cmd; echo '' @
     [CHR 0x22] @ ''$cmd'' @ [CHR 0x22] @ ''; })''"

definition Run ::
  "(string list \<Rightarrow> error + int) \<Rightarrow> error option \<Rightarrow> 'w client_env \<Rightarrow> (string \<Rightarrow> 'w \<Rightarrow> string \<times> 'w) \<Rightarrow> string list \<Rightarrow> input \<Rightarrow>
     'w shell \<Rightarrow> (error option \<times> 'w shell) outcome option"
where
  "Run PtyStart raw E bash environ polls s =
     (case PtyStart (environ @ [prompt_command]) of
        Inl err \<Rightarrow> Some (Ok (Some err, s))
      | Inr bashPid \<Rightarrow>
          (case raw of
             Some err \<Rightarrow> Some (Panic (error_msg err))
           | None \<Rightarrow> lbind (dispatch E bash bashPid polls s) (\<lambda>s1. Some (Ok (None, s1)))))"

section \<open>The buffer between the goroutines\<close>

text \<open>
  \<^verbatim>\<open>bashinBuffer\<close> is a \<^verbatim>\<open>bytes.Buffer\<close>, its bytes and the offset of the first unread one.  The goroutine that
  dispatches typed bytes calls \<^verbatim>\<open>WriteByte\<close>, which makes the buffer longer and then stores the byte in the new place,
  where there is an old byte first.  The goroutine that copies to bash calls \<^verbatim>\<open>Read\<close>: if there is nothing to read
  it resets the buffer, otherwise it takes what there is, up to the size of its own buffer.  \<open>pp_todo\<close> and
  \<open>pp_got\<close> are the bytes still to be written and those read.  With \<open>locked\<close> a call waits for the other one to end.
\<close>

datatype writer = WriterIdle | Grown nat char

datatype reader = ReaderIdle | SeenEmpty

record pipe =
  pp_buf :: string
  pp_off :: nat
  pp_writer :: writer
  pp_reader :: reader
  pp_panic :: bool
  pp_todo :: string
  pp_got :: string

definition pipe_start :: "string \<Rightarrow> pipe" where
  "pipe_start cs = \<lparr>pp_buf = '''', pp_off = 0, pp_writer = WriterIdle, pp_reader = ReaderIdle, pp_panic = False,
     pp_todo = cs, pp_got = ''''\<rparr>"

inductive pipe_step :: "bool \<Rightarrow> pipe \<Rightarrow> pipe \<Rightarrow> bool" for locked where
  grow: "\<not> pp_panic p \<Longrightarrow> pp_writer p = WriterIdle \<Longrightarrow> pp_todo p = c # cs \<Longrightarrow> (locked \<longrightarrow> pp_reader p = ReaderIdle) \<Longrightarrow>
    pipe_step locked p (p\<lparr>pp_buf := pp_buf p @ [old], pp_writer := Grown (length (pp_buf p)) c, pp_todo := cs\<rparr>)"
| store: "\<not> pp_panic p \<Longrightarrow> pp_writer p = Grown m c \<Longrightarrow> m < length (pp_buf p) \<Longrightarrow>
    pipe_step locked p (p\<lparr>pp_buf := (pp_buf p)[m := c], pp_writer := WriterIdle\<rparr>)"
| out_of_range: "\<not> pp_panic p \<Longrightarrow> pp_writer p = Grown m c \<Longrightarrow> length (pp_buf p) \<le> m \<Longrightarrow>
    pipe_step locked p (p\<lparr>pp_panic := True\<rparr>)"
| read: "\<not> pp_panic p \<Longrightarrow> pp_reader p = ReaderIdle \<Longrightarrow> pp_off p < length (pp_buf p) \<Longrightarrow> (locked \<longrightarrow> pp_writer p = WriterIdle) \<Longrightarrow>
    got = take copy_buf (drop (pp_off p) (pp_buf p)) \<Longrightarrow>
    pipe_step locked p (p\<lparr>pp_off := pp_off p + length got, pp_got := pp_got p @ got\<rparr>)"
| see_empty: "\<not> pp_panic p \<Longrightarrow> pp_reader p = ReaderIdle \<Longrightarrow> length (pp_buf p) \<le> pp_off p \<Longrightarrow> (locked \<longrightarrow> pp_writer p = WriterIdle) \<Longrightarrow>
    pipe_step locked p (p\<lparr>pp_reader := SeenEmpty\<rparr>)"
| reset: "\<not> pp_panic p \<Longrightarrow> pp_reader p = SeenEmpty \<Longrightarrow>
    pipe_step locked p (p\<lparr>pp_buf := '''', pp_off := 0, pp_reader := ReaderIdle\<rparr>)"

definition pipe_done :: "pipe \<Rightarrow> bool" where
  "pipe_done p \<longleftrightarrow> \<not> pp_panic p \<and> pp_writer p = WriterIdle \<and> pp_reader p = ReaderIdle \<and> pp_todo p = [] \<and>
     length (pp_buf p) \<le> pp_off p"

text \<open>The bytes in the buffer that are not read, with the one that is being stored.\<close>

definition pp_unread :: "pipe \<Rightarrow> string" where
  "pp_unread p = (case pp_writer p of
     WriterIdle \<Rightarrow> drop (pp_off p) (pp_buf p)
   | Grown m c \<Rightarrow> drop (pp_off p) (take m (pp_buf p)) @ [c])"

definition pipe_inv :: "string \<Rightarrow> pipe \<Rightarrow> bool" where
  "pipe_inv cs p \<longleftrightarrow> \<not> pp_panic p \<and> pp_off p \<le> length (pp_buf p) \<and> pp_got p @ pp_unread p @ pp_todo p = cs \<and>
     (\<forall>m c. pp_writer p = Grown m c \<longrightarrow> length (pp_buf p) = Suc m \<and> pp_off p \<le> m \<and> pp_reader p = ReaderIdle) \<and>
     (pp_reader p = SeenEmpty \<longrightarrow> pp_off p = length (pp_buf p))"

lemma take_split: "xs = take n xs @ drop (length (take n xs)) xs"
  by (cases "n \<le> length xs") simp_all

lemma pipe_step_inv: "pipe_step True p q \<Longrightarrow> pipe_inv cs p \<Longrightarrow> pipe_inv cs q"
proof (induction rule: pipe_step.induct)
  case (store p m c)
  then have "length (pp_buf p) = Suc m" "pp_off p \<le> m" by (auto simp: pipe_inv_def)
  then have "drop (pp_off p) ((pp_buf p)[m := c]) = drop (pp_off p) (take m (pp_buf p)) @ [c]"
    by (simp add: list_eq_iff_nth_eq nth_append nth_list_update less_Suc_eq) arith
  with store show ?case by (auto simp: pipe_inv_def pp_unread_def)
next
  case (read p got)
  let ?xs = "drop (pp_off p) (pp_buf p)"
  have "?xs = got @ drop (length got) ?xs" by (simp only: read(5)) (rule take_split)
  then have "?xs = got @ drop (pp_off p + length got) (pp_buf p)" by (simp add: add.commute)
  moreover have "length got \<le> length (pp_buf p) - pp_off p" by (simp add: read(5))
  then have "pp_off p + length got \<le> length (pp_buf p)" using read(3) by arith
  ultimately
  show ?case using read by (auto simp: pipe_inv_def pp_unread_def)
qed (auto simp: pipe_inv_def pp_unread_def split: writer.splits)

lemma pipe_reach_inv: "(pipe_step True)\<^sup>*\<^sup>* (pipe_start cs) p \<Longrightarrow> pipe_inv cs p"
proof (induction rule: rtranclp_induct)
  case base
  show ?case by (simp add: pipe_inv_def pipe_start_def pp_unread_def)
qed (rule pipe_step_inv)

text \<open>Runs from one reset buffer to the next.\<close>

definition at_rest :: "string \<Rightarrow> string \<Rightarrow> pipe" where
  "at_rest g cs = (pipe_start cs)\<lparr>pp_got := g\<rparr>"

lemma pipe_passes_byte: "(pipe_step L)\<^sup>*\<^sup>* (at_rest g (c # cs)) (at_rest (g @ [c]) cs)"
proof -
  define p1 where "p1 = (at_rest g cs)\<lparr>pp_buf := [c], pp_writer := Grown 0 c\<rparr>"
  define p2 where "p2 = p1\<lparr>pp_writer := WriterIdle\<rparr>"
  define p3 where "p3 = p2\<lparr>pp_off := 1, pp_got := g @ [c]\<rparr>"
  define p4 where "p4 = p3\<lparr>pp_reader := SeenEmpty\<rparr>"
  have one: "take copy_buf [c] = [c]" by (rule take_all) (simp add: copy_buf_def)
  have "pipe_step L (at_rest g (c # cs)) p1"
    using pipe_step.grow [of "at_rest g (c # cs)" c cs L c] by (simp add: p1_def at_rest_def pipe_start_def)
  moreover have "pipe_step L p1 p2"
    using pipe_step.store [of p1 0 c L] by (simp add: p1_def p2_def at_rest_def pipe_start_def)
  moreover have "pipe_step L p2 (p2\<lparr>pp_off := pp_off p2 + length [c], pp_got := pp_got p2 @ [c]\<rparr>)"
    by (rule pipe_step.read) (simp_all add: p1_def p2_def at_rest_def pipe_start_def one)
  then have "pipe_step L p2 p3" by (simp add: p1_def p2_def p3_def at_rest_def pipe_start_def)
  moreover have "pipe_step L p3 p4"
    using pipe_step.see_empty [of p3 L] by (simp add: p1_def p2_def p3_def p4_def at_rest_def pipe_start_def)
  moreover have "pipe_step L p4 (at_rest (g @ [c]) cs)"
    using pipe_step.reset [of p4 L] by (simp add: p1_def p2_def p3_def p4_def at_rest_def pipe_start_def)
  ultimately show ?thesis by (meson rtranclp.rtrancl_refl rtranclp.rtrancl_into_rtrancl)
qed

lemma pipe_passes_all: "(pipe_step L)\<^sup>*\<^sup>* (at_rest g cs) (at_rest (g @ cs) [])"
proof (induction cs arbitrary: g)
  case (Cons c cs)
  from rtranclp_trans [OF pipe_passes_byte Cons.IH] show ?case by simp
qed simp

text \<open>Without a lock a byte can be written between the look at the empty buffer and its reset.\<close>

lemma race_states:
  "\<exists>p. (pipe_step False)\<^sup>*\<^sup>* (at_rest g (c # cs)) p \<and> pp_panic p"
  "(pipe_step False)\<^sup>*\<^sup>* (at_rest g (c # cs)) (at_rest g cs)"
proof -
  define p1 where "p1 = (at_rest g (c # cs))\<lparr>pp_reader := SeenEmpty\<rparr>"
  define p2 where "p2 = (at_rest g cs)\<lparr>pp_reader := SeenEmpty, pp_buf := [c], pp_writer := Grown 0 c\<rparr>"
  define p3 where "p3 = (at_rest g cs)\<lparr>pp_reader := SeenEmpty, pp_buf := [c]\<rparr>"
  define p4 where "p4 = (at_rest g cs)\<lparr>pp_writer := Grown 0 c\<rparr>"
  note states = p1_def p2_def p3_def p4_def at_rest_def pipe_start_def
  have "pipe_step False (at_rest g (c # cs)) p1"
    using pipe_step.see_empty [of "at_rest g (c # cs)" False] by (simp add: states)
  moreover have "pipe_step False p1 p2"
    using pipe_step.grow [of p1 c cs False c] by (simp add: states)
  ultimately have to_p2: "(pipe_step False)\<^sup>*\<^sup>* (at_rest g (c # cs)) p2" by simp
  have "pipe_step False p2 p3" using pipe_step.store [of p2 0 c False] by (simp add: states)
  moreover have "pipe_step False p3 (at_rest g cs)" using pipe_step.reset [of p3 False] by (simp add: states)
  ultimately show "(pipe_step False)\<^sup>*\<^sup>* (at_rest g (c # cs)) (at_rest g cs)"
    using to_p2 by (meson rtranclp.rtrancl_into_rtrancl)
  have "pipe_step False p2 p4" using pipe_step.reset [of p2 False] by (simp add: states)
  moreover have "pipe_step False p4 (p4\<lparr>pp_panic := True\<rparr>)"
    using pipe_step.out_of_range [of p4 0 c False] by (simp add: states)
  ultimately have "(pipe_step False)\<^sup>*\<^sup>* (at_rest g (c # cs)) (p4\<lparr>pp_panic := True\<rparr>)"
    using to_p2 by (meson rtranclp.rtrancl_into_rtrancl)
  then show "\<exists>p. (pipe_step False)\<^sup>*\<^sup>* (at_rest g (c # cs)) p \<and> pp_panic p" by (intro exI conjI) (assumption, simp)
qed

text \<open>C25: The buffer for bash can lose typed bytes. If its calls excluded each other, then whatever the
  interleaving, all bytes would reach bash once and in order, and no call would panic. But the two goroutines use the
  buffer without a lock: it is reachable that the first byte is stored in a buffer that is then reset, so that
  everything is done and bash gets only the other bytes, and it is reachable that the byte is stored outside of the
  reset buffer, which panics and ends the program.\<close>

theorem bytes_for_bash_race:
  "(\<forall>p. (pipe_step True)\<^sup>*\<^sup>* (pipe_start typed) p \<longrightarrow>
      \<not> pp_panic p \<and> prefix (pp_got p) typed \<and> (pipe_done p \<longrightarrow> pp_got p = typed)) \<and>
   (\<exists>p. (pipe_step False)\<^sup>*\<^sup>* (pipe_start (c # cs)) p \<and> pipe_done p \<and> pp_got p = cs) \<and>
   (\<exists>p. (pipe_step False)\<^sup>*\<^sup>* (pipe_start (c # cs)) p \<and> pp_panic p)"
proof (intro conjI allI impI)
  fix p
  assume "(pipe_step True)\<^sup>*\<^sup>* (pipe_start typed) p"
  then have inv: "pipe_inv typed p" by (rule pipe_reach_inv)
  then show "\<not> pp_panic p" "prefix (pp_got p) typed" by (auto simp: pipe_inv_def prefix_def)
  show "pp_got p = typed" if "pipe_done p" using inv that by (auto simp: pipe_inv_def pipe_done_def pp_unread_def)
next
  have start: "pipe_start ds = at_rest '''' ds" for ds by (simp add: at_rest_def pipe_start_def)
  from rtranclp_trans [OF race_states(2) pipe_passes_all [of False "''''" cs]]
  have "(pipe_step False)\<^sup>*\<^sup>* (pipe_start (c # cs)) (at_rest cs [])" by (simp add: start)
  then show "\<exists>p. (pipe_step False)\<^sup>*\<^sup>* (pipe_start (c # cs)) p \<and> pipe_done p \<and> pp_got p = cs"
    by (intro exI conjI) (assumption, simp_all add: at_rest_def pipe_start_def pipe_done_def)
  show "\<exists>p. (pipe_step False)\<^sup>*\<^sup>* (pipe_start (c # cs)) p \<and> pp_panic p"
    using race_states(1) by (simp add: start)
qed


theorem bytes_for_bash_race_witness:
  "\<exists>p q. (pipe_step True)\<^sup>*\<^sup>* (pipe_start ''ls'') p \<and> \<not> pp_panic p \<and> pipe_done p \<and> pp_got p = ''ls'' \<and>
     (pipe_step False)\<^sup>*\<^sup>* (pipe_start ''ls'') q \<and> pipe_done q \<and> pp_got q = ''s''"
proof -
  have "(pipe_step True)\<^sup>*\<^sup>* (pipe_start ''ls'') (at_rest ''ls'' [])"
    using pipe_passes_all [of True "''''" "''ls''"] by (simp add: at_rest_def pipe_start_def)
  moreover have "pipe_done (at_rest ''ls'' [])" by (simp add: pipe_done_def at_rest_def pipe_start_def)
  ultimately show ?thesis
    using bytes_for_bash_race [of "''ls''" "CHR ''l''" "''s''"] by blast
qed

end
