(* ===== verification/User_Table.thy ===== *)
theory User_Table
  imports Auth
begin

text \<open>
  The user table: the two SQL statements of \<^verbatim>\<open>db/db.go\<close> over a parameter for \<^verbatim>\<open>database/sql\<close> with its
  driver, and their use in \<^verbatim>\<open>auth/auth.go\<close>.  The theory shows that the two statements fit together and with the
  login: who was entered with the hash of a password logs in with that password, and nobody else does.
\<close>

section \<open>The code\<close>

definition MysqlStr :: string where
  "MysqlStr = ''root:123456@tcp(localhost:3306)/mysh?autocommit=true''"

definition UinfoTable :: string where
  "UinfoTable = ''mysh_uinfo''"

text \<open>
  A prepared statement is its text.  \<open>sq_QueryRow\<close> gives the columns of the first row or an error, \<^verbatim>\<open>sql.ErrNoRows\<close>
  among them; \<open>sq_Exec\<close> gives what \<^verbatim>\<open>RowsAffected\<close> of the result returns.  Every call has a deadline of
  three seconds, after which the driver gives an error.
\<close>

record 'w sql =
  sq_Open :: "string \<Rightarrow> string \<Rightarrow> 'w \<Rightarrow> error option \<times> 'w"
  sq_Prepare :: "string \<Rightarrow> 'w \<Rightarrow> error option \<times> 'w"
  sq_QueryRow :: "string \<Rightarrow> string list \<Rightarrow> 'w \<Rightarrow> (error + string list) \<times> 'w"
  sq_Exec :: "string \<Rightarrow> string list \<Rightarrow> 'w \<Rightarrow> (error + int \<times> error option) \<times> 'w"

definition db_init :: "'w sql \<Rightarrow> 'w \<Rightarrow> 'w outcome" where
  "db_init Q w = (case sq_Open Q ''mysql'' MysqlStr w of (Some err, w1) \<Rightarrow> Panic (error_msg err) | (None, w1) \<Rightarrow> Ok w1)"

text \<open>\<^verbatim>\<open>Scan\<close> into two strings.\<close>

definition Scan2 :: "error + string list \<Rightarrow> string \<times> string \<times> error option" where
  "Scan2 r =
     (case r of
        Inl err \<Rightarrow> ('''', '''', Some err)
      | Inr [salt, password] \<Rightarrow> (salt, password, None)
      | Inr cols \<Rightarrow> ('''', '''', Some (Err (Sprintf ''sql: expected %v destination arguments in Scan, not 2'' [IInt (int (length cols))]))))"

definition select_stmt :: string where
  "select_stmt = ''SELECT salt, password FROM '' @ UinfoTable @ '' WHERE uid= ? ;''"

definition MakeSaltPasswordGetter ::
  "'w sql \<Rightarrow> 'w \<Rightarrow> ((string \<Rightarrow> 'w \<Rightarrow> (string \<times> string \<times> error option) \<times> 'w) \<times> 'w) outcome"
where
  "MakeSaltPasswordGetter Q w =
     (let stmt = select_stmt in
      case sq_Prepare Q stmt w of
        (Some err, w1) \<Rightarrow> Panic (error_msg err)
      | (None, w1) \<Rightarrow> Ok (\<lambda>uid w2. (case sq_QueryRow Q stmt [uid] w2 of (row, w3) \<Rightarrow> (Scan2 row, w3)), w1))"

definition insert_stmt :: string where
  "insert_stmt = Sprintf ''INSERT INTO %v (uid, salt, password) values (?, ?, ?)'' [IString UinfoTable]"

definition SaltPasswordOperator ::
  "'w sql \<Rightarrow> 'w \<Rightarrow> ((string \<Rightarrow> string \<Rightarrow> string \<Rightarrow> 'w \<Rightarrow> (int \<times> error option) \<times> 'w) \<times> 'w) outcome"
where
  "SaltPasswordOperator Q w =
     (let stmt = insert_stmt in
      case sq_Prepare Q stmt w of
        (Some err, w1) \<Rightarrow> Panic (error_msg err)
      | (None, w1) \<Rightarrow> Ok (\<lambda>uid salt password w2.
          (case sq_Exec Q stmt [uid, salt, password] w2 of
             (Inl err, w3) \<Rightarrow> ((0, Some err), w3)
           | (Inr (n, err), w3) \<Rightarrow> ((n, err), w3)), w1))"

text \<open>
  The initialisation of the packages \<^verbatim>\<open>db\<close> and \<^verbatim>\<open>auth\<close>, which every process that links \<^verbatim>\<open>server\<close> runs before its
  \<^verbatim>\<open>main\<close>: the variable \<^verbatim>\<open>saltPasswordGetter\<close>.
\<close>

definition auth_init ::
  "'w sql \<Rightarrow> 'w \<Rightarrow> ((string \<Rightarrow> 'w \<Rightarrow> (string \<times> string \<times> error option) \<times> 'w) \<times> 'w) outcome"
where
  "auth_init Q w = obind (db_init Q w) (MakeSaltPasswordGetter Q)"

text \<open>\<^const>\<open>Login\<close> of \<^verbatim>\<open>auth\<close> with that variable.\<close>

definition asked :: "(string \<Rightarrow> 'w \<Rightarrow> (string \<times> string \<times> error option) \<times> 'w) \<Rightarrow> 'w \<Rightarrow> string \<Rightarrow> error + string \<times> string" where
  "asked get w uid = (case fst (get uid w) of (s, p, None) \<Rightarrow> Inr (s, p) | (s, p, Some err) \<Rightarrow> Inl err)"

definition table_Login ::
  "(string \<Rightarrow> 'w \<Rightarrow> (string \<times> string \<times> error option) \<times> 'w) \<Rightarrow> string \<Rightarrow> string \<Rightarrow> string list \<Rightarrow> 'w \<Rightarrow> (string \<times> bool) outcome"
where
  "table_Login get uid password extra w = Login (Some (asked get w)) uid password extra"

section \<open>Rows and logins\<close>

text \<open>
  What the statements do to the rows (user, salt, hash) of a table, if the database answers: \<open>same\<close> is the
  equality of user names in the collation of the column; of several matching rows any can come first; an insertion
  that fails changes nothing.
\<close>

type_synonym row = "string \<times> string \<times> string"

definition rows_of :: "(string \<Rightarrow> string \<Rightarrow> bool) \<Rightarrow> string \<Rightarrow> row list \<Rightarrow> row set" where
  "rows_of same uid rs = {r \<in> set rs. same (fst r) uid}"

lemma rows_of_snoc: "rows_of same u (rs @ [r]) = rows_of same u rs \<union> (if same (fst r) u then {r} else {})"
  by (auto simp: rows_of_def)

definition sql_answers :: "'w sql \<Rightarrow> (string \<Rightarrow> string \<Rightarrow> bool) \<Rightarrow> ('w \<Rightarrow> row list) \<Rightarrow> bool" where
  "sql_answers Q same rows \<longleftrightarrow>
     (\<forall>uid w. \<exists>r. fst (sq_QueryRow Q ''SELECT salt, password FROM mysh_uinfo WHERE uid= ? ;'' [uid] w) = r \<and>
        (if rows_of same uid (rows w) = {} then \<exists>e. r = Inl e
         else \<exists>(u, s, p) \<in> rows_of same uid (rows w). r = Inr [s, p])) \<and>
     (\<forall>uid s p w. \<exists>r w'. sq_Exec Q ''INSERT INTO mysh_uinfo (uid, salt, password) values (?, ?, ?)'' [uid, s, p] w = (r, w') \<and>
        (\<forall>n. r = Inr (n, None) \<longrightarrow> n = 1 \<and> rows w' = rows w @ [(uid, s, p)]))"

lemma stmts:
  "select_stmt = ''SELECT salt, password FROM mysh_uinfo WHERE uid= ? ;''"
  "insert_stmt = ''INSERT INTO mysh_uinfo (uid, salt, password) values (?, ?, ?)''"
  by (simp_all add: select_stmt_def insert_stmt_def UinfoTable_def)

lemma answersD:
  assumes "sql_answers Q same rows"
  shows "rows_of same uid (rows w) = {} \<Longrightarrow> \<exists>e. fst (sq_QueryRow Q select_stmt [uid] w) = Inl e"
    and "rows_of same uid (rows w) = {(u, s, p)} \<Longrightarrow> fst (sq_QueryRow Q select_stmt [uid] w) = Inr [s, p]"
    and "sq_Exec Q insert_stmt [uid, s, p] w = (Inr (n, None), w') \<Longrightarrow> n = 1 \<and> rows w' = rows w @ [(uid, s, p)]"
proof -
  note law = assms [unfolded sql_answers_def, folded stmts]
  note query = law [THEN conjunct1, rule_format, of uid w]
  show "rows_of same uid (rows w) = {} \<Longrightarrow> \<exists>e. fst (sq_QueryRow Q select_stmt [uid] w) = Inl e"
    "rows_of same uid (rows w) = {(u, s, p)} \<Longrightarrow> fst (sq_QueryRow Q select_stmt [uid] w) = Inr [s, p]"
    using query by auto
  show "sq_Exec Q insert_stmt [uid, s, p] w = (Inr (n, None), w') \<Longrightarrow> n = 1 \<and> rows w' = rows w @ [(uid, s, p)]"
    using law [THEN conjunct2, rule_format, of uid s p w] by auto
qed

lemma asked_eq:
  "MakeSaltPasswordGetter Q w0 = Ok (get, w1) \<Longrightarrow>
     asked get w uid = (case Scan2 (fst (sq_QueryRow Q select_stmt [uid] w)) of (s, p, None) \<Rightarrow> Inr (s, p) | (s, p, Some err) \<Rightarrow> Inl err)"
  unfolding MakeSaltPasswordGetter_def Let_def
  by (auto simp: asked_def case_prod_unfold split: prod.splits option.splits)

lemma table_Login_none:
  assumes "sql_answers Q same rows" and "MakeSaltPasswordGetter Q w0 = Ok (get, w1)" and "rows_of same uid (rows w) = {}"
  shows "table_Login get uid password extra w = Ok ('''', False)"
  using answersD(1) [OF assms(1,3)] asked_eq [OF assms(2), of w uid]
  by (auto simp: table_Login_def Login_def Scan2_def)

lemma table_Login_row:
  assumes "sql_answers Q same rows" and "MakeSaltPasswordGetter Q w0 = Ok (get, w1)"
    and "rows_of same uid (rows w) = {(u, salt, h)}" and "salt \<noteq> []"
  shows "table_Login get uid password extra w =
    (if EncryptPassword uid salt password = Ok h then Ok (genToken uid extra, True) else Ok ('''', False))"
  using answersD(2) [OF assms(1,3)] asked_eq [OF assms(2), of w uid] assms(4)
  by (simp add: table_Login_def Login_def Scan2_def checkPassword_def EncryptPassword_def Let_def)

text \<open>C23: Who is entered can log in, and nobody else. If the operator that inserts users enters a new user with
  the hash of a password, one row is affected; then a login as that user, by the getter that was
  prepared at the start, succeeds exactly with the passwords of that hash (so with his own), a login as a user
  without a row fails, and a login as another user with one row is decided by that row as before.\<close>

theorem entered_user_logs_in:
  assumes "sql_answers Q same rows" and "\<And>u. same u u"
    and "auth_init Q w0 = Ok (get, w1)" and "SaltPasswordOperator Q w2 = Ok (add, w3)"
    and "EncryptPassword uid salt password = Ok h" and "rows_of same uid (rows w) = {}"
    and "add uid salt h w = ((n, None), w')"
  shows "n = 1 \<and> table_Login get uid password extra w' = Ok (genToken uid extra, True) \<and>
    (\<forall>pw. EncryptPassword uid salt pw \<noteq> Ok h \<longrightarrow> table_Login get uid pw extra w' = Ok ('''', False)) \<and>
    (\<forall>u pw. \<not> same uid u \<and> rows_of same u (rows w) = {} \<longrightarrow> table_Login get u pw extra w' = Ok ('''', False)) \<and>
    (\<forall>u pw r. \<not> same uid u \<and> rows_of same u (rows w) = {r} \<and> fst (snd r) \<noteq> [] \<longrightarrow>
       table_Login get u pw extra w' = table_Login get u pw extra w)"
proof -
  obtain w1' where get: "MakeSaltPasswordGetter Q w1' = Ok (get, w1)"
    using assms(3) by (auto simp: auth_init_def obind_Ok_iff)
  from assms(4,7) have "sq_Exec Q insert_stmt [uid, salt, h] w = (Inr (n, None), w')"
    by (auto simp: SaltPasswordOperator_def Let_def split: prod.splits option.splits sum.splits)
  then have n: "n = 1" "rows w' = rows w @ [(uid, salt, h)]" using answersD(3) [OF assms(1)] by blast+
  have salt: "salt \<noteq> []" using assms(5) by (auto simp: EncryptPassword_def)
  have "rows_of same uid (rows w') = {(uid, salt, h)}"
    using assms(2) [of uid] assms(6) by (simp add: n rows_of_snoc)
  note own = table_Login_row [OF assms(1) get this salt]
  have other: "rows_of same u (rows w') = rows_of same u (rows w)" if "\<not> same uid u" for u
    using that by (simp add: n rows_of_snoc)
  have "table_Login get u pw extra w' = table_Login get u pw extra w"
    if "\<not> same uid u" "rows_of same u (rows w) = {r}" "fst (snd r) \<noteq> []" for u pw r
    using table_Login_row [OF assms(1) get, of u _ "fst r" "fst (snd r)" "snd (snd r)"] other [OF that(1)] that(2,3) by simp
  moreover have "table_Login get u pw extra w' = Ok ('''', False)"
    if "\<not> same uid u" "rows_of same u (rows w) = {}" for u pw
    using table_Login_none [OF assms(1) get] other [OF that(1)] that(2) by simp
  ultimately show ?thesis using n(1) own assms(5) by simp
qed

text \<open>A process whose database does not answer does not start: the initialisation panics.\<close>

lemma no_database_no_start:
  assumes "\<And>w. fst (sq_Prepare Q select_stmt w) \<noteq> None"
  shows "\<exists>msg. auth_init Q w = Panic msg"
proof (cases "sq_Open Q ''mysql'' MysqlStr w")
  case (Pair e w1)
  with assms [of w1] show ?thesis
    by (cases e; cases "sq_Prepare Q select_stmt w1")
      (auto simp: auth_init_def db_init_def MakeSaltPasswordGetter_def Let_def split: option.splits)
qed

text \<open>A table in memory with names as they are.\<close>

definition mem_sql :: "row list sql" where
  "mem_sql = \<lparr>sq_Open = (\<lambda>_ _ w. (None, w)), sq_Prepare = (\<lambda>_ w. (None, w)),
     sq_QueryRow = (\<lambda>_ as w. (case List.find (\<lambda>r. [fst r] = as) w of
        None \<Rightarrow> Inl (Err ''sql: no rows in result set'') | Some (u, s, p) \<Rightarrow> Inr [s, p], w)),
     sq_Exec = (\<lambda>_ as w. (case as of [u, s, p] \<Rightarrow> (Inr (1, None), w @ [(u, s, p)]) | _ \<Rightarrow> (Inl (Err ''arguments''), w)))\<rparr>"

lemma mem_sql_answers: "sql_answers mem_sql (=) (\<lambda>w. w)"
proof -
  have "if rows_of (=) uid w = {} then \<exists>e. fst (sq_QueryRow mem_sql q [uid] w) = Inl e
    else \<exists>(u, s, p) \<in> rows_of (=) uid w. fst (sq_QueryRow mem_sql q [uid] w) = Inr [s, p]" for uid w q
  proof (cases "List.find (\<lambda>r. [fst r] = [uid]) w")
    case None
    then have "rows_of (=) uid w = {}" by (auto simp: rows_of_def find_None_iff)
    with None show ?thesis by (simp add: mem_sql_def)
  next
    case (Some r)
    then have "r \<in> rows_of (=) uid w" by (auto simp: rows_of_def find_Some_iff)
    with Some show ?thesis by (cases r) (auto simp: mem_sql_def)
  qed
  note query = this
  show ?thesis unfolding sql_answers_def
  proof (intro conjI allI)
    fix uid w
    show "\<exists>r. fst (sq_QueryRow mem_sql ''SELECT salt, password FROM mysh_uinfo WHERE uid= ? ;'' [uid] w) = r \<and>
        (if rows_of (=) uid w = {} then \<exists>e. r = Inl e else \<exists>(u, s, p) \<in> rows_of (=) uid w. r = Inr [s, p])"
      by (intro exI conjI, rule refl, rule query)
  qed (simp add: mem_sql_def)
qed

theorem entered_user_logs_in_witness:
  "\<exists>get w1 add h w'. auth_init mem_sql [] = Ok (get, w1) \<and> SaltPasswordOperator mem_sql w1 = Ok (add, w1) \<and>
     add ''bob'' ''salt'' h w1 = ((1, None), w') \<and> table_Login get ''bob'' ''secret'' [] w' = Ok (genToken ''bob'' [], True) \<and>
     table_Login get ''eve'' ''secret'' [] w' = Ok ('''', False)"
proof -
  obtain h where h: "EncryptPassword ''bob'' ''salt'' ''secret'' = Ok h"
    by (simp add: EncryptPassword_def Let_def)
  obtain get where get: "auth_init mem_sql [] = Ok (get, [])"
    by (simp add: auth_init_def db_init_def MakeSaltPasswordGetter_def mem_sql_def Let_def)
  define add where "add = (\<lambda>uid salt password (w :: row list). ((1 :: int, None :: error option), w @ [(uid, salt, password)]))"
  have add: "SaltPasswordOperator mem_sql [] = Ok (add, [])"
    by (simp add: SaltPasswordOperator_def mem_sql_def Let_def add_def)
  have ins: "add ''bob'' ''salt'' h [] = ((1, None), [(''bob'', ''salt'', h)])" by (simp add: add_def)
  have none: "rows_of (=) u [] = {}" for u by (simp add: rows_of_def)
  note end_state = entered_user_logs_in [OF mem_sql_answers refl get add h none ins]
  have "table_Login get ''eve'' ''secret'' [] [(''bob'', ''salt'', h)] = Ok ('''', False)"
    using end_state [THEN conjunct2, THEN conjunct2, THEN conjunct2, THEN conjunct1] none by simp
  with end_state get add ins show ?thesis by blast
qed

end
