(* ===== verification/Programs.thy ===== *)
theory Programs
  imports Files Startup Terminal Server User_Table
begin

text \<open>
  How the client and its helper start: \<^verbatim>\<open>init\<close> and \<^verbatim>\<open>main\<close> of \<^verbatim>\<open>cmd/mysh\<close> and \<^verbatim>\<open>cmd/mysh-agent\<close>.  The theory
  shows how the client depends on the certificate server, and that the helper posts a command to the shell that
  ran it.
\<close>

section \<open>The shell client\<close>

text \<open>
  \<open>co_CurrentHome\<close>: the home directory of \<^verbatim>\<open>user.Current\<close>; \<open>co_ParseCert\<close>: the parsing of a certificate file in
  \<^verbatim>\<open>NewClientTLSFromFile\<close>; \<open>co_Dial\<close>: \<^verbatim>\<open>grpc.Dial\<close> to an address with the credentials of a certificate.
\<close>

record ('k, 'c) client_os =
  co_CurrentHome :: "error + string"
  co_HttpGet :: "string \<Rightarrow> error + response"
  co_ParseCert :: "string \<Rightarrow> error + 'k"
  co_Dial :: "string \<Rightarrow> 'k \<Rightarrow> error + 'c"

definition ReadFile :: "process \<Rightarrow> path \<Rightarrow> fs \<Rightarrow> error + string" where
  "ReadFile P p f =
     (case node_at P f p of
        Inl e \<Rightarrow> Inl (PathError ''open'' p e)
      | Inr (Directory A) \<Rightarrow> Inl (PathError ''read'' p EISDIR)
      | Inr (File A s) \<Rightarrow> if may P Read A then Inr s else Inl (PathError ''open'' p EACCES))"

definition NewClientTLSFromFile :: "('k, 'c) client_os \<Rightarrow> process \<Rightarrow> string \<Rightarrow> fs \<Rightarrow> error + 'k" where
  "NewClientTLSFromFile C P fn f =
     (case ReadFile P (path_of P fn) f of Inl err \<Rightarrow> Inl err | Inr pem \<Rightarrow> co_ParseCert C pem)"

text \<open>The initialisation of \<^verbatim>\<open>cons\<close>, which sets the name of the file of the user's certificate.\<close>

definition cons_init :: "error + string \<Rightarrow> string outcome" where
  "cons_init home = (case home of Inl err \<Rightarrow> Fatal (error_msg err) | Inr HomeDir \<Rightarrow> Ok (UserCrt HomeDir))"

text \<open>
  The initialisation of the client after that of \<^verbatim>\<open>cons\<close>, with the connection that its requests use and the login
  dialogue without any credentials; it asks for the home directory once more.
\<close>

definition mysh_init :: "('k, 'c) client_os \<Rightarrow> process \<Rightarrow> fs \<Rightarrow> ('c \<times> loginer) outcome \<times> fs" where
  "mysh_init C P f =
     (case co_CurrentHome C of
        Inl err \<Rightarrow> (Fatal (error_msg err), f)
      | Inr HomeDir \<Rightarrow>
          (case open_log P (HomeDir @ ''/mysh/log'') ''mysh.log'' f of
             (Inl err, f1) \<Rightarrow> (Panic (error_msg err), f1)
           | (Inr logFile, f1) \<Rightarrow>
               (case PullCert P (UserCrt HomeDir) (co_HttpGet C) f1 of
                  (Some err, f2) \<Rightarrow> (Panic (error_msg err), f2)
                | (None, f2) \<Rightarrow>
                    (case NewClientTLSFromFile C P (UserCrt HomeDir) f2 of
                       Inl err \<Rightarrow> (Panic (error_msg err), f2)
                     | Inr creds \<Rightarrow>
                         (case co_Dial C (cons_Domain @ '':'' @ itoa Port) creds of
                            Inl err \<Rightarrow> (Panic (error_msg err), f2)
                          | Inr conn \<Rightarrow> (Ok (conn, NewLoginer), f2))))))"

text \<open>
  The server of the client's socket: \<open>remove\<close>, \<open>listen_unix\<close> and \<open>serve\<close> stand for \<^verbatim>\<open>os.Remove\<close>, whose result is not
  looked at, \<^verbatim>\<open>net.Listen\<close> and \<^verbatim>\<open>http.Serve\<close>, which returns only with an error.
\<close>

definition uploadProxyServer ::
  "(string \<Rightarrow> 'w \<Rightarrow> 'w) \<Rightarrow> (string \<Rightarrow> 'w \<Rightarrow> error option \<times> 'w) \<Rightarrow> (string \<Rightarrow> 'w \<Rightarrow> (error \<times> 'w) option) \<Rightarrow> int \<Rightarrow> 'w \<Rightarrow>
     unit outcome option"
where
  "uploadProxyServer remove listen_unix serve pid w =
     (let sock = unixSock pid; w1 = remove sock w
      in case listen_unix sock w1 of
           (Some err, w2) \<Rightarrow> Some (Fatal (''Listen (UNIX socket): '' @ error_msg err))
         | (None, w2) \<Rightarrow> (case serve sock w2 of None \<Rightarrow> None | Some (err, w3) \<Rightarrow> Some (Fatal (error_msg err))))"

definition EnvMyshPidKey :: string where
  "EnvMyshPidKey = ''MYSH_PID''"

text \<open>
  \<^verbatim>\<open>main\<close>: \<open>bash_session\<close> is the session with bash in the given environment, \<^const>\<open>Run\<close> beside the server of the
  socket; it returns an error or not.  By then that server has set the name of its socket, which the end of
  \<^verbatim>\<open>main\<close> removes.
\<close>

definition mysh_main ::
  "'w client_env \<Rightarrow> (string \<Rightarrow> 'w \<Rightarrow> error option \<times> 'w) \<Rightarrow> int \<Rightarrow>
     ((string \<rightharpoonup> string) \<Rightarrow> 'w shell \<Rightarrow> (error option \<times> 'w shell) outcome option) \<Rightarrow> 'w shell \<Rightarrow> 'w shell outcome option"
where
  "mysh_main E RemoveAll pid bash_session s =
     lbind (login E s) (\<lambda>s1.
     lbind (bash_session [EnvMyshPidKey \<mapsto> itoa pid] s1) (\<lambda>(err, s2).
     main_end E RemoveAll (unixSock pid) err s2))"

text \<open>
  The connection to etcd, which the first call of a function of \<^verbatim>\<open>lib/etcd\<close> makes: \<open>New\<close> is \<^verbatim>\<open>clientv3.New\<close>
  with a list of endpoints.
\<close>

definition etcd_Init :: "(string list \<Rightarrow> error + 'e) \<Rightarrow> 'e outcome" where
  "etcd_Init New =
     (case New (split_on (CHR '','') EtcdEndpoints) of Inl err \<Rightarrow> Panic (error_msg err) | Inr cli \<Rightarrow> Ok cli)"

section \<open>The helper\<close>

definition agent_init :: "error + string \<Rightarrow> process \<Rightarrow> fs \<Rightarrow> osFile outcome \<times> fs" where
  "agent_init home P f =
     (case home of
        Inl err \<Rightarrow> (Panic (error_msg err), f)
      | Inr HomeDir \<Rightarrow>
          (case open_log P (filepath_Join [HomeDir, ''mysh/agent'']) ''mysh-agent.log'' f of
             (Inl err, f1) \<Rightarrow> (Panic (error_msg err), f1)
           | (Inr l, f1) \<Rightarrow> (Ok l, f1)))"

text \<open>
  \<^verbatim>\<open>main\<close>: the request is posted through \<open>dial_post\<close> to the socket that the environment names; its error is only
  logged.
\<close>

definition agent_main :: "string list \<Rightarrow> (string \<rightharpoonup> string) \<Rightarrow> (string \<Rightarrow> string \<Rightarrow> 'w \<Rightarrow> error option \<times> 'w) \<Rightarrow> 'w \<Rightarrow> 'w" where
  "agent_main os_Args env dial_post w =
     (case agent_command os_Args of
        None \<Rightarrow> w
      | Some command \<Rightarrow>
          snd (dial_post (agent_socket (case env EnvMyshPidKey of None \<Rightarrow> '''' | Some v \<Rightarrow> v)) command w))"

section \<open>The client and the certificate server\<close>

text \<open>The certificate server: \<open>ListenAndServe\<close> answers requests by the handlers of their paths until it fails.\<close>

definition cert_routes :: "(string \<Rightarrow> error + string) \<Rightarrow> string \<Rightarrow> int option \<times> string" where
  "cert_routes readFile url_path =
     (if url_path = ''/get_cert'' then cert_ServeHTTP readFile else (Some 404, ''404 page not found'' @ [CHR 0x0A]))"

definition mysh_cert_server_main ::
  "(string \<Rightarrow> (string \<Rightarrow> int option \<times> string) \<Rightarrow> 'w \<Rightarrow> (error \<times> 'w) option) \<Rightarrow> (string \<Rightarrow> error + string) \<Rightarrow> 'w \<Rightarrow> unit outcome option"
where
  "mysh_cert_server_main ListenAndServe readFile w =
     (case ListenAndServe '':8081'' (cert_routes readFile) w of None \<Rightarrow> None | Some (err, w1) \<Rightarrow> Some (Fatal (error_msg err)))"

text \<open>
  An answer of the certificate server to a client: the status that the handler set or 200, and what it wrote; a
  read into an empty buffer gives an error only at the end of the body.
\<close>

definition http_answer :: "int option \<times> string \<Rightarrow> response" where
  "http_answer r = (case r of (status, body) \<Rightarrow>
     \<lparr>rs_StatusCode = (case status of None \<Rightarrow> 200 | Some st \<Rightarrow> st),
      rs_ReadNone = (if body = '''' then Some (Err ''EOF'') else None), rs_Body = body, rs_BodyErr = None\<rparr>)"

text \<open>What the initialisation goes on to do with a stored certificate.\<close>

definition start_with :: "('k, 'c) client_os \<Rightarrow> string \<Rightarrow> ('c \<times> loginer) outcome" where
  "start_with C pem =
     (case co_ParseCert C pem of
        Inl err \<Rightarrow> Panic (error_msg err)
      | Inr creds \<Rightarrow>
          (case co_Dial C (cons_Domain @ '':'' @ itoa Port) creds of Inl err \<Rightarrow> Panic (error_msg err) | Inr conn \<Rightarrow> Ok (conn, NewLoginer)))"

definition certificate :: "path \<Rightarrow> path" where
  "certificate h = h @ [''mysh'', ''cert'', ''www.myshell.top.crt'']"

text \<open>A home directory in which the client can make and use its files.\<close>

definition usable_home :: "process \<Rightarrow> fs \<Rightarrow> path \<Rightarrow> bool" where
  "usable_home P f h \<longleftrightarrow> plain h \<and> h \<noteq> [] \<and> way P f h [''mysh'', ''log''] \<and> way P f h [''mysh'', ''cert''] \<and>
     writable P f (h @ [''mysh'', ''log'', ''mysh.log'']) \<and> writable P f (certificate h)"

text \<open>Without a home directory the client ends before it touches a file.\<close>

lemma no_home_is_fatal: "cons_init (co_CurrentHome C) = Fatal m \<Longrightarrow> mysh_init C P f = (Fatal m, f)"
  by (simp add: cons_init_def mysh_init_def split: sum.splits)

lemma ReadFile_stored:
  assumes "dir_open P f d" and "may P Read A"
  shows "ReadFile P (d @ [c]) (f(d @ [c] \<mapsto> File A s)) = Inr s"
proof -
  obtain D where "node_at P (f(d @ [c] \<mapsto> File A s)) d = Inr (Directory D)" "may P Exec D"
    using dir_open_update [OF assms(1), of c "File A s"] by (auto simp: dir_open_def)
  from node_at_child [OF this(1), of c] this(2) assms(2) show ?thesis by (simp add: ReadFile_def)
qed

lemma mysh_init_answer:
  assumes "usable_home P f h" and "co_CurrentHome C = Inr (abs_name h)"
    and "co_HttpGet C ''https://www.myshell.top:443/get_cert'' = Inr (http_answer (status, body))" and "body \<noteq> ''''"
  shows "\<exists>f'. mysh_init C P f = (start_with C body, f') \<and> text_at f' (certificate h) = Some body"
proof -
  let ?log = "[''mysh'', ''log'']" and ?cert = "[''mysh'', ''cert'']"
  note home = assms(1) [unfolded usable_home_def]
  have "plain ?log" "plain_name ''mysh.log''" by (simp_all add: plain_name_def)
  then obtain fd f1 where f1: "open_log P (abs_name (h @ ?log)) ''mysh.log'' f = (Inr fd, f1)" "kept f f1"
    "\<And>q. q \<noteq> h @ ?log @ [''mysh.log''] \<Longrightarrow> f1 q = f q \<or> prefix q (h @ ?log) \<and> f1 q = Some (Directory (owner mode_0755))"
    using open_log_home [of h ?log "''mysh.log''" P f] home by auto
  have way1: "way P f1 h ?cert"
  proof (rule way_kept [OF _ f1(2)])
    show "way P f h ?cert" using home by blast
    fix q
    assume "prefix q ?cert"
    then show "f1 (h @ q) = f (h @ q) \<or> f1 (h @ q) = Some (Directory (owner mode_0755))"
      using f1(3) [of "h @ q"] by (auto simp: prefix_Cons)
  qed
  have "f1 (certificate h) = f (certificate h)"
    using f1(3) [of "certificate h"] by (simp add: certificate_def)
  then have "writable P f1 (certificate h)" using home by (simp add: writable_def)
  note PullCert_home [where http_Get = "co_HttpGet C", OF _ _ way1 this [unfolded certificate_def] assms(3)]
  then obtain f2 A where f2: "PullCert P (UserCrt (abs_name h)) (co_HttpGet C) f1 = (None, f2(certificate h \<mapsto> File A body))"
    "dir_open P f2 (h @ ?cert)" "may P Read A"
    using home assms(4) by (auto simp: certificate_def http_answer_def)
  have cert: "path_of P (UserCrt (abs_name h)) = certificate h"
    using UserCrt_abs [of h] path_of_abs [of "certificate h" P] home by (simp add: certificate_def plain_name_def)
  have "NewClientTLSFromFile C P (UserCrt (abs_name h)) (f2(certificate h \<mapsto> File A body)) = co_ParseCert C body"
    using ReadFile_stored [OF f2(2,3), of "''www.myshell.top.crt''" body]
    by (simp add: NewClientTLSFromFile_def cert) (simp add: certificate_def)
  moreover have "abs_name h @ ''/mysh/log'' = abs_name (h @ ?log)"
    using join_append [of h ?log "CHR ''/''"] home by simp
  ultimately have "mysh_init C P f = (start_with C body, f2(certificate h \<mapsto> File A body))"
    using assms(2) f1(1) f2(1) by (simp add: mysh_init_def start_with_def split: sum.split)
  then show ?thesis by (simp add: text_at_def)
qed


lemma proxy_address: "cons_Domain @ '':'' @ itoa Port = ''www.myshell.top:8080''"
proof -
  have "digit 8 = CHR ''8''" "digit 0 = CHR ''0''" by code_simp+
  then have "itoa 8080 = ''8080''" by (simp add: itoa_def utoa.simps)
  then show ?thesis by (simp add: cons_Domain_def Port_def)
qed

text \<open>C24: The client starts with the certificate that the server has, or not at all. If the server reads
  its certificate, the client stores just this one and starts with a connection to the proxy that uses it. If the
  server cannot read its certificate, the client does not look at the status of the answer: it replaces the
  certificate that it had, which may be good, by the text of the error, and panics.\<close>

theorem client_starts_with_certificate:
  assumes "usable_home P f h" and "co_CurrentHome C = Inr (abs_name h)"
    and "co_HttpGet C ''https://www.myshell.top:443/get_cert'' = Inr (http_answer (cert_routes readFile ''/get_cert''))"
  shows "(\<forall>crt k conn. readFile Crt = Inr crt \<and> crt \<noteq> '''' \<and> co_ParseCert C crt = Inr k \<and>
        co_Dial C ''www.myshell.top:8080'' k = Inr conn \<longrightarrow>
      (\<exists>f'. mysh_init C P f = (Ok (conn, NewLoginer), f') \<and> text_at f' (certificate h) = Some crt)) \<and>
    (\<forall>err err'. readFile Crt = Inl err \<and> co_ParseCert C ''load crt error'' = Inl err' \<longrightarrow>
      (\<exists>f'. mysh_init C P f = (Panic (error_msg err'), f') \<and> text_at f' (certificate h) = Some ''load crt error''))"
proof (intro conjI allI impI)
  fix crt k conn
  assume ok: "readFile Crt = Inr crt \<and> crt \<noteq> '''' \<and> co_ParseCert C crt = Inr k \<and> co_Dial C ''www.myshell.top:8080'' k = Inr conn"
  then have "start_with C crt = Ok (conn, NewLoginer)" unfolding start_with_def proxy_address by simp
  moreover have "cert_routes readFile ''/get_cert'' = (None, crt)"
    using ok by (simp add: cert_routes_def cert_ServeHTTP_def GetCert_def)
  ultimately show "\<exists>f'. mysh_init C P f = (Ok (conn, NewLoginer), f') \<and> text_at f' (certificate h) = Some crt"
    using mysh_init_answer [OF assms(1,2), of None crt] assms(3) ok by simp
next
  fix err err'
  assume failed: "readFile Crt = Inl err \<and> co_ParseCert C ''load crt error'' = Inl err'"
  then have "start_with C ''load crt error'' = Panic (error_msg err')" by (simp add: start_with_def)
  moreover have "cert_routes readFile ''/get_cert'' = (Some 503, ''load crt error'')"
    using failed by (simp add: cert_routes_def cert_ServeHTTP_def GetCert_def)
  ultimately show "\<exists>f'. mysh_init C P f = (Panic (error_msg err'), f') \<and> text_at f' (certificate h) = Some ''load crt error''"
    using mysh_init_answer [OF assms(1,2), of "Some 503" "''load crt error''"] assms(3) by simp
qed

text \<open>The client of a user whose home directory is empty, and certificates that begin with a letter \<^verbatim>\<open>C\<close>.\<close>

definition alice_client :: "(string \<Rightarrow> error + string) \<Rightarrow> (string, string) client_os" where
  "alice_client readFile = \<lparr>co_CurrentHome = Inr ''/home/alice'', co_HttpGet = (\<lambda>_. Inr (http_answer (cert_routes readFile ''/get_cert''))),
     co_ParseCert = (\<lambda>pem. if take 1 pem = ''C'' then Inr pem else Inl (Err ''no certificate'')),
     co_Dial = (\<lambda>addr k. Inr addr)\<rparr>"

lemma alice_home: "usable_home alice home_fs [''home'', ''alice'']"
  using home_open
  by (auto simp: usable_home_def way_def certificate_def writable_def plain_name_def home_fs_def prefix_Cons)

theorem client_starts_with_certificate_witness:
  "(\<exists>f'. mysh_init (alice_client (\<lambda>_. Inr ''CERT'')) alice home_fs = (Ok (''www.myshell.top:8080'', NewLoginer), f') \<and>
      text_at f' (certificate [''home'', ''alice'']) = Some ''CERT'') \<and>
   (\<exists>f'. mysh_init (alice_client (\<lambda>_. Inl (Err ''gone''))) alice home_fs = (Panic ''no certificate'', f') \<and>
      text_at f' (certificate [''home'', ''alice'']) = Some ''load crt error'')"
  using client_starts_with_certificate [OF alice_home, of "alice_client (\<lambda>_. Inr ''CERT'')" "\<lambda>_. Inr ''CERT''"]
    client_starts_with_certificate [OF alice_home, of "alice_client (\<lambda>_. Inl (Err ''gone''))" "\<lambda>_. Inl (Err ''gone'')"]
  by (simp add: alice_client_def)

section \<open>The helper and the shell\<close>

text \<open>The helper gets the words of a command, and posts them with single blanks to the shell that ran it.\<close>

lemma agent_command_joins:
  assumes "ws \<noteq> []"
  shows "agent_command (prog # ws) = Some (join_with (CHR '' '') ws)"
proof -
  have "foldl (\<lambda>command a. command @ '' '' @ a) x ys = join_with (CHR '' '') (x # ys)" for x ys
    by (induction ys rule: rev_induct) (simp_all add: join_snoc flip: append_Cons)
  with assms show ?thesis by (cases ws) (simp_all add: agent_command_def)
qed

lemma agent_posts_to_shell:
  "env EnvMyshPidKey = Some (itoa pid) \<Longrightarrow> ws \<noteq> [] \<Longrightarrow>
     agent_main (prog # ws) env dial_post w = snd (dial_post (unixSock pid) (join_with (CHR '' '') ws) w)"
  by (simp add: agent_main_def agent_command_joins agent_reaches_shell)

text \<open>So a helper that bash starts in the environment of the session posts to that session.\<close>

lemma helper_posts_to_session:
  "login E s = Some (Ok s1) \<Longrightarrow> ws \<noteq> [] \<Longrightarrow>
     mysh_main E RemoveAll pid (\<lambda>env s2. Some (Ok (None, agent_main (prog # ws) env dial_post s2))) s =
     main_end E RemoveAll (unixSock pid) None (snd (dial_post (unixSock pid) (join_with (CHR '' '') ws) s1))"
  by (simp add: mysh_main_def agent_posts_to_shell)

text \<open>A client that cannot start bash ends by \<^verbatim>\<open>log.Fatal\<close>, still logged in.\<close>

lemma mysh_main_without_bash:
  "login E s = Some (Ok s1) \<Longrightarrow> (\<And>env. PtyStart env = Inl err) \<Longrightarrow>
     mysh_main E RemoveAll pid (\<lambda>_. Run PtyStart raw E bash environ polls) s = Some (Fatal (error_msg err))"
  by (simp add: mysh_main_def Run_def main_end_Run_error)

text \<open>
  \<^verbatim>\<open>Run\<close> lets bash call the helper with an unquoted \<^verbatim>\<open>$(...)\<close> of the last line of its history, so the helper sees
  the fields of the line (and the names that a pattern in it matches): lines with the same fields are one command.
\<close>

definition fields :: "string \<Rightarrow> string list" where
  "fields line = filter (\<lambda>w. w \<noteq> []) (split_on (CHR '' '') line)"

lemma helper_loses_blanks:
  "agent_command (prog # fields ''grep 'a  b' notes'') = Some ''grep 'a b' notes''"
  by (simp add: fields_def agent_command_def)

end
