(* ===== verification/Spec2Isabelle.thy ===== *)
theory Spec2Isabelle
  imports Dash Proxy Proxy_Steps Cluster Session Whole_System Startup Programs
begin

text \<open>
  Verification of mysh, a service that keeps the shell history of its users and offers it with Ctrl-R on every
  machine.

  \<^bold>\<open>The program.\<close>  A user runs the shell \<^verbatim>\<open>cmd/mysh\<close>, a bash behind a pseudo terminal.  After every command its
  helper \<^verbatim>\<open>cmd/mysh-agent\<close> posts the command to a socket of the shell, which uploads it; Ctrl-R starts an incremental
  search on the uploaded commands.  The shell talks gRPC to a \<^emph>\<open>proxy\<close>, which passes every request to the
  \<^emph>\<open>search server\<close> of its user.  The proxy learns the server of a user from the \<^emph>\<open>dash\<close>, keeps the answer in a cache
  for 30 seconds, and the dash asks it to forget a user whose server changes.  The dash assigns users to the
  registered servers by a consistent hash ring and stores the assignment in etcd.  A search server checks the token of a
  request and passes it to the recorder manager, an LRU cache of running recorders; a recorder keeps the 10000
  latest distinct commands of a user, and its goroutine saves them as JSON in etcd every second.  Locks, the
  election of the leading dash and the registry of servers and proxies are keys of etcd, too.

  \<^bold>\<open>Theories and sources.\<close>
    \<^item> \<open>Mysh_Prelude\<close>, \<open>Go_Std\<close>, \<open>Json_Strings\<close>, \<open>Go_Digest\<close>: outcomes of Go code, and what the sources use of the
      Go library: formatting, paths, suffix arrays, linked lists, JSON of string lists, MD5, SHA-256, CRC-32.
    \<^item> \<open>Lru\<close>: \<^verbatim>\<open>lru/lru.go\<close>, every method; the linked list is a list of addressed nodes.
    \<^item> \<open>Recorder\<close>, \<open>Recorder_Manager\<close>: \<^verbatim>\<open>recorder/recorder.go\<close>; a manager works on a heap of recorders, and the ticks
      and exits of their goroutines are steps of their own.
    \<^item> \<open>Etcd\<close>, \<open>Etcd_Lock\<close>, \<open>Etcd_Store\<close>, \<open>Election\<close>: \<^verbatim>\<open>lib/etcd/etcd.go\<close>: key operations, the lease lock, the multi
      key update, registration, and the election with its JSON record.
    \<^item> \<open>Auth\<close>, \<open>User_Table\<close>: \<^verbatim>\<open>auth/auth.go\<close>, tokens and passwords; \<^verbatim>\<open>db/db.go\<close>, the two SQL statements.
    \<^item> \<open>Proto\<close>: the structs of \<^verbatim>\<open>proto/proto.pb.go\<close>.
    \<^item> \<open>Server\<close>: the search server and its controller, \<^verbatim>\<open>server/server.go\<close> lines 94 to 267.
    \<^item> \<open>Cluster\<close>: several search servers on one etcd, between which users are moved; \<open>Runs\<close>: what it takes that the
      runs of a component are those of an abstract machine.
    \<^item> \<open>Hash_Ring\<close>: the ring of \<^verbatim>\<open>vendor/github.com/1071496910/consistent-hashing\<close>, by the author of mysh.
    \<^item> \<open>Staling_Cache\<close>, \<open>Cli_Managers\<close>: the cache and the tables of gRPC clients of \<^verbatim>\<open>server/server.go\<close>.
    \<^item> \<open>Dash\<close>: the dash, its handlers, the callbacks that keep the ring, the suspension of users.
    \<^item> \<open>Proxy\<close>, \<open>Proxy_Steps\<close>: the proxy; as functions of one goroutine, and the interleaving of goroutines as a step
      relation on the cache, its lock and the count of requests.
    \<^item> \<open>Client\<close>, \<open>Shell\<close>: \<^verbatim>\<open>util/client/client.go\<close>, \<^verbatim>\<open>util.Retry\<close>, \<^verbatim>\<open>cmd/mysh/mysh.go\<close> and the helper.
    \<^item> \<open>Session\<close>: the shell on the handlers of a search server; \<open>Whole_System\<close>: the shell on a proxy, the leading dash and
      a search server.
    \<^item> \<open>Event_Controller\<close>: \<^verbatim>\<open>vendor/github.com/1071496910/event-controller\<close>, by the author of mysh, as the steps of its
      goroutines; \<^verbatim>\<open>NewDashController\<close>, which lets it keep the ring; the controller of \<^verbatim>\<open>lib/etcd/etcd.go\<close>.
    \<^item> \<open>Startup\<close>: the start of the services, \<^verbatim>\<open>Run*\<close> of \<^verbatim>\<open>server/server.go\<close> and the programs \<^verbatim>\<open>cmd/mysh-server\<close>,
      \<^verbatim>\<open>cmd/mysh-proxy\<close> and \<^verbatim>\<open>cmd/mysh-dash\<close>.
    \<^item> \<open>Files\<close>: the helpers of \<^verbatim>\<open>util/util.go\<close> over a file system of directories and files with permissions.
    \<^item> \<open>Terminal\<close>: \<^verbatim>\<open>Run\<close> of the shell, and the buffer between its goroutines as a step relation on its fields.
    \<^item> \<open>Programs\<close>: \<^verbatim>\<open>init\<close> and \<^verbatim>\<open>main\<close> of the shell, of the helper and of the certificate server.

  \<^bold>\<open>How the code is modelled.\<close>  Structs are records, integers of a width that matters are words (slots and sums
  of the ring and of the digests, the counter of the proxy, durations), the others are \<open>int\<close>.  A function that may
  panic, exit the process or block returns an \<open>outcome\<close>; one with a loop that may run for ever returns an
  option of it, where \<open>None\<close> is a call that does not return, and is defined by \<open>partial_function\<close>, so no fuel is
  used anywhere.  State is passed explicitly.  A method that holds its mutex is one step.  etcd, gRPC, MySQL, the
  operating system, the clock, the random source and the terminal are arguments of the definitions; what the theorems
  need of etcd are the named hypotheses \<open>etcd_reliable\<close>, \<open>kv_reliable\<close>, \<open>registry_answers\<close> and \<open>calm\<close> (requests are
  answered, a transaction applies its operations exactly when its comparisons hold), of MySQL \<open>sql_answers\<close> (what the
  two statements do to the rows), and each witness discharges them for a concrete store.

  \<^bold>\<open>What is shown.\<close>
    \<^item> End to end (\<open>Session\<close>, \<open>Whole_System\<close>): a user's commands come back with Ctrl-R, the latest match first, from a
      search server and through the proxy that the dash directs to it.
    \<^item> Each server process is the abstract service of sessions and histories, for every interleaving with its
      background goroutines, and survives every answer of etcd (\<open>Server\<close>, \<open>Recorder_Manager\<close>, \<open>Recorder\<close>, \<open>Lru\<close>);
      several of them on one etcd are one service with one history per user, also when users are moved (\<open>Cluster\<close>).
    \<^item> The lock excludes, the election reports the elected leader, the multi key update is complete
      (\<open>Etcd_Lock\<close>, \<open>Election\<close>, \<open>Etcd_Store\<close>).
    \<^item> The ring gives live nodes and moves few keys; the dash stores what it answers, and in every run of a dash both
      indexes of the assignment agree (\<open>Hash_Ring\<close>, \<open>Dash\<close>).
    \<^item> The proxy is transparent, counts its requests, and cleans its cache only while none is in flight
      (\<open>Proxy\<close>, \<open>Proxy_Steps\<close>); the endpoint cache returns the last value put.
    \<^item> The shell (\<open>Client\<close>, \<open>Shell\<close>): the search refines a picker over the server's hits, uploads are complete and free of
      immediate repetitions, the retry loop is bounded, the login dialogue returns accepted credentials only.
    \<^item> No event of the registry is lost or handled twice, and the ring follows the registry if the events of each server
      keep their order (\<open>Event_Controller\<close>); a server serves only after it has registered (\<open>Startup\<close>).
    \<^item> Who is entered in the user table logs in, and nobody else does (\<open>User_Table\<close>); the client starts with the certificate
      of the server (\<open>Programs\<close>); the file helpers keep what they are given and keep the file system a tree (\<open>Files\<close>).
    \<^item> Where the code does less than it means to, the theorem says what it does: a search needs no login, a
      late search at the former server of a user hides his commands, an aborted load wipes a history, a late tick
      loses a command, the callback of the dash deadlocks with the proxy, a request is sent to the old server after
      a cleaning, the error of a retry is lost, every dash regards itself as the leader, a failed upload is
      forgotten, a broken escape sequence crashes the shell, a server that comes back drops out of the ring, all
      servers register one key, missing directories are made unusable, an error of the certificate server replaces a
      good certificate, the buffer for bash loses bytes.

  \<^bold>\<open>Interfaces.\<close>  The locales state what one component relies on in another: the recency cache under the recorders,
  the token cache and the recorder manager under the server, the expiring cache and the client tables under the proxy,
  the ring under the dash, the settings cache under the login dialogue, the handlers under the event controller, and the
  runs of the manager, of a server and of the cluster on their abstract machines; each
  is interpreted on the model of the code.

  \<^bold>\<open>Not modelled.\<close>  The serialisation code of \<^verbatim>\<open>proto.pb.go\<close> (generated).  \<^verbatim>\<open>log\<close> and \<^verbatim>\<open>fmt.Println\<close> output.  What
  the pseudo terminal, its signals and the size of the window do.  The reflection service of gRPC.  \<^verbatim>\<open>WatchTest\<close> of
  \<^verbatim>\<open>lib/etcd/etcd.go\<close>, a test program.  The end of the source of the event controller, which nothing stops.  In the file
  system links, full disks and other processes.  Data races are out of scope except where a step relation is given:
  handlers of the shell's socket are taken one after the other, and the ring of the dash is changed by one handler at a
  time.
\<close>

end
